(* ===== verification/Streamer_Prelude.thy ===== *)
theory Streamer_Prelude
  imports Main "HOL-Library.Word" "HOL-Library.Sublist" "HOL-Library.Monad_Syntax" "HOL-Library.Log_Nat"
begin

unbundle bit_operations_syntax

text \<open>
  Prelude of the development: the C++ integer types at their widths, flat byte memory with
  block reads and writes, the representation of a word as bytes in either byte order, the
  arithmetic of ring indices, and the generic interfaces (locales) that several components
  implement: invariants of step relations, the partial-progress loops over \<open>SSL_write\<close>,
  \<open>SSL_read\<close> and \<open>write\<close>, and self-delimiting encodings.
\<close>

section \<open>Types and collections\<close>

type_synonym byte = "8 word"
type_synonym u16 = "16 word"
type_synonym u32 = "32 word"
type_synonym u64 = "64 word"

named_theorems mem_simps \<open>reads and writes of flat byte memory\<close>
named_theorems byte_simps \<open>words as byte sequences\<close>
named_theorems ring_simps \<open>arithmetic of ring indices\<close>

section \<open>Flat byte memory\<close>

definition mem_read :: "byte list \<Rightarrow> nat \<Rightarrow> nat \<Rightarrow> byte list" where
  "mem_read m off n = take n (drop off m)"

definition mem_write :: "byte list \<Rightarrow> nat \<Rightarrow> byte list \<Rightarrow> byte list" where
  "mem_write m off bs = take off m @ bs @ drop (off + length bs) m"

text \<open>A frame: what the camera produces, the queue holds and the protocol carries.\<close>

record frame =
  fr_seq :: u64
  fr_timestamp_ns :: u64
  fr_pixel_format :: u32
  fr_width :: u16
  fr_height :: u16
  fr_payload :: "byte list"

lemma unat_of_nat_small: "n < 2 ^ LENGTH('a) \<Longrightarrow> unat (of_nat n :: 'a::len word) = n"
  by (simp add: unat_of_nat)

lemma length_mem_read [mem_simps]:
  "off + n \<le> length m \<Longrightarrow> length (mem_read m off n) = n"
  by (simp add: mem_read_def)

lemma length_mem_write [mem_simps]:
  "off + length bs \<le> length m \<Longrightarrow> length (mem_write m off bs) = length m"
  by (simp add: mem_write_def)

lemma nth_mem_write:
  assumes "off + length bs \<le> length m" and "i < length m"
  shows "mem_write m off bs ! i = (if off \<le> i \<and> i < off + length bs then bs ! (i - off) else m ! i)"
  using assms by (auto simp: mem_write_def nth_append min_def)

lemma mem_read_write_same [mem_simps]:
  "off + length bs \<le> length m \<Longrightarrow> n = length bs \<Longrightarrow> mem_read (mem_write m off bs) off n = bs"
  by (simp add: mem_read_def mem_write_def)

lemma mem_read_write_other [mem_simps]:
  assumes "off + length bs \<le> length m"
    and "a + n \<le> off \<or> off + length bs \<le> a"
  shows "mem_read (mem_write m off bs) a n = mem_read m a n"
proof (rule nth_equalityI)
  show "length (mem_read (mem_write m off bs) a n) = length (mem_read m a n)"
    using assms(1) by (simp add: mem_read_def length_mem_write)
  fix i assume "i < length (mem_read (mem_write m off bs) a n)"
  then have "i < n" and "a + i < length m"
    using assms(1) by (auto simp: mem_read_def length_mem_write)
  then show "mem_read (mem_write m off bs) a n ! i = mem_read m a n ! i"
    using assms by (auto simp: mem_read_def length_mem_write nth_mem_write)
qed

section \<open>Words as bytes\<close>

datatype byte_order = LittleEndian | BigEndian

definition word_to_le :: "nat \<Rightarrow> 'a::len word \<Rightarrow> byte list" where
  "word_to_le n w = map (\<lambda>i. ucast (drop_bit (8 * i) w)) [0..<n]"

primrec le_to_word :: "byte list \<Rightarrow> 'a::len word" where
  "le_to_word [] = 0"
| "le_to_word (b # bs) = ucast b OR push_bit 8 (le_to_word bs)"

text \<open>The bytes of an object of \<open>n\<close> bytes in the memory of a host with the given byte order.\<close>

definition mem_bytes :: "byte_order \<Rightarrow> nat \<Rightarrow> 'a::len word \<Rightarrow> byte list" where
  "mem_bytes bo n w = (case bo of LittleEndian \<Rightarrow> word_to_le n w | BigEndian \<Rightarrow> rev (word_to_le n w))"

definition mem_word :: "byte_order \<Rightarrow> byte list \<Rightarrow> 'a::len word" where
  "mem_word bo bs = (case bo of LittleEndian \<Rightarrow> le_to_word bs | BigEndian \<Rightarrow> le_to_word (rev bs))"

lemma length_word_to_le [simp, byte_simps]: "length (word_to_le n w) = n"
  by (simp add: word_to_le_def)

lemma length_mem_bytes [simp, byte_simps]: "length (mem_bytes bo n w) = n"
  by (cases bo) (simp_all add: mem_bytes_def)

lemma word_to_le_Suc: "word_to_le (Suc n) w = ucast w # word_to_le n (drop_bit 8 w)"
proof -
  have "map (\<lambda>i. ucast (drop_bit (8 * i) w)) [Suc 0..<Suc n]
      = map (\<lambda>i. (ucast (drop_bit (8 * i) (drop_bit 8 w)) :: byte)) [0..<n]"
    by (simp add: map_Suc_upt [symmetric] o_def algebra_simps del: upt_Suc)
  then show ?thesis
    by (simp add: word_to_le_def upt_conv_Cons del: upt_Suc)
qed

lemma le_to_word_take: "le_to_word (word_to_le n w) = take_bit (8 * n) (w :: 'a::len word)"
proof (induction n arbitrary: w)
  case 0
  then show ?case by (simp add: word_to_le_def)
next
  case (Suc n)
  show ?case
    unfolding word_to_le_Suc le_to_word.simps Suc.IH
    by (rule bit_word_eqI)
      (auto simp: bit_simps bit_ucast_iff dest: bit_imp_le_length)
qed

lemma le_to_word_inverse [byte_simps]:
  "LENGTH('a) = 8 * n \<Longrightarrow> le_to_word (word_to_le n w) = (w :: 'a::len word)"
  by (simp add: le_to_word_take take_bit_word_eq_self)

lemma mem_word_bytes [byte_simps]:
  "LENGTH('a) = 8 * n \<Longrightarrow> mem_word bo (mem_bytes bo n w) = (w :: 'a::len word)"
  by (cases bo) (simp_all add: mem_word_def mem_bytes_def le_to_word_inverse)

lemma word_to_le_inverse [byte_simps]:
  assumes "LENGTH('a) = 8 * length bs"
  shows "word_to_le (length bs) (le_to_word bs :: 'a::len word) = bs"
proof -
  have "\<And>i. i < length bs \<Longrightarrow> ucast (drop_bit (8 * i) (le_to_word bs :: 'a word)) = bs ! i"
    using assms
  proof -
    have gen: "8 * length cs \<le> LENGTH('a) \<Longrightarrow> i < length cs
        \<Longrightarrow> ucast (drop_bit (8 * i) (le_to_word cs :: 'a word)) = cs ! i" for cs :: "byte list" and i
    proof (induction cs arbitrary: i)
      case Nil
      then show ?case by simp
    next
      case (Cons c cs)
      show ?case
      proof (cases i)
        case 0
        show ?thesis unfolding 0
          by (rule bit_word_eqI) (use Cons.prems in \<open>auto simp: bit_simps bit_ucast_iff\<close>)
      next
        case (Suc j)
        have "drop_bit (8 * i) (le_to_word (c # cs) :: 'a word)
            = drop_bit (8 * j) (take_bit (LENGTH('a) - 8) (le_to_word cs :: 'a word))"
          unfolding Suc le_to_word.simps
          by (rule bit_word_eqI)
            (use Cons.prems in \<open>auto simp: bit_simps bit_ucast_iff dest: bit_imp_le_length\<close>)
        moreover have "ucast (drop_bit (8 * j) (take_bit (LENGTH('a) - 8) (le_to_word cs :: 'a word)))
            = (ucast (drop_bit (8 * j) (le_to_word cs :: 'a word)) :: byte)"
          by (rule bit_word_eqI) (use Cons.prems Suc in \<open>auto simp: bit_simps bit_ucast_iff\<close>)
        ultimately show ?thesis
          using Cons.IH [of j] Cons.prems Suc by simp
      qed
    qed
    fix i assume "i < length bs"
    then show "ucast (drop_bit (8 * i) (le_to_word bs :: 'a word)) = bs ! i"
      using gen [of bs i] assms by simp
  qed
  then show ?thesis
    by (intro nth_equalityI) (simp_all add: word_to_le_def)
qed

lemma word_to_le_inj:
  assumes "word_to_le n v = word_to_le n w" and "LENGTH('a) = 8 * n"
  shows "v = (w :: 'a::len word)"
  using arg_cong [OF assms(1), of "le_to_word :: byte list \<Rightarrow> 'a word"] assms(2)
  by (simp add: le_to_word_inverse)

text \<open>A word put together from two halves is stored as the low half followed by the high half.\<close>

lemma word_to_le_halves:
  fixes hi lo :: "'h::len word"
  assumes "LENGTH('h) = 8 * n" and "LENGTH('a) = 16 * n"
  shows "word_to_le (2 * n) (push_bit (8 * n) (ucast hi) OR (ucast lo :: 'a::len word))
    = word_to_le n lo @ word_to_le n hi"
proof (rule nth_equalityI)
  let ?w = "push_bit (8 * n) (ucast hi) OR (ucast lo :: 'a word)"
  fix i assume "i < length (word_to_le (2 * n) ?w)"
  then have i: "i < 2 * n" by simp
  have "(ucast (drop_bit (8 * i) ?w) :: byte)
      = (if i < n then ucast (drop_bit (8 * i) lo) else ucast (drop_bit (8 * (i - n)) hi))"
    by (rule bit_word_eqI)
      (use i assms in \<open>auto simp: bit_simps bit_ucast_iff diff_mult_distrib2 dest: bit_imp_le_length\<close>)
  then show "word_to_le (2 * n) ?w ! i = (word_to_le n lo @ word_to_le n hi) ! i"
    using i by (auto simp: word_to_le_def nth_append)
qed simp

section \<open>Ring indices\<close>

lemma ring_index_inj [ring_simps]:
  assumes "i < c" and "j < c"
  shows "(t + i) mod c = (t + j) mod (c::nat) \<longleftrightarrow> i = j"
proof
  assume eq: "(t + i) mod c = (t + j) mod c"
  show "i = j"
  proof (rule ccontr)
    assume "i \<noteq> j"
    then consider "i < j" | "j < i" by linarith
    then show False
    proof cases
      case 1
      from eq have "c dvd (t + j) - (t + i)"
        by (metis mod_eq_dvd_iff_nat 1 nat_add_left_cancel_le less_imp_le)
      then have "c dvd j - i" by simp
      moreover have "0 < j - i" and "j - i < c" using 1 assms by auto
      ultimately show False using nat_dvd_not_less by blast
    next
      case 2
      from eq have "c dvd (t + i) - (t + j)"
        by (metis mod_eq_dvd_iff_nat 2 nat_add_left_cancel_le less_imp_le)
      then have "c dvd i - j" by simp
      moreover have "0 < i - j" and "i - j < c" using 2 assms by auto
      ultimately show False using nat_dvd_not_less by blast
    qed
  qed
qed simp

lemma ring_index_Suc [ring_simps]: "(Suc t mod c + i) mod (c::nat) = Suc (t + i) mod c"
  by (simp add: mod_add_left_eq)

lemma ring_index_surj:
  assumes "t < c" and "k < (c::nat)"
  obtains i where "i < c" and "k = (t + i) mod c"
proof (cases "t \<le> k")
  case True
  then show thesis using assms that [of "k - t"] by simp
next
  case False
  have "(t + (c + k - t)) mod c = (c + k) mod c" using assms by simp
  also have "\<dots> = k" using assms by simp
  finally show thesis using that [of "c + k - t"] False assms by simp
qed

section \<open>Subsequences\<close>

lemma subseq_append_left: "subseq xs ys \<Longrightarrow> subseq (zs @ xs) (zs @ ys)"
  by (rule list_emb_append_mono) simp_all

lemma subseq_append_right: "subseq xs ys \<Longrightarrow> subseq (xs @ zs) (ys @ zs)"
  by (rule list_emb_append_mono) simp_all

lemma subseq_without_last: "subseq (xs @ ys) zs \<Longrightarrow> subseq xs zs"
  by (rule subseq_order.trans [of _ "xs @ ys"]) (auto intro: prefix_imp_subseq)

section \<open>Generic interfaces\<close>

text \<open>
  A state machine given by its initial states and its steps, with an invariant. The lemmas
  carry the invariant, and any property that follows from it, to every reachable state.
\<close>

inductive reach :: "('s \<Rightarrow> bool) \<Rightarrow> ('s \<Rightarrow> 's \<Rightarrow> bool) \<Rightarrow> 's \<Rightarrow> bool"
  for init :: "'s \<Rightarrow> bool" and step :: "'s \<Rightarrow> 's \<Rightarrow> bool" where
  reach_init: "init s \<Longrightarrow> reach init step s"
| reach_step: "reach init step s \<Longrightarrow> step s t \<Longrightarrow> reach init step t"

locale invariant_system =
  fixes init :: "'s \<Rightarrow> bool" and step :: "'s \<Rightarrow> 's \<Rightarrow> bool" and inv :: "'s \<Rightarrow> bool"
  assumes inv_init: "init s \<Longrightarrow> inv s"
    and inv_step: "inv s \<Longrightarrow> step s t \<Longrightarrow> inv t"
begin

lemma inv_reach: "reach init step s \<Longrightarrow> inv s"
  by (induction rule: reach.induct) (auto intro: inv_init inv_step)

lemma inv_steps: "step\<^sup>*\<^sup>* s t \<Longrightarrow> inv s \<Longrightarrow> inv t"
  by (induction rule: rtranclp_induct) (auto intro: inv_step)

end

text \<open>
  A forward simulation of one state machine by a coarser one: every step is matched by steps of the
  coarser machine, none included. Whatever the fine machine reaches is then simulated by a state
  that the coarse one reaches.
\<close>

locale forward_simulation =
  fixes init :: "'s \<Rightarrow> bool" and step :: "'s \<Rightarrow> 's \<Rightarrow> bool"
    and ainit :: "'a \<Rightarrow> bool" and astep :: "'a \<Rightarrow> 'a \<Rightarrow> bool" and sim :: "'s \<Rightarrow> 'a \<Rightarrow> bool"
  assumes sim_init: "init s \<Longrightarrow> \<exists>a. ainit a \<and> sim s a"
    and sim_step: "reach ainit astep a \<Longrightarrow> sim s a \<Longrightarrow> step s t \<Longrightarrow> \<exists>b. astep\<^sup>*\<^sup>* a b \<and> sim t b"
begin

lemma reach_steps: "astep\<^sup>*\<^sup>* a b \<Longrightarrow> reach ainit astep a \<Longrightarrow> reach ainit astep b"
  by (induction rule: rtranclp_induct) (auto intro: reach_step)

lemma sim_reach: "reach init step s \<Longrightarrow> \<exists>a. reach ainit astep a \<and> sim s a"
proof (induction rule: reach.induct)
  case (reach_init s)
  then show ?case using sim_init by (meson reach.reach_init)
next
  case (reach_step s t)
  then show ?case using sim_step reach_steps by meson
qed

end

text \<open>
  A queue that may lose elements but never reorders, duplicates or invents them. Its users
  run sequences of insertions, removals (each with its own arguments) and other operations
  that keep the contents.
\<close>

datatype ('a, 'd, 'o) fifo_op = Enq 'a | Deq 'd | Aux 'o

fun op_ok :: "('a \<Rightarrow> bool) \<Rightarrow> ('d \<Rightarrow> bool) \<Rightarrow> ('a, 'd, 'o) fifo_op \<Rightarrow> bool" where
  "op_ok valid call_ok (Enq x) = valid x"
| "op_ok valid call_ok (Deq d) = call_ok d"
| "op_ok valid call_ok (Aux a) = True"

fun fifo_run :: "('a \<Rightarrow> 'q \<Rightarrow> 'q) \<Rightarrow> ('d \<Rightarrow> 'q \<Rightarrow> 'a option \<times> 'q) \<Rightarrow> ('o \<Rightarrow> 'q \<Rightarrow> 'q) \<Rightarrow>
    ('a, 'd, 'o) fifo_op list \<Rightarrow> 'q \<Rightarrow> 'a list \<times> 'q" where
  "fifo_run enq deq aux [] q = ([], q)"
| "fifo_run enq deq aux (Enq x # ops) q = fifo_run enq deq aux ops (enq x q)"
| "fifo_run enq deq aux (Aux a # ops) q = fifo_run enq deq aux ops (aux a q)"
| "fifo_run enq deq aux (Deq d # ops) q =
     (case deq d q of
        (None, q') \<Rightarrow> fifo_run enq deq aux ops q'
      | (Some x, q') \<Rightarrow> (case fifo_run enq deq aux ops q' of (out, q'') \<Rightarrow> (x # out, q'')))"

fun offered :: "('a, 'd, 'o) fifo_op list \<Rightarrow> 'a list" where
  "offered [] = []"
| "offered (Enq x # ops) = x # offered ops"
| "offered (_ # ops) = offered ops"

locale lossy_fifo =
  fixes valid :: "'a \<Rightarrow> bool" and call_ok :: "'d \<Rightarrow> bool"
    and inv :: "'q \<Rightarrow> bool" and contents :: "'q \<Rightarrow> 'a list"
    and enq :: "'a \<Rightarrow> 'q \<Rightarrow> 'q" and deq :: "'d \<Rightarrow> 'q \<Rightarrow> 'a option \<times> 'q" and aux :: "'o \<Rightarrow> 'q \<Rightarrow> 'q"
  assumes enq_inv: "inv q \<Longrightarrow> valid x \<Longrightarrow> inv (enq x q)"
    and enq_contents: "inv q \<Longrightarrow> valid x \<Longrightarrow> subseq (contents (enq x q)) (contents q @ [x])"
    and deq_inv: "inv q \<Longrightarrow> call_ok d \<Longrightarrow> inv (snd (deq d q))"
    and deq_None: "inv q \<Longrightarrow> call_ok d \<Longrightarrow> deq d q = (None, q') \<Longrightarrow> subseq (contents q') (contents q)"
    and deq_Some: "inv q \<Longrightarrow> call_ok d \<Longrightarrow> deq d q = (Some x, q') \<Longrightarrow> contents q = x # contents q'"
    and aux_inv: "inv q \<Longrightarrow> inv (aux a q)"
    and aux_contents: "inv q \<Longrightarrow> contents (aux a q) = contents q"
begin

lemma run_subseq:
  "inv q \<Longrightarrow> list_all (op_ok valid call_ok) ops \<Longrightarrow> fifo_run enq deq aux ops q = (out, q') \<Longrightarrow>
   inv q' \<and> subseq (out @ contents q') (contents q @ offered ops)"
proof (induction ops arbitrary: q out)
  case Nil
  then show ?case by simp
next
  case (Cons op ops)
  show ?case
  proof (cases op)
    case (Enq x)
    with Cons.prems have v: "valid x" by simp
    with Enq Cons.IH [of "enq x q" out] Cons.prems enq_inv
    have ih: "inv q' \<and> subseq (out @ contents q') (contents (enq x q) @ offered ops)" by simp
    moreover have "subseq (contents (enq x q) @ offered ops) ((contents q @ [x]) @ offered ops)"
      by (rule subseq_append_right [OF enq_contents [OF Cons.prems(1) v]])
    ultimately show ?thesis using Enq by (auto intro: subseq_order.trans)
  next
    case (Aux a)
    with Cons.IH [of "aux a q" out] Cons.prems show ?thesis
      by (simp add: aux_inv aux_contents)
  next
    case (Deq d)
    with Cons.prems have c: "call_ok d" by simp
    obtain r q1 where d: "deq d q = (r, q1)" by (cases "deq d q")
    then have q1: "inv q1" using deq_inv [OF Cons.prems(1) c] by simp
    show ?thesis
    proof (cases r)
      case None
      with Cons.IH [OF q1, of out] Cons.prems Deq d
      have "inv q' \<and> subseq (out @ contents q') (contents q1 @ offered ops)" by simp
      moreover have "subseq (contents q1 @ offered ops) (contents q @ offered ops)"
        using deq_None [OF Cons.prems(1) c] d None by simp
      ultimately show ?thesis using Deq by (auto intro: subseq_order.trans)
    next
      case (Some x)
      then obtain out' where o: "fifo_run enq deq aux ops q1 = (out', q')" "out = x # out'"
        using Cons.prems(3) Deq d by (auto split: prod.splits)
      then show ?thesis
        using Cons.IH [OF q1 _ o(1)] Cons.prems(2) deq_Some [OF Cons.prems(1) c] d Some Deq by simp
    qed
  qed
qed

end

end
