(* ===== verification/Clib.thy ===== *)
theory Clib
  imports Streamer_Prelude
begin

text \<open>
  The parts of the C and C++ standard library that the program uses on strings: decimal
  rendering, bounded formatting (\<open>snprintf\<close>), and the conversions \<open>strtol\<close>, \<open>atoi\<close> and
  \<open>std::stoi\<close>. A C string is the list of its characters without the terminator.
\<close>

section \<open>Decimal rendering\<close>

definition digit_char :: "nat \<Rightarrow> char" where
  "digit_char d = (char_of (48 + d) :: char)"

fun nat_to_dec :: "nat \<Rightarrow> string" where
  "nat_to_dec n = (if n < 10 then [digit_char n] else nat_to_dec (n div 10) @ [digit_char (n mod 10)])"

declare nat_to_dec.simps [simp del]

definition int_to_dec :: "int \<Rightarrow> string" where
  "int_to_dec i = (if i < 0 then CHR ''-'' # nat_to_dec (nat (- i)) else nat_to_dec (nat i))"

text \<open>Zero padding to a minimum width, as in \<open>%08lu\<close> and \<open>%03d\<close>.\<close>

definition zero_pad :: "nat \<Rightarrow> string \<Rightarrow> string" where
  "zero_pad n s = replicate (n - length s) (CHR ''0'') @ s"

text \<open>
  \<open>snprintf\<close> with a buffer of \<open>bufsize\<close> bytes: the characters it stores before the terminator.
  Its return value is the length of the whole text.
\<close>

definition snprintf_stored :: "nat \<Rightarrow> string \<Rightarrow> string" where
  "snprintf_stored bufsize s = take (bufsize - 1) s"

section \<open>Numbers from strings\<close>

definition is_space :: "char \<Rightarrow> bool" where
  "is_space c \<longleftrightarrow> c = CHR '' '' \<or> (9 \<le> (of_char c :: nat) \<and> (of_char c :: nat) \<le> 13)"

definition is_digit :: "char \<Rightarrow> bool" where
  "is_digit c \<longleftrightarrow> 48 \<le> (of_char c :: nat) \<and> (of_char c :: nat) \<le> 57"

definition dec_value :: "string \<Rightarrow> nat" where
  "dec_value s = foldl (\<lambda>acc c. 10 * acc + (of_char c - 48)) 0 s"

definition LONG_MAX :: int where "LONG_MAX = 2 ^ 63 - 1"
definition LONG_MIN :: int where "LONG_MIN = - (2 ^ 63)"
definition INT_MAX :: int where "INT_MAX = 2 ^ 31 - 1"
definition INT_MIN :: int where "INT_MIN = - (2 ^ 31)"

text \<open>
  \<open>strtol(s, &end, 10)\<close>: the clamped value, how many characters were consumed (none when there
  is no number) and whether the value was out of range.
\<close>

definition strtol :: "string \<Rightarrow> int \<times> nat \<times> bool" where
  "strtol s =
     (let ws = takeWhile is_space s;
          rest = dropWhile is_space s;
          neg = (rest \<noteq> [] \<and> hd rest = CHR ''-'');
          sign = (if rest \<noteq> [] \<and> (hd rest = CHR ''-'' \<or> hd rest = CHR ''+'') then 1 else 0);
          ds = takeWhile is_digit (drop sign rest);
          v = (if neg then - int (dec_value ds) else int (dec_value ds))
      in if ds = [] then (0, 0, False)
         else (max LONG_MIN (min LONG_MAX v), length ws + sign + length ds, v < LONG_MIN \<or> LONG_MAX < v))"

text \<open>Conversion of a \<open>long\<close> to \<open>int\<close> keeps the low 32 bits; glibc's \<open>atoi\<close> is that of \<open>strtol\<close>.\<close>

definition int32_of :: "int \<Rightarrow> int" where
  "int32_of v = sint (word_of_int v :: 32 word)"

definition atoi :: "string \<Rightarrow> int" where
  "atoi s = int32_of (fst (strtol s))"

datatype stoi_error = invalid_argument | out_of_range

definition stoi :: "string \<Rightarrow> stoi_error + int" where
  "stoi s =
     (case strtol s of (v, consumed, erange) \<Rightarrow>
        if consumed = 0 then Inl invalid_argument
        else if erange \<or> v < INT_MIN \<or> INT_MAX < v then Inl out_of_range
        else Inr v)"

section \<open>Round trip\<close>

lemma of_char_digit: "d < 10 \<Longrightarrow> (of_char (digit_char d) :: nat) = 48 + d"
  by (simp add: digit_char_def)

lemma digit_char_props: "d < 10 \<Longrightarrow> is_digit (digit_char d) \<and> \<not> is_space (digit_char d)"
proof -
  assume d: "d < 10"
  have "digit_char d \<noteq> CHR '' ''"
  proof
    assume "digit_char d = CHR '' ''"
    then have "(of_char (digit_char d) :: nat) = of_char (CHR '' '')" by simp
    then show False using d by (simp add: of_char_digit)
  qed
  then show ?thesis using d by (simp add: is_digit_def is_space_def of_char_digit)
qed

lemma nat_to_dec_digits: "list_all is_digit (nat_to_dec n)"
proof (induction n rule: nat_to_dec.induct)
  case (1 n)
  then show ?case
    by (subst nat_to_dec.simps) (auto simp: digit_char_props)
qed

lemma nat_to_dec_nonempty [simp]: "nat_to_dec n \<noteq> []"
  by (subst nat_to_dec.simps) simp

lemma dec_value_nat_to_dec: "dec_value (nat_to_dec n) = n"
proof (induction n rule: nat_to_dec.induct)
  case (1 n)
  show ?case
  proof (cases "n < 10")
    case True
    then show ?thesis by (subst nat_to_dec.simps) (simp add: dec_value_def of_char_digit)
  next
    case False
    then have "dec_value (nat_to_dec (n div 10)) = n div 10" using 1 by simp
    then show ?thesis
      using False by (subst nat_to_dec.simps) (simp add: dec_value_def of_char_digit)
  qed
qed

lemma is_digit_not_special: "is_digit c \<Longrightarrow> \<not> is_space c \<and> c \<noteq> CHR ''-'' \<and> c \<noteq> CHR ''+''"
  by (auto simp: is_digit_def is_space_def)

lemma takeWhile_all: "list_all P xs \<Longrightarrow> takeWhile P xs = xs"
  by (simp add: list_all_iff)

lemma strtol_nat_to_dec:
  assumes "int n \<le> LONG_MAX"
  shows "strtol (nat_to_dec n) = (int n, length (nat_to_dec n), False)"
proof -
  let ?s = "nat_to_dec n"
  obtain c cs where s: "?s = c # cs" by (cases ?s) (auto simp: nat_to_dec_nonempty)
  have c: "is_digit c" using nat_to_dec_digits [of n] s by simp
  note n = is_digit_not_special [OF c]
  have "takeWhile is_space ?s = []" "dropWhile is_space ?s = ?s" using n s by simp_all
  moreover have "hd ?s \<noteq> CHR ''-''" "hd ?s \<noteq> CHR ''+''" using n s by simp_all
  ultimately show ?thesis
    using assms by (simp add: strtol_def Let_def dec_value_nat_to_dec LONG_MIN_def LONG_MAX_def
        takeWhile_all [OF nat_to_dec_digits])
qed

lemma int32_of_small: "INT_MIN \<le> v \<Longrightarrow> v \<le> INT_MAX \<Longrightarrow> int32_of v = v"
  by (simp add: int32_of_def INT_MIN_def INT_MAX_def signed_of_int signed_take_bit_int_eq_self)

lemma atoi_nat_to_dec: "int n \<le> INT_MAX \<Longrightarrow> atoi (nat_to_dec n) = int n"
  by (simp add: atoi_def strtol_nat_to_dec LONG_MAX_def INT_MAX_def int32_of_small INT_MIN_def)

end
