(* ===== verification/Getopt.thy ===== *)
theory Getopt
  imports Clib
begin

text \<open>
  The C library's \<open>getopt_long\<close> as both programs use it: a loop that collects its results until
  it returns -1. Short options may be clustered and take their argument attached or from the
  next word, long options may be abbreviated and take it after \<open>=\<close> or from the next word, words
  that are no options are passed over, and \<open>--\<close> ends the options. Errors come back as \<open>?\<close>.
\<close>

datatype has_arg = no_argument | required_argument

type_synonym long_option = "string \<times> has_arg \<times> char"
type_synonym opt_result = "char \<times> string"

definition opt_error :: opt_result where "opt_error = (CHR ''?'', [])"

text \<open>The meaning of an option string such as \<open>"p:c:vh"\<close>.\<close>

fun short_option :: "string \<Rightarrow> char \<Rightarrow> has_arg option" where
  "short_option [] c = None"
| "short_option (o1 # os) c =
     (if o1 = c \<and> c \<noteq> CHR '':'' then Some (if os \<noteq> [] \<and> hd os = CHR '':'' then required_argument else no_argument)
      else short_option os c)"

fun getopt_short :: "string \<Rightarrow> string \<Rightarrow> string list \<Rightarrow> opt_result list \<times> string list" where
  "getopt_short optstring [] rest = ([], rest)"
| "getopt_short optstring (c # cs) rest =
     (case short_option optstring c of
        None \<Rightarrow> (case getopt_short optstring cs rest of (rs, rest') \<Rightarrow> (opt_error # rs, rest'))
      | Some no_argument \<Rightarrow> (case getopt_short optstring cs rest of (rs, rest') \<Rightarrow> ((c, []) # rs, rest'))
      | Some required_argument \<Rightarrow>
          if cs \<noteq> [] then ([(c, cs)], rest)
          else (case rest of [] \<Rightarrow> ([opt_error], []) | a # rest' \<Rightarrow> ([(c, a)], rest')))"

text \<open>The table entry for a name: an exact match, or the only meaning of an abbreviation.\<close>

definition find_long :: "long_option list \<Rightarrow> string \<Rightarrow> (has_arg \<times> char) option" where
  "find_long longs name =
     (case filter (\<lambda>l. fst l = name) longs of
        l # _ \<Rightarrow> Some (snd l)
      | [] \<Rightarrow>
          (case filter (\<lambda>l. prefix name (fst l)) longs of
             [] \<Rightarrow> None
           | l # ls \<Rightarrow> if list_all (\<lambda>k. snd k = snd l) ls then Some (snd l) else None))"

definition getopt_long1 :: "long_option list \<Rightarrow> string \<Rightarrow> string list \<Rightarrow> opt_result \<times> string list" where
  "getopt_long1 longs word rest =
     (let name = takeWhile (\<lambda>c. c \<noteq> CHR ''='') word; val = dropWhile (\<lambda>c. c \<noteq> CHR ''='') word in
      case find_long longs name of
        None \<Rightarrow> (opt_error, rest)
      | Some (no_argument, c) \<Rightarrow> (if val = [] then (c, []) else opt_error, rest)
      | Some (required_argument, c) \<Rightarrow>
          if val \<noteq> [] then ((c, tl val), rest)
          else (case rest of [] \<Rightarrow> (opt_error, []) | a # rest' \<Rightarrow> ((c, a), rest')))"

lemma getopt_short_length: "length (snd (getopt_short optstring cs rest)) \<le> length rest"
  by (induction optstring cs rest rule: getopt_short.induct)
    (auto split: option.split has_arg.split list.split prod.split)

lemma getopt_long1_length: "length (snd (getopt_long1 longs word rest)) \<le> length rest"
  by (auto simp: getopt_long1_def Let_def split: option.split has_arg.split list.split)

lemma getopt_rest_shorter [termination_simp]:
  "(rs, rest') = getopt_short optstring cs rest \<Longrightarrow> length rest' < Suc (length rest)"
  "(r, rest') = getopt_long1 longs word rest \<Longrightarrow> length rest' < Suc (length rest)"
  using getopt_short_length [of optstring cs rest] getopt_long1_length [of longs word rest]
  by (metis le_imp_less_Suc snd_conv)+

fun getopt_long :: "string \<Rightarrow> long_option list \<Rightarrow> string list \<Rightarrow> opt_result list" where
  "getopt_long optstring longs [] = []"
| "getopt_long optstring longs (a # rest) =
     (if a = ''--'' then []
      else if take 2 a = ''--'' then
        (case getopt_long1 longs (drop 2 a) rest of (r, rest') \<Rightarrow> r # getopt_long optstring longs rest')
      else if take 1 a = ''-'' \<and> a \<noteq> ''-'' then
        (case getopt_short optstring (tl a) rest of (rs, rest') \<Rightarrow> rs @ getopt_long optstring longs rest')
      else getopt_long optstring longs rest)"

text \<open>A long option given in full with its argument in the next word.\<close>

lemma getopt_long_word:
  assumes "name \<noteq> []" and "CHR ''='' \<notin> set name" and "find_long longs name = Some (required_argument, c)"
  shows "getopt_long optstring longs ((''--'' @ name) # v # rest) = (c, v) # getopt_long optstring longs rest"
proof -
  have n: "takeWhile (\<lambda>c. c \<noteq> CHR ''='') name = name" "dropWhile (\<lambda>c. c \<noteq> CHR ''='') name = []"
    using assms(2) by (auto simp: takeWhile_eq_all_conv dropWhile_eq_Nil_conv)
  have "getopt_long1 longs name (v # rest) = ((c, v), rest)"
    using assms(3) by (simp add: getopt_long1_def Let_def n)
  then show ?thesis using assms(1) by simp
qed

lemma getopt_long_error:
  assumes "take 2 a = ''--''" and "a \<noteq> ''--''" and "find_long longs (takeWhile (\<lambda>c. c \<noteq> CHR ''='') (drop 2 a)) = None"
  shows "getopt_long optstring longs (a # rest) = opt_error # getopt_long optstring longs rest"
  using assms by (simp add: getopt_long1_def Let_def)

text \<open>The option loop: it stops at the first option that ends the program.\<close>

fun fold_options :: "(opt_result \<Rightarrow> 'c \<Rightarrow> 'e + 'c) \<Rightarrow> opt_result list \<Rightarrow> 'c \<Rightarrow> 'e + 'c" where
  "fold_options f [] cfg = Inr cfg"
| "fold_options f (r # rs) cfg = (case f r cfg of Inl e \<Rightarrow> Inl e | Inr cfg' \<Rightarrow> fold_options f rs cfg')"

text \<open>How a process ends.\<close>

datatype exit_status = EXIT_SUCCESS | EXIT_FAILURE | ABORTED

end
