(* ===== verification/Log_Message.thy ===== *)
theory Log_Message
  imports Clib
begin

text \<open>
  The logger of \<open>include/log.hpp\<close>: levels, the log file that is opened once, the time stamp, the
  message object with its fixed buffer of 512 bytes and the write position, the insertion
  operators, and the destructor that emits the line. The theorems show that no insertion leaves
  the buffer and that a message comes out as one line, the first 510 characters of everything
  that was inserted.
\<close>

section \<open>Levels\<close>

datatype LogLevel = LogError | LogWarn | LogInfo | LogDebug

primrec level_number :: "LogLevel \<Rightarrow> nat" where
  "level_number LogError = 0"
| "level_number LogWarn = 1"
| "level_number LogInfo = 2"
| "level_number LogDebug = 3"

lemma level_number_inject [simp]: "level_number a = level_number b \<longleftrightarrow> a = b"
  by (cases a; cases b) simp_all

instantiation LogLevel :: linorder
begin

definition less_eq_LogLevel :: "LogLevel \<Rightarrow> LogLevel \<Rightarrow> bool" where
  "a \<le> b \<longleftrightarrow> level_number a \<le> level_number b"

definition less_LogLevel :: "LogLevel \<Rightarrow> LogLevel \<Rightarrow> bool" where
  "a < b \<longleftrightarrow> level_number a < level_number b"

instance
  by standard (auto simp: less_eq_LogLevel_def less_LogLevel_def)

end

primrec levelToString :: "LogLevel \<Rightarrow> string" where
  "levelToString LogError = ''ERROR''"
| "levelToString LogWarn = ''WARN ''"
| "levelToString LogInfo = ''INFO ''"
| "levelToString LogDebug = ''DEBUG''"

section \<open>The log file\<close>

definition LOG_FILE_PATH :: string where
  "LOG_FILE_PATH = ''/var/tmp/camera_log''"

abbreviation (input) STDERR_FILENO :: int where "STDERR_FILENO \<equiv> 2"

text \<open>
  The globals of the logger. \<open>log_writes\<close> records the calls of \<open>write\<close> in order, each with its
  descriptor and the bytes handed over: the code ignores their results.
\<close>

record logger =
  g_log_level :: LogLevel
  g_log_fd :: int
  g_log_once :: bool
  log_writes :: "(int \<times> string) list"

definition initial_logger :: logger where
  "initial_logger = \<lparr>g_log_level = LogInfo, g_log_fd = -1, g_log_once = False, log_writes = []\<rparr>"

text \<open>\<open>open_file\<close> is the result of \<open>open(path, O_WRONLY | O_CREAT | O_APPEND, 0644)\<close>.\<close>

definition openLogFile :: "(string \<Rightarrow> int) \<Rightarrow> logger \<Rightarrow> logger" where
  "openLogFile open_file g =
     (let fd = open_file LOG_FILE_PATH
      in g\<lparr>g_log_fd := (if fd < 0 then STDERR_FILENO else fd)\<rparr>)"

definition ensureLogOpen :: "(string \<Rightarrow> int) \<Rightarrow> logger \<Rightarrow> logger" where
  "ensureLogOpen open_file g =
     (if g_log_once g then g else (openLogFile open_file g)\<lparr>g_log_once := True\<rparr>)"

section \<open>Prefix of a message\<close>

text \<open>\<open>strrchr\<close>: the part of the string from the last occurrence of the character.\<close>

fun strrchr :: "string \<Rightarrow> char \<Rightarrow> string option" where
  "strrchr [] c = None"
| "strrchr (x # xs) c =
     (case strrchr xs c of Some r \<Rightarrow> Some r | None \<Rightarrow> if x = c then Some (x # xs) else None)"

definition extractFilename :: "string \<Rightarrow> string" where
  "extractFilename path = (case strrchr path (CHR ''/'') of Some file \<Rightarrow> tl file | None \<Rightarrow> path)"

text \<open>
  The clock: the date and time that \<open>localtime_r\<close> and \<open>strftime\<close> render with
  \<open>%Y-%m-%d %H:%M:%S\<close>, and the nanoseconds of the current second.
\<close>

record wall_clock =
  clock_date :: string
  clock_nsec :: int

definition fillTimestamp :: "nat \<Rightarrow> wall_clock \<Rightarrow> string" where
  "fillTimestamp bufsize t =
     snprintf_stored bufsize
       (clock_date t @ ''.'' @ zero_pad 3 (int_to_dec (int32_of (clock_nsec t div 1000000))))"

definition log_prefix :: "LogLevel \<Rightarrow> wall_clock \<Rightarrow> string \<Rightarrow> int \<Rightarrow> string" where
  "log_prefix level t file line =
     ''['' @ levelToString level @ ''] ['' @ fillTimestamp 32 t @ ''] ['' @
     extractFilename file @ '':'' @ int_to_dec line @ ''] ''"

section \<open>The message buffer\<close>

definition BUF_SIZE :: nat where "BUF_SIZE = 512"

record log_message =
  lm_should_log :: bool
  lm_buf :: string
  lm_pos :: nat
  lm_level :: LogLevel

definition buf_put :: "string \<Rightarrow> nat \<Rightarrow> string \<Rightarrow> string" where
  "buf_put b off cs = take off b @ cs @ drop (off + length cs) b"

text \<open>
  \<open>snprintf(b + off, bsize, ...)\<close> of a text into the buffer: the bytes stored, with the terminator,
  and the result, which is negative when the length of the text does not fit an \<open>int\<close>.
\<close>

definition snprintf_buf :: "string \<Rightarrow> nat \<Rightarrow> nat \<Rightarrow> string \<Rightarrow> int \<times> string" where
  "snprintf_buf b off bsize text =
     (if int (length text) \<le> INT_MAX then int (length text) else -1,
      if bsize = 0 then b else buf_put b off (snprintf_stored bsize text @ [CHR 0x00]))"

text \<open>The constructor; \<open>garbage\<close> is the indeterminate content of the new object's buffer.\<close>

definition LogMessage_new ::
  "logger \<Rightarrow> wall_clock \<Rightarrow> string \<Rightarrow> LogLevel \<Rightarrow> string \<Rightarrow> int \<Rightarrow> log_message" where
  "LogMessage_new g t garbage level file line =
     (if level \<le> g_log_level g then
        (case snprintf_buf garbage 0 (BUF_SIZE - 1) (log_prefix level t file line) of (n, b) \<Rightarrow>
           \<lparr>lm_should_log = True, lm_buf = b,
            lm_pos = (if n > 0 then if nat n < BUF_SIZE - 1 then nat n else BUF_SIZE - 2 else 0),
            lm_level = level\<rparr>)
      else \<lparr>lm_should_log = False, lm_buf = garbage, lm_pos = 0, lm_level = level\<rparr>)"

text \<open>
  The common body of \<open>append_s\<close> and \<open>appendFmt\<close>: format at the position, advance, clamp. The sum
  of the position and an \<open>int\<close> does not wrap in \<open>size_t\<close>.
\<close>

definition append_text :: "string \<Rightarrow> log_message \<Rightarrow> log_message" where
  "append_text text m =
     (case snprintf_buf (lm_buf m) (lm_pos m) (BUF_SIZE - 1 - lm_pos m) text of (n, b) \<Rightarrow>
        let p = (if n > 0 then
                   let p1 = lm_pos m + nat n in if p1 \<ge> BUF_SIZE - 1 then BUF_SIZE - 2 else p1
                 else lm_pos m)
        in m\<lparr>lm_buf := b, lm_pos := p\<rparr>)"

definition append_s :: "string \<Rightarrow> log_message \<Rightarrow> log_message" where
  "append_s s m = (if lm_pos m \<ge> BUF_SIZE - 1 then m else append_text s m)"

definition appendFmt :: "string \<Rightarrow> log_message \<Rightarrow> log_message" where
  "appendFmt text m = (if lm_should_log m \<and> lm_pos m < BUF_SIZE - 1 then append_text text m else m)"

text \<open>
  The operands of \<open>operator<<\<close>. A \<open>const char*\<close> may be null; a \<open>double\<close> is given by its rendering
  with \<open>%.2f\<close>.
\<close>

datatype log_operand =
    LString "string option"
  | LChar char
  | LBool bool
  | LInt "32 word"
  | LUnsigned "32 word"
  | LLong "64 word"
  | LULong "64 word"
  | LLongLong "64 word"
  | LULongLong "64 word"
  | LDouble string

definition insert_string :: "log_message \<Rightarrow> string option \<Rightarrow> log_message" where
  "insert_string m s = (case s of Some cs \<Rightarrow> if lm_should_log m then append_s cs m else m | None \<Rightarrow> m)"

fun log_insert :: "log_message \<Rightarrow> log_operand \<Rightarrow> log_message" where
  "log_insert m (LString s) = insert_string m s"
| "log_insert m (LChar c) =
     (if lm_should_log m \<and> lm_pos m < BUF_SIZE - 2
      then m\<lparr>lm_buf := (lm_buf m)[lm_pos m := c], lm_pos := lm_pos m + 1\<rparr> else m)"
| "log_insert m (LBool v) = insert_string m (Some (if v then ''true'' else ''false''))"
| "log_insert m (LInt v) = appendFmt (int_to_dec (sint v)) m"
| "log_insert m (LUnsigned v) = appendFmt (nat_to_dec (unat v)) m"
| "log_insert m (LLong v) = appendFmt (int_to_dec (sint v)) m"
| "log_insert m (LULong v) = appendFmt (nat_to_dec (unat v)) m"
| "log_insert m (LLongLong v) = appendFmt (int_to_dec (sint v)) m"
| "log_insert m (LULongLong v) = appendFmt (nat_to_dec (unat v)) m"
| "log_insert m (LDouble text) = appendFmt text m"

text \<open>The destructor: terminates the line and hands it to the log file and to the terminal.\<close>

definition LogMessage_delete :: "(string \<Rightarrow> int) \<Rightarrow> log_message \<Rightarrow> logger \<Rightarrow> logger" where
  "LogMessage_delete open_file m g =
     (if lm_should_log m then
        let (b1, p) = (if lm_pos m < BUF_SIZE - 1 then ((lm_buf m)[lm_pos m := CHR 0x0A], lm_pos m + 1)
                       else (lm_buf m, lm_pos m));
            b2 = b1[p := CHR 0x00];
            g1 = ensureLogOpen open_file g;
            g2 = g1\<lparr>log_writes := log_writes g1 @ [(g_log_fd g1, take p b2)]\<rparr>
        in if g_log_fd g2 \<noteq> STDERR_FILENO
           then g2\<lparr>log_writes := log_writes g2 @ [(STDERR_FILENO, take p b2)]\<rparr> else g2
      else g)"

text \<open>The errno variant appends the description of the error before the base destructor runs.\<close>

definition errno_operands :: "(int \<Rightarrow> string) \<Rightarrow> 32 word \<Rightarrow> log_operand list" where
  "errno_operands strerror err =
     (if err \<noteq> 0 then
        [LString (Some '': ''), LString (Some (strerror (sint err))), LString (Some '' (errno=''),
         LInt err, LString (Some '')'')]
      else [])"

definition LogErrnoMessage_delete ::
  "(string \<Rightarrow> int) \<Rightarrow> (int \<Rightarrow> string) \<Rightarrow> 32 word \<Rightarrow> log_message \<Rightarrow> logger \<Rightarrow> logger" where
  "LogErrnoMessage_delete open_file strerror err m g =
     LogMessage_delete open_file (foldl log_insert m (errno_operands strerror err)) g"

text \<open>A whole statement \<open>LOG_X << a << b ...\<close>: construct, insert the operands, destroy.\<close>

definition log_statement ::
  "(string \<Rightarrow> int) \<Rightarrow> wall_clock \<Rightarrow> string \<Rightarrow> LogLevel \<Rightarrow> string \<Rightarrow> int \<Rightarrow> log_operand list \<Rightarrow> logger \<Rightarrow> logger" where
  "log_statement open_file t garbage level file line operands g =
     LogMessage_delete open_file
       (foldl log_insert (LogMessage_new g t garbage level file line) operands) g"

definition log_errno_statement ::
  "(string \<Rightarrow> int) \<Rightarrow> (int \<Rightarrow> string) \<Rightarrow> wall_clock \<Rightarrow> string \<Rightarrow> string \<Rightarrow> int \<Rightarrow> 32 word \<Rightarrow>
   log_operand list \<Rightarrow> logger \<Rightarrow> logger" where
  "log_errno_statement open_file strerror t garbage file line err operands g =
     LogErrnoMessage_delete open_file strerror err
       (foldl log_insert (LogMessage_new g t garbage LogError file line) operands) g"

section \<open>The buffer invariant\<close>

text \<open>The buffer keeps its 512 bytes and leaves room for the newline and the terminator.\<close>

definition lm_inv :: "log_message \<Rightarrow> bool" where
  "lm_inv m \<longleftrightarrow> length (lm_buf m) = BUF_SIZE \<and> lm_pos m \<le> BUF_SIZE - 2"

text \<open>What the message says so far.\<close>

definition lm_text :: "log_message \<Rightarrow> string" where
  "lm_text m = take (lm_pos m) (lm_buf m)"

text \<open>The text an operand stands for.\<close>

fun operand_text :: "log_operand \<Rightarrow> string" where
  "operand_text (LString s) = (case s of Some cs \<Rightarrow> cs | None \<Rightarrow> [])"
| "operand_text (LChar c) = [c]"
| "operand_text (LBool v) = (if v then ''true'' else ''false'')"
| "operand_text (LInt v) = int_to_dec (sint v)"
| "operand_text (LUnsigned v) = nat_to_dec (unat v)"
| "operand_text (LLong v) = int_to_dec (sint v)"
| "operand_text (LULong v) = nat_to_dec (unat v)"
| "operand_text (LLongLong v) = int_to_dec (sint v)"
| "operand_text (LULongLong v) = nat_to_dec (unat v)"
| "operand_text (LDouble text) = text"

text \<open>No single operand is longer than the largest \<open>int\<close>.\<close>

definition operand_fits :: "log_operand \<Rightarrow> bool" where
  "operand_fits x \<longleftrightarrow> int (length (operand_text x)) \<le> INT_MAX"

lemma length_buf_put [simp]: "off + length cs \<le> length b \<Longrightarrow> length (buf_put b off cs) = length b"
  by (simp add: buf_put_def)

lemma take_buf_put:
  "off + length (cs @ ds) \<le> length b \<Longrightarrow>
   take (off + length cs) (buf_put b off (cs @ ds)) = take off b @ cs"
  by (simp add: buf_put_def min_absorb2)

lemma take_take_append: "take n (take n u @ v) = take n (u @ v)"
  by (cases "length u \<le> n") simp_all

lemma append_text_inv:
  assumes "lm_inv m"
  shows "lm_inv (append_text s m)"
proof -
  have "length (snprintf_stored (BUF_SIZE - 1 - lm_pos m) s) \<le> BUF_SIZE - 2 - lm_pos m"
    by (simp add: snprintf_stored_def)
  then have "lm_pos m + length (snprintf_stored (BUF_SIZE - 1 - lm_pos m) s @ [CHR 0x00]) \<le> length (lm_buf m)"
    using assms by (auto simp: lm_inv_def BUF_SIZE_def)
  then show ?thesis
    using assms by (auto simp: append_text_def snprintf_buf_def lm_inv_def Let_def BUF_SIZE_def)
qed

lemma append_text_text:
  assumes "lm_inv m" and "int (length s) \<le> INT_MAX"
  shows "lm_text (append_text s m) = take (BUF_SIZE - 2) (lm_text m @ s)"
proof -
  let ?p = "lm_pos m" and ?cs = "take (BUF_SIZE - 2 - lm_pos m) s"
  have p: "?p \<le> BUF_SIZE - 2" "length (lm_buf m) = BUF_SIZE" using assms(1) by (simp_all add: lm_inv_def)
  have fits: "?p + length (?cs @ [CHR 0x00]) \<le> length (lm_buf m)"
    using p by (auto simp: BUF_SIZE_def min_def)
  have pos: "lm_pos (append_text s m) = ?p + length ?cs"
    and buf: "lm_buf (append_text s m) = buf_put (lm_buf m) ?p (?cs @ [CHR 0x00])"
    using assms(2) p by (auto simp: append_text_def snprintf_buf_def snprintf_stored_def Let_def BUF_SIZE_def)
  have "lm_text (append_text s m) = take ?p (lm_buf m) @ ?cs"
    unfolding lm_text_def pos buf by (rule take_buf_put [OF fits])
  also have "\<dots> = take (BUF_SIZE - 2) (lm_text m @ s)"
    using p by (simp add: lm_text_def min_def BUF_SIZE_def)
  finally show ?thesis .
qed

lemma append_text_flag [simp]: "lm_should_log (append_text s m) = lm_should_log m"
  by (simp add: append_text_def Let_def split: prod.splits)

lemma append_char:
  assumes "lm_inv m" and "lm_pos m < BUF_SIZE - 2"
  shows "take (Suc (lm_pos m)) ((lm_buf m)[lm_pos m := c]) = lm_text m @ [c]"
  using assms by (simp add: lm_inv_def lm_text_def take_Suc_conv_app_nth BUF_SIZE_def)

lemma log_insert_flag [simp]: "lm_should_log (log_insert m x) = lm_should_log m"
  by (cases x) (auto simp: insert_string_def append_s_def appendFmt_def split: option.splits)

lemma log_insert_inv: "lm_inv m \<Longrightarrow> lm_inv (log_insert m x)"
proof (cases x)
  case (LChar c)
  assume "lm_inv m"
  with LChar show ?thesis by (auto simp: lm_inv_def)
qed (auto simp: insert_string_def append_s_def appendFmt_def append_text_inv split: option.splits)

lemma log_insert_quiet: "\<not> lm_should_log m \<Longrightarrow> log_insert m x = m"
  by (cases x) (auto simp: insert_string_def appendFmt_def split: option.splits)

text \<open>An insertion appends the text of its operand, as far as there is room.\<close>

lemma lm_text_bound: "lm_inv m \<Longrightarrow> length (lm_text m) = lm_pos m \<and> length (lm_text m) \<le> BUF_SIZE - 2"
  by (auto simp: lm_inv_def lm_text_def BUF_SIZE_def)

lemma log_insert_text:
  assumes "lm_inv m" and "lm_should_log m" and "operand_fits x"
  shows "lm_text (log_insert m x) = take (BUF_SIZE - 2) (lm_text m @ operand_text x)"
proof -
  have s: "lm_text (append_s s m) = take (BUF_SIZE - 2) (lm_text m @ s)"
    if "int (length s) \<le> INT_MAX" for s
    using append_text_text [OF assms(1) that] assms(1) by (auto simp: append_s_def lm_inv_def BUF_SIZE_def)
  have f: "lm_text (appendFmt s m) = take (BUF_SIZE - 2) (lm_text m @ s)"
    if "int (length s) \<le> INT_MAX" for s
    using append_text_text [OF assms(1) that] assms by (auto simp: appendFmt_def lm_inv_def BUF_SIZE_def)
  show ?thesis
  proof (cases x)
    case (LChar c)
    show ?thesis
    proof (cases "lm_pos m < BUF_SIZE - 2")
      case True
      then have "lm_text (log_insert m x) = lm_text m @ [c]"
        using LChar assms(2) append_char [OF assms(1) True, of c] by (simp add: lm_text_def)
      then show ?thesis using LChar True lm_text_bound [OF assms(1)] by simp
    next
      case False
      then show ?thesis using LChar lm_text_bound [OF assms(1)] by (simp add: lm_inv_def)
    qed
  qed (use assms(2,3) s f lm_text_bound [OF assms(1)] in
        \<open>auto simp: operand_fits_def insert_string_def split: option.splits\<close>)
qed

lemma log_inserts:
  assumes "lm_inv m" and "lm_should_log m" and "list_all operand_fits xs"
  shows "lm_inv (foldl log_insert m xs)"
    and "lm_should_log (foldl log_insert m xs)"
    and "lm_text (foldl log_insert m xs) = take (BUF_SIZE - 2) (lm_text m @ concat (map operand_text xs))"
  using assms
proof (induction xs arbitrary: m)
  case Nil
  {
    case 1 then show ?case by simp
  next
    case 2 then show ?case by simp
  next
    case 3 then show ?case using lm_text_bound [of m] by simp
  }
next
  case (Cons x xs)
  {
    case 1 then show ?case using Cons.IH(1) by (simp add: log_insert_inv)
  next
    case 2 then show ?case using Cons.IH(2) by (simp add: log_insert_inv)
  next
    case 3
    then have "lm_text (foldl log_insert m (x # xs))
        = take (BUF_SIZE - 2) (lm_text (log_insert m x) @ concat (map operand_text xs))"
      using Cons.IH(3) by (simp add: log_insert_inv)
    then show ?case using 3 by (simp add: log_insert_text take_take_append del: take_append)
  }
qed

lemma log_inserts_quiet: "\<not> lm_should_log m \<Longrightarrow> foldl log_insert m xs = m"
  by (induction xs) (simp_all add: log_insert_quiet)

lemma LogMessage_new_inv:
  assumes "length garbage = BUF_SIZE"
  shows "lm_inv (LogMessage_new g t garbage level file line)"
proof -
  let ?m = "\<lparr>lm_should_log = True, lm_buf = garbage, lm_pos = 0, lm_level = level\<rparr>"
  have "lm_inv ?m" using assms by (simp add: lm_inv_def)
  from append_text_inv [OF this, of "log_prefix level t file line"] show ?thesis
    using assms by (auto simp: LogMessage_new_def append_text_def lm_inv_def Let_def split: prod.splits)
qed

lemma LogMessage_new_text:
  assumes "length garbage = BUF_SIZE" and "level \<le> g_log_level g"
    and "int (length (log_prefix level t file line)) \<le> INT_MAX"
  shows "lm_should_log (LogMessage_new g t garbage level file line)"
    and "lm_text (LogMessage_new g t garbage level file line)
      = take (BUF_SIZE - 2) (log_prefix level t file line)"
proof -
  let ?m = "\<lparr>lm_should_log = True, lm_buf = garbage, lm_pos = 0, lm_level = level\<rparr>"
  have "LogMessage_new g t garbage level file line = append_text (log_prefix level t file line) ?m"
    using assms(2) by (auto simp: LogMessage_new_def append_text_def Let_def split: prod.splits)
  moreover have "lm_inv ?m" using assms(1) by (simp add: lm_inv_def)
  ultimately show "lm_should_log (LogMessage_new g t garbage level file line)"
    and "lm_text (LogMessage_new g t garbage level file line)
      = take (BUF_SIZE - 2) (log_prefix level t file line)"
    using append_text_text [of ?m] assms(3) by (simp_all add: lm_text_def)
qed

section \<open>The emitted line\<close>

lemma ensureLogOpen_once [simp]:
  "ensureLogOpen o2 (ensureLogOpen o1 g) = ensureLogOpen o1 g"
  "g_log_level (ensureLogOpen o1 g) = g_log_level g"
  "log_writes (ensureLogOpen o1 g) = log_writes g"
  by (simp_all add: ensureLogOpen_def openLogFile_def Let_def)

text \<open>What one message adds to the calls of \<open>write\<close>.\<close>

definition emitted :: "logger \<Rightarrow> string \<Rightarrow> (int \<times> string) list" where
  "emitted g line =
     (g_log_fd g, line) # (if g_log_fd g = STDERR_FILENO then [] else [(STDERR_FILENO, line)])"

lemma LogMessage_delete_quiet: "\<not> lm_should_log m \<Longrightarrow> LogMessage_delete open_file m g = g"
  by (simp add: LogMessage_delete_def)

lemma LogMessage_delete_line:
  assumes "lm_inv m" and "lm_should_log m"
  shows "LogMessage_delete open_file m g =
    (let g' = ensureLogOpen open_file g
     in g'\<lparr>log_writes := log_writes g @ emitted g' (lm_text m @ [CHR 0x0A])\<rparr>)"
proof -
  let ?p = "lm_pos m"
  have p: "?p < BUF_SIZE - 1" "Suc ?p < length (lm_buf m)" using assms(1) by (auto simp: lm_inv_def BUF_SIZE_def)
  have "take (Suc ?p) ((lm_buf m)[?p := CHR 0x0A, Suc ?p := CHR 0x00]) = lm_text m @ [CHR 0x0A]"
    using p(2) by (simp add: lm_text_def take_Suc_conv_app_nth)
  then show ?thesis
    using p(1) assms(2) by (simp add: LogMessage_delete_def Let_def emitted_def)
qed

text \<open>C39. No sequence of insertions makes a log message leave its buffer: the buffer keeps its 512
  bytes, the position never passes 510, so the newline and the terminator always fit, whatever the
  operands, the file name and the previous content of the buffer are.\<close>

theorem log_buffer_safe:
  assumes "length garbage = BUF_SIZE"
  shows "length (lm_buf (foldl log_insert (LogMessage_new g t garbage level file line) operands)) = 512
    \<and> lm_pos (foldl log_insert (LogMessage_new g t garbage level file line) operands) \<le> 510"
proof -
  have "lm_inv m \<Longrightarrow> lm_inv (foldl log_insert m operands)" for m
    by (induction operands arbitrary: m) (simp_all add: log_insert_inv)
  then show ?thesis
    using LogMessage_new_inv [OF assms] by (simp add: lm_inv_def BUF_SIZE_def)
qed

text \<open>C38. A log statement above the threshold writes exactly one line: the first 510 characters of the
  prefix followed by all operands, and a newline. The line goes to the log file, which is opened
  once, and to the terminal; when the file cannot be opened it goes to the terminal only, once.
  A statement below the threshold writes nothing and opens nothing.\<close>

theorem log_statement_line:
  assumes "length garbage = BUF_SIZE"
    and "int (length (log_prefix level t file line)) \<le> INT_MAX"
    and "list_all operand_fits operands"
  shows "log_statement open_file t garbage level file line operands g =
    (if level \<le> g_log_level g then
       let g' = ensureLogOpen open_file g;
           text = take 510 (log_prefix level t file line @ concat (map operand_text operands))
       in g'\<lparr>log_writes := log_writes g @ emitted g' (text @ [CHR 0x0A])\<rparr>
     else g)"
proof (cases "level \<le> g_log_level g")
  case True
  note new = LogMessage_new_inv [OF assms(1)] LogMessage_new_text [OF assms(1) True assms(2)]
  have "lm_text (foldl log_insert (LogMessage_new g t garbage level file line) operands)
      = take 510 (log_prefix level t file line @ concat (map operand_text operands))"
    using log_inserts(3) [OF new(1,2) assms(3)] new(3)
    by (simp add: BUF_SIZE_def take_take_append del: take_append)
  then show ?thesis
    using True log_inserts(1,2) [OF new(1,2) assms(3)]
    by (simp add: log_statement_def LogMessage_delete_line Let_def)
next
  case False
  then show ?thesis
    by (simp add: log_statement_def LogMessage_new_def log_inserts_quiet LogMessage_delete_quiet)
qed

lemma log_errno_statement_operands:
  "log_errno_statement open_file strerror t garbage file line err operands g =
   log_statement open_file t garbage LogError file line (operands @ errno_operands strerror err) g"
  by (simp add: log_errno_statement_def log_statement_def LogErrnoMessage_delete_def)

section \<open>Witnesses\<close>

definition demo_clock :: wall_clock where
  "demo_clock = \<lparr>clock_date = ''2026-01-31 08:15:00'', clock_nsec = 42000000\<rparr>"

definition demo_line :: string where
  "demo_line = ''[WARN ] [2026-01-31 08:15:00.042] [main.cpp:239] dropped 17''"

lemma demo_prefix:
  "log_prefix LogWarn demo_clock ''src/main.cpp'' 239 = ''[WARN ] [2026-01-31 08:15:00.042] [main.cpp:239] ''"
  by code_simp

lemma demo_operands:
  "concat (map operand_text [LString (Some ''dropped ''), LInt 17]) = ''dropped 17''"
  by code_simp

theorem log_buffer_safe_witness:
  "length (replicate BUF_SIZE (CHR ''?'')) = BUF_SIZE \<and>
   lm_pos (foldl log_insert (LogMessage_new initial_logger demo_clock (replicate BUF_SIZE (CHR ''?''))
     LogWarn ''src/main.cpp'' 239) [LChar (CHR ''x''), LBool True]) \<le> 510"
  using log_buffer_safe [of "replicate BUF_SIZE (CHR ''?'')" initial_logger demo_clock LogWarn
      "''src/main.cpp''" 239 "[LChar (CHR ''x''), LBool True]"]
  by (simp del: foldl_Cons log_insert.simps)

theorem log_statement_line_witness:
  "log_writes (log_statement (\<lambda>_. 3) demo_clock (replicate BUF_SIZE (CHR ''?'')) LogWarn ''src/main.cpp'' 239
     [LString (Some ''dropped ''), LInt 17] initial_logger)
   = [(3, demo_line @ [CHR 0x0A]), (2, demo_line @ [CHR 0x0A])]"
proof -
  have fits: "list_all operand_fits [LString (Some ''dropped ''), LInt 17]"
    by (simp add: operand_fits_def INT_MAX_def int_to_dec_def nat_to_dec.simps)
  have prefix: "int (length (log_prefix LogWarn demo_clock ''src/main.cpp'' 239)) \<le> INT_MAX"
    by (simp add: demo_prefix INT_MAX_def)
  show ?thesis
    by (subst log_statement_line [OF _ prefix fits])
      (simp_all add: demo_prefix demo_operands initial_logger_def less_eq_LogLevel_def Let_def
        ensureLogOpen_def openLogFile_def emitted_def demo_line_def del: concat.simps list.map)
qed

end
