(* ===== verification/Protocol.thy ===== *)
theory Protocol
  imports Streamer_Prelude
begin

unbundle bit_operations_syntax

text \<open>
  The wire protocol of \<open>include/protocol.hpp\<close>: the packed \<open>FrameHeader\<close>, the byte order
  helpers, \<open>initFrameHeader\<close> and the pixel format names. A header is a record of the packed
  struct's fields; \<open>header_bytes\<close> is its memory image on a host of a given byte order, which
  is what \<open>sslWriteAll(&hdr, sizeof(hdr))\<close> sends. The byte order of the host, a compile-time
  condition of the source, is an argument of the definitions.
\<close>

section \<open>Constants and types\<close>

definition PROTO_MAGIC :: "byte list" where
  "PROTO_MAGIC = [0x46, 0x52, 0x41, 0x4D]"

definition PROTO_MAGIC_LEN :: nat where
  "PROTO_MAGIC_LEN = 4"

definition PROTO_VERSION :: u16 where
  "PROTO_VERSION = 1"

datatype PixelFormat = JPEG | BGR24 | RGB24 | YUYV | NV12 | GRAY

fun pixel_format_code :: "PixelFormat \<Rightarrow> u32" where
  "pixel_format_code JPEG = 0x47504A4D"
| "pixel_format_code BGR24 = 0x33524742"
| "pixel_format_code RGB24 = 0x33424752"
| "pixel_format_code YUYV = 0x56595559"
| "pixel_format_code NV12 = 0x3231564E"
| "pixel_format_code GRAY = 0x59415247"

record FrameHeader =
  fh_magic :: "byte list"
  fh_version :: u16
  fh_header_len :: u16
  fh_seq :: u64
  fh_timestamp_ns :: u64
  fh_payload_len :: u32
  fh_pixel_format :: u32
  fh_width :: u16
  fh_height :: u16

text \<open>\<open>sizeof(FrameHeader)\<close> of the packed struct: the sum of its members' sizes.\<close>

definition FRAME_HEADER_SIZE :: nat where
  "FRAME_HEADER_SIZE = PROTO_MAGIC_LEN + 2 + 2 + 8 + 8 + 4 + 4 + 2 + 2"

text \<open>Memory image of the packed struct, and the struct that a memory image holds.\<close>

definition header_bytes :: "byte_order \<Rightarrow> FrameHeader \<Rightarrow> byte list" where
  "header_bytes bo hdr =
     fh_magic hdr
     @ mem_bytes bo 2 (fh_version hdr)
     @ mem_bytes bo 2 (fh_header_len hdr)
     @ mem_bytes bo 8 (fh_seq hdr)
     @ mem_bytes bo 8 (fh_timestamp_ns hdr)
     @ mem_bytes bo 4 (fh_payload_len hdr)
     @ mem_bytes bo 4 (fh_pixel_format hdr)
     @ mem_bytes bo 2 (fh_width hdr)
     @ mem_bytes bo 2 (fh_height hdr)"

definition header_of_bytes :: "byte_order \<Rightarrow> byte list \<Rightarrow> FrameHeader" where
  "header_of_bytes bo bs =
     \<lparr> fh_magic = mem_read bs 0 PROTO_MAGIC_LEN,
       fh_version = mem_word bo (mem_read bs 4 2),
       fh_header_len = mem_word bo (mem_read bs 6 2),
       fh_seq = mem_word bo (mem_read bs 8 8),
       fh_timestamp_ns = mem_word bo (mem_read bs 16 8),
       fh_payload_len = mem_word bo (mem_read bs 24 4),
       fh_pixel_format = mem_word bo (mem_read bs 28 4),
       fh_width = mem_word bo (mem_read bs 32 2),
       fh_height = mem_word bo (mem_read bs 34 2) \<rparr>"

section \<open>Byte order\<close>

text \<open>
  \<open>htons\<close>, \<open>htonl\<close> and their inverses of the C library: the value whose memory image on
  this host is the big-endian image of the argument.
\<close>

definition bswap :: "nat \<Rightarrow> 'a::len word \<Rightarrow> 'a word" where
  "bswap n w = le_to_word (rev (word_to_le n w))"

definition htons :: "byte_order \<Rightarrow> u16 \<Rightarrow> u16" where
  "htons bo x = (case bo of LittleEndian \<Rightarrow> bswap 2 x | BigEndian \<Rightarrow> x)"

definition ntohs :: "byte_order \<Rightarrow> u16 \<Rightarrow> u16" where
  "ntohs bo x = htons bo x"

definition htonl :: "byte_order \<Rightarrow> u32 \<Rightarrow> u32" where
  "htonl bo x = (case bo of LittleEndian \<Rightarrow> bswap 4 x | BigEndian \<Rightarrow> x)"

definition ntohl :: "byte_order \<Rightarrow> u32 \<Rightarrow> u32" where
  "ntohl bo x = htonl bo x"

definition htonll :: "byte_order \<Rightarrow> u64 \<Rightarrow> u64" where
  "htonll bo val = (case bo of
     LittleEndian \<Rightarrow> push_bit 32 (ucast (htonl bo (ucast (val AND 0xFFFFFFFF))))
                     OR ucast (htonl bo (ucast (drop_bit 32 val)))
   | BigEndian \<Rightarrow> val)"

definition ntohll :: "byte_order \<Rightarrow> u64 \<Rightarrow> u64" where
  "ntohll bo val = htonll bo val"

section \<open>Operations\<close>

definition initFrameHeader ::
  "byte_order \<Rightarrow> u64 \<Rightarrow> u64 \<Rightarrow> u32 \<Rightarrow> u32 \<Rightarrow> u16 \<Rightarrow> u16 \<Rightarrow> FrameHeader" where
  "initFrameHeader bo seq timestamp_ns payload_len pixel_format width height =
     \<lparr> fh_magic = PROTO_MAGIC,
       fh_version = htons bo PROTO_VERSION,
       fh_header_len = htons bo (of_nat FRAME_HEADER_SIZE),
       fh_seq = htonll bo seq,
       fh_timestamp_ns = htonll bo timestamp_ns,
       fh_payload_len = htonl bo payload_len,
       fh_pixel_format = htonl bo pixel_format,
       fh_width = htons bo width,
       fh_height = htons bo height \<rparr>"

text \<open>The five bytes \<open>pixelFormatToString\<close> writes: four characters and the terminator.\<close>

definition pixelFormatToString :: "u32 \<Rightarrow> byte list" where
  "pixelFormatToString format =
     [ ucast (drop_bit 0 format AND 0xFF),
       ucast (drop_bit 8 format AND 0xFF),
       ucast (drop_bit 16 format AND 0xFF),
       ucast (drop_bit 24 format AND 0xFF),
       0 ]"

text \<open>
  The documented wire format, written down independently of any host: magic, then every
  field in network byte order, most significant byte first.
\<close>

definition be_bytes :: "nat \<Rightarrow> 'a::len word \<Rightarrow> byte list" where
  "be_bytes n w = rev (word_to_le n w)"

definition wire_header :: "u64 \<Rightarrow> u64 \<Rightarrow> u32 \<Rightarrow> u32 \<Rightarrow> u16 \<Rightarrow> u16 \<Rightarrow> byte list" where
  "wire_header seq ts plen pf w h =
     [0x46, 0x52, 0x41, 0x4D] @ be_bytes 2 (1 :: u16) @ be_bytes 2 (36 :: u16)
     @ be_bytes 8 seq @ be_bytes 8 ts @ be_bytes 4 plen @ be_bytes 4 pf @ be_bytes 2 w @ be_bytes 2 h"

section \<open>Byte order lemmas\<close>

lemma length_be_bytes [simp]: "length (be_bytes n w) = n"
  by (simp add: be_bytes_def)

lemma word_to_le_bswap:
  "LENGTH('a) = 8 * n \<Longrightarrow> word_to_le n (bswap n (w :: 'a::len word)) = rev (word_to_le n w)"
  using word_to_le_inverse [where 'a = 'a, of "rev (word_to_le n w)"] by (simp add: bswap_def)

lemma bswap_bswap:
  "LENGTH('a) = 8 * n \<Longrightarrow> bswap n (bswap n (w :: 'a::len word)) = w"
  by (rule word_to_le_inj [of n]) (simp_all add: word_to_le_bswap)

lemma word_to_le_4_parts:
  "word_to_le 8 (val :: u64)
     = word_to_le 4 (ucast (val AND 0xFFFFFFFF) :: u32) @ word_to_le 4 (ucast (drop_bit 32 val) :: u32)"
proof -
  have m: "(0xFFFFFFFF :: u64) = mask 32" by (simp add: mask_eq_exp_minus_1)
  have "val = push_bit 32 (ucast (ucast (drop_bit 32 val) :: u32)) OR ucast (ucast (val AND 0xFFFFFFFF) :: u32)"
    unfolding m by (rule bit_word_eqI) (auto simp: bit_simps)
  then show ?thesis
    using word_to_le_halves [where 'h = 32 and 'a = 64 and n = 4,
      of "ucast (drop_bit 32 val)" "ucast (val AND 0xFFFFFFFF)"] by simp
qed

lemma htonll_little: "htonll LittleEndian val = bswap 8 val"
proof (rule word_to_le_inj [of 8])
  show "word_to_le 8 (htonll LittleEndian val) = word_to_le 8 (bswap 8 val)"
    using word_to_le_halves [where 'h = 32 and 'a = 64 and n = 4,
        of "bswap 4 (ucast (val AND 0xFFFFFFFF))" "bswap 4 (ucast (drop_bit 32 val))"]
    by (simp add: htonll_def htonl_def word_to_le_bswap word_to_le_4_parts [of val])
qed simp

text \<open>Whatever the host, storing a converted field puts its big-endian bytes in memory.\<close>

lemma mem_bytes_hton [byte_simps]:
  "mem_bytes bo 2 (htons bo x) = be_bytes 2 x"
  "mem_bytes bo 4 (htonl bo y) = be_bytes 4 y"
  "mem_bytes bo 8 (htonll bo z) = be_bytes 8 z"
  by (cases bo; simp add: mem_bytes_def htons_def htonl_def htonll_little be_bytes_def word_to_le_bswap;
      simp add: htonll_def)+

lemma ntoh_hton [byte_simps]:
  "ntohs bo (htons bo x) = x" "ntohl bo (htonl bo y) = y" "ntohll bo (htonll bo z) = z"
  by (cases bo; simp add: ntohs_def htons_def ntohl_def htonl_def ntohll_def htonll_little bswap_bswap;
      simp add: htonll_def)+

lemma ntoh_mem_word [byte_simps]:
  "ntohs bo (mem_word bo (be_bytes 2 x)) = x"
  "ntohl bo (mem_word bo (be_bytes 4 y)) = y"
  "ntohll bo (mem_word bo (be_bytes 8 z)) = z"
  using mem_word_bytes [of 2 bo "htons bo x"] mem_word_bytes [of 4 bo "htonl bo y"]
    mem_word_bytes [of 8 bo "htonll bo z"]
  by (simp_all add: mem_bytes_hton ntoh_hton)

section \<open>Layout lemmas\<close>

lemma FRAME_HEADER_SIZE_eq [simp]: "FRAME_HEADER_SIZE = 36"
  by (simp add: FRAME_HEADER_SIZE_def PROTO_MAGIC_LEN_def)

lemma length_PROTO_MAGIC [simp]: "length PROTO_MAGIC = 4"
  by (simp add: PROTO_MAGIC_def)

lemma length_header_bytes:
  "length (fh_magic hdr) = PROTO_MAGIC_LEN \<Longrightarrow> length (header_bytes bo hdr) = FRAME_HEADER_SIZE"
  by (simp add: header_bytes_def PROTO_MAGIC_LEN_def)

lemma header_of_header_bytes:
  "length (fh_magic hdr) = PROTO_MAGIC_LEN \<Longrightarrow> header_of_bytes bo (header_bytes bo hdr @ rest) = hdr"
  by (cases hdr)
    (simp add: header_bytes_def header_of_bytes_def mem_read_def PROTO_MAGIC_LEN_def mem_word_bytes)

lemma header_bytes_init:
  "header_bytes bo (initFrameHeader bo seq ts plen pf w h) = wire_header seq ts plen pf w h"
  by (simp add: header_bytes_def initFrameHeader_def wire_header_def mem_bytes_hton
      PROTO_MAGIC_def PROTO_VERSION_def)

lemma length_wire_header [simp]: "length (wire_header seq ts plen pf w h) = 36"
  by (simp add: wire_header_def)

text \<open>What a receiver of any byte order reads out of a header on the wire.\<close>

lemma header_of_wire:
  fixes bo seq ts plen pf w h
  defines "hdr \<equiv> header_of_bytes bo (wire_header seq ts plen pf w h)"
  shows "fh_magic hdr = PROTO_MAGIC"
    and "ntohs bo (fh_version hdr) = PROTO_VERSION"
    and "ntohs bo (fh_header_len hdr) = 36"
    and "ntohll bo (fh_seq hdr) = seq"
    and "ntohll bo (fh_timestamp_ns hdr) = ts"
    and "ntohl bo (fh_payload_len hdr) = plen"
    and "ntohl bo (fh_pixel_format hdr) = pf"
    and "ntohs bo (fh_width hdr) = w"
    and "ntohs bo (fh_height hdr) = h"
  by (simp_all add: hdr_def header_of_bytes_def wire_header_def mem_read_def PROTO_MAGIC_LEN_def
      PROTO_MAGIC_def PROTO_VERSION_def ntoh_mem_word)

section \<open>Properties\<close>

text \<open>
  C14. On a host of either byte order, the memory image of the header that
  \<open>initFrameHeader\<close> fills in, which is what the client sends, is the wire format of the packed
  struct in \<open>protocol.hpp\<close>: 36 bytes, the magic, then each field in network byte order in the sequence
  of the struct, with 36 as the announced length. (\<open>README.md\<close> documents a header of 40 bytes.)
\<close>

theorem frame_header_wire_format:
  "header_bytes bo (initFrameHeader bo seq ts plen pf w h) =
     [0x46, 0x52, 0x41, 0x4D] @ be_bytes 2 (1 :: u16) @ be_bytes 2 (36 :: u16)
     @ be_bytes 8 seq @ be_bytes 8 ts @ be_bytes 4 plen @ be_bytes 4 pf @ be_bytes 2 w @ be_bytes 2 h"
  by (simp add: header_bytes_init wire_header_def)

text \<open>
  C15. A header filled in by a sender of one byte order and reinterpreted by a receiver of
  any byte order gives back the magic, the version and, after the receiver's conversions,
  exactly the values the sender passed.
\<close>

theorem frame_header_interoperable:
  "let hdr = header_of_bytes bo' (header_bytes bo (initFrameHeader bo seq ts plen pf w h))
   in fh_magic hdr = PROTO_MAGIC \<and> ntohs bo' (fh_version hdr) = PROTO_VERSION
    \<and> ntohs bo' (fh_header_len hdr) = of_nat FRAME_HEADER_SIZE
    \<and> ntohll bo' (fh_seq hdr) = seq \<and> ntohll bo' (fh_timestamp_ns hdr) = ts
    \<and> ntohl bo' (fh_payload_len hdr) = plen \<and> ntohl bo' (fh_pixel_format hdr) = pf
    \<and> ntohs bo' (fh_width hdr) = w \<and> ntohs bo' (fh_height hdr) = h"
  by (simp add: Let_def header_bytes_init header_of_wire)

text \<open>
  The header occupies 36 bytes and announces 36 as its length: the packed struct has
  no 40-byte form.
\<close>

lemma frame_header_is_36_bytes:
  "length (header_bytes bo (initFrameHeader bo seq ts plen pf w h)) = 36
   \<and> ntohs bo (fh_header_len (initFrameHeader bo seq ts plen pf w h)) = 36"
  by (simp add: header_bytes_init) (simp add: initFrameHeader_def ntoh_hton)

lemma pixelFormatToString_bytes: "pixelFormatToString f = word_to_le 4 f @ [0]"
proof -
  have "(ucast (x AND 0xFF) :: byte) = ucast x" for x :: u32
  proof -
    have m: "(0xFF :: u32) = mask 8" by (simp add: mask_eq_exp_minus_1)
    show ?thesis unfolding m by (rule bit_word_eqI) (auto simp: bit_simps)
  qed
  then show ?thesis
    by (simp add: pixelFormatToString_def word_to_le_def upt_rec)
qed

text \<open>
  \<open>pixelFormatToString\<close> always writes five bytes, the last of them the terminator, and
  the four before it determine the format code: the name is a faithful rendering of the code.
\<close>

lemma pixelFormatToString_roundtrip:
  "length (pixelFormatToString f) = 5 \<and> last (pixelFormatToString f) = 0
   \<and> le_to_word (butlast (pixelFormatToString f)) = f"
  by (simp add: pixelFormatToString_bytes le_to_word_inverse)

end
