(* ===== verification/Ring_Queue.thy ===== *)
theory Ring_Queue
  imports Streamer_Prelude
begin

unbundle bit_operations_syntax

text \<open>
  The frame queue of \<open>include/ring_queue.hpp\<close> and \<open>src/ring_queue.cpp\<close>: a ring of slots
  in one flat mmap region, each slot a packed \<open>SlotHeader\<close> followed by the frame bytes.
  The record \<open>ring_queue\<close> has the members of \<open>class RingQueue\<close>; pointers into the region
  are offsets into its byte list, the mutex is a flag that records whether it is held, and
  \<open>cond_signals\<close> counts the signals and broadcasts on \<open>not_empty_\<close>. Header fields are
  stored little-endian; they never leave the process. What the C library and the other
  threads do during a blocking \<open>pop\<close> is the parameter \<open>rq_env\<close>.
\<close>

section \<open>Slot layout\<close>

record SlotHeader =
  sh_seq :: u64
  sh_timestamp_ns :: u64
  sh_pixel_format :: u32
  sh_width :: u16
  sh_height :: u16
  sh_len :: u32

definition sizeof_SlotHeader :: nat where
  "sizeof_SlotHeader = 8 + 8 + 4 + 2 + 2 + 4"

definition MAX_FRAME_SIZE :: u64 where
  "MAX_FRAME_SIZE = 4 * 1024 * 1024"

definition calcStride :: "u64 \<Rightarrow> u64" where
  "calcStride max_frame_size =
     (let sz = of_nat sizeof_SlotHeader + max_frame_size in (sz + 63) AND NOT 63)"

definition slotHdr :: "nat \<Rightarrow> nat \<Rightarrow> nat" where
  "slotHdr stride idx = idx * stride"

definition slotData :: "nat \<Rightarrow> nat \<Rightarrow> nat" where
  "slotData stride idx = idx * stride + sizeof_SlotHeader"

definition store_slot_header :: "byte list \<Rightarrow> nat \<Rightarrow> SlotHeader \<Rightarrow> byte list" where
  "store_slot_header m off hdr =
     (let m = mem_write m off (word_to_le 8 (sh_seq hdr));
          m = mem_write m (off + 8) (word_to_le 8 (sh_timestamp_ns hdr));
          m = mem_write m (off + 16) (word_to_le 4 (sh_pixel_format hdr));
          m = mem_write m (off + 20) (word_to_le 2 (sh_width hdr));
          m = mem_write m (off + 22) (word_to_le 2 (sh_height hdr))
      in mem_write m (off + 24) (word_to_le 4 (sh_len hdr)))"

definition load_slot_header :: "byte list \<Rightarrow> nat \<Rightarrow> SlotHeader" where
  "load_slot_header m off =
     \<lparr> sh_seq = le_to_word (mem_read m off 8),
       sh_timestamp_ns = le_to_word (mem_read m (off + 8) 8),
       sh_pixel_format = le_to_word (mem_read m (off + 16) 4),
       sh_width = le_to_word (mem_read m (off + 20) 2),
       sh_height = le_to_word (mem_read m (off + 22) 2),
       sh_len = le_to_word (mem_read m (off + 24) 4) \<rparr>"

section \<open>State\<close>

record ring_queue =
  mmap_base :: "byte list option"
  slot_stride :: nat
  capacity :: nat
  max_frame_size :: nat
  head :: nat
  tail :: nat
  rq_count :: nat
  slot_in_use :: "bool list"
  mutex_locked :: bool
  cond_signals :: nat
  shutdown_flag :: bool
  frames_pushed :: u64
  frames_dropped :: u64
  frames_popped :: u64

record FramePacket =
  pkt_seq :: u64
  pkt_timestamp_ns :: u64
  pkt_pixel_format :: u32
  pkt_width :: u16
  pkt_height :: u16
  pkt_len :: u32
  pkt_data :: nat
  pkt_release_fn :: bool
  pkt_slot_idx :: nat

record rq_stats =
  st_frames_pushed :: u64
  st_frames_dropped :: u64
  st_frames_popped :: u64

record timespec =
  tv_sec :: int
  tv_nsec :: int

text \<open>
  The calls a blocking \<open>pop\<close> makes: the clock, the two waits (given the queue with the
  mutex released, each returns the queue as the other threads left it; the flag of
  \<open>cond_timedwait\<close> is \<open>ETIMEDOUT\<close>) and the allocation of the packet.
\<close>

record 'w rq_env =
  clock_realtime :: "'w \<Rightarrow> timespec \<times> 'w"
  cond_wait :: "'w \<Rightarrow> ring_queue \<Rightarrow> ring_queue \<times> 'w"
  cond_timedwait :: "'w \<Rightarrow> timespec \<Rightarrow> ring_queue \<Rightarrow> bool \<times> ring_queue \<times> 'w"
  malloc_packet :: "'w \<Rightarrow> bool \<times> 'w"

definition mutex_lock :: "ring_queue \<Rightarrow> ring_queue" where
  "mutex_lock q = q\<lparr>mutex_locked := True\<rparr>"

definition mutex_unlock :: "ring_queue \<Rightarrow> ring_queue" where
  "mutex_unlock q = q\<lparr>mutex_locked := False\<rparr>"

definition cond_notify :: "ring_queue \<Rightarrow> ring_queue" where
  "cond_notify q = q\<lparr>cond_signals := Suc (cond_signals q)\<rparr>"

definition rq_mem :: "ring_queue \<Rightarrow> byte list" where
  "rq_mem q = (case mmap_base q of None \<Rightarrow> [] | Some m \<Rightarrow> m)"

section \<open>Construction and destruction\<close>

text \<open>
  \<open>mmap_ok\<close> and \<open>malloc_ok\<close> say whether the system grants a request of the given size;
  the fresh anonymous mapping is zero-filled. The multiplication for the total size wraps
  as \<open>size_t\<close> does.
\<close>

definition empty_queue :: "u64 \<Rightarrow> u64 \<Rightarrow> ring_queue" where
  "empty_queue cap maxsz =
     \<lparr> mmap_base = None, slot_stride = 0, capacity = unat cap, max_frame_size = unat maxsz,
       head = 0, tail = 0, rq_count = 0, slot_in_use = [], mutex_locked = False, cond_signals = 0,
       shutdown_flag = False, frames_pushed = 0, frames_dropped = 0, frames_popped = 0 \<rparr>"

definition RingQueue_new :: "(u64 \<Rightarrow> bool) \<Rightarrow> (u64 \<Rightarrow> bool) \<Rightarrow> u64 \<Rightarrow> u64 \<Rightarrow> ring_queue" where
  "RingQueue_new mmap_ok malloc_ok cap maxsz =
     (let q = empty_queue cap maxsz in
      if cap = 0 \<or> maxsz = 0 then q
      else
        let stride = calcStride maxsz;
            q = q\<lparr>slot_stride := unat stride\<rparr>;
            total = stride * cap in
        if \<not> mmap_ok total then q
        else if \<not> malloc_ok cap then q
        else q\<lparr>mmap_base := Some (replicate (unat total) 0),
               slot_in_use := replicate (unat cap) False\<rparr>)"

definition isValid :: "ring_queue \<Rightarrow> bool" where
  "isValid q \<longleftrightarrow> mmap_base q \<noteq> None"

definition RingQueue_delete :: "ring_queue \<Rightarrow> ring_queue" where
  "RingQueue_delete q =
     (case mmap_base q of
        None \<Rightarrow> q
      | Some _ \<Rightarrow> q\<lparr>slot_in_use := [], mmap_base := None\<rparr>)"

section \<open>Push\<close>

definition drop_oldest :: "ring_queue \<Rightarrow> ring_queue" where
  "drop_oldest q = q\<lparr>tail := (tail q + 1) mod capacity q, rq_count := rq_count q - 1,
                     frames_dropped := frames_dropped q + 1\<rparr>"

text \<open>
  The loop that makes room. The flag is \<open>False\<close> when the oldest queued slot is held by the
  consumer. The loop of a queue of capacity 0 would not end; the constructor rules it out.
\<close>

partial_function (option) push_make_room :: "ring_queue \<Rightarrow> (bool \<times> ring_queue) option" where
  "push_make_room q =
     (if rq_count q \<ge> capacity q then
        (if slot_in_use q ! tail q then Some (False, q) else push_make_room (drop_oldest q))
      else Some (True, q))"

definition push_write :: "SlotHeader \<Rightarrow> byte list \<Rightarrow> ring_queue \<Rightarrow> ring_queue" where
  "push_write hdr bs q =
     q\<lparr>mmap_base := Some (mem_write
         (store_slot_header (rq_mem q) (slotHdr (slot_stride q) (head q)) hdr)
         (slotData (slot_stride q) (head q)) (take (unat (sh_len hdr)) bs))\<rparr>"

definition push_commit :: "ring_queue \<Rightarrow> ring_queue" where
  "push_commit q = q\<lparr>head := (head q + 1) mod capacity q, rq_count := rq_count q + 1,
                     frames_pushed := frames_pushed q + 1\<rparr>"

definition push_reject :: "ring_queue \<Rightarrow> ring_queue" where
  "push_reject q = (mutex_unlock q)\<lparr>frames_dropped := frames_dropped q + 1\<rparr>"

definition push ::
  "u64 \<Rightarrow> u64 \<Rightarrow> byte list option \<Rightarrow> u32 \<Rightarrow> u32 \<Rightarrow> u16 \<Rightarrow> u16 \<Rightarrow> ring_queue \<Rightarrow> (bool \<times> ring_queue) option" where
  "push seq timestamp_ns data len pixel_format width height q =
     (case data of
        None \<Rightarrow> Some (False, q)
      | Some bs \<Rightarrow>
          if mmap_base q = None \<or> len = 0 then Some (False, q)
          else if unat len > max_frame_size q then Some (False, q)
          else
            let q = mutex_lock q in
            if shutdown_flag q then Some (False, mutex_unlock q)
            else do {
              (room, q) \<leftarrow> push_make_room q;
              if \<not> room then Some (False, push_reject q)
              else if slot_in_use q ! head q then Some (False, push_reject q)
              else
                let hdr = \<lparr> sh_seq = seq, sh_timestamp_ns = timestamp_ns, sh_pixel_format = pixel_format,
                            sh_width = width, sh_height = height, sh_len = len \<rparr>;
                    q = push_write hdr bs q;
                    q = push_commit q;
                    q = cond_notify q
                in Some (True, mutex_unlock q)
            })"

section \<open>Pop and release\<close>

definition pop_deadline :: "timespec \<Rightarrow> int \<Rightarrow> timespec" where
  "pop_deadline ts timeout_ms =
     (let ts = ts\<lparr>tv_sec := tv_sec ts + timeout_ms div 1000\<rparr>;
          ts = ts\<lparr>tv_nsec := tv_nsec ts + (timeout_ms mod 1000) * 1000000\<rparr>
      in if tv_nsec ts \<ge> 1000000000
         then ts\<lparr>tv_sec := tv_sec ts + 1, tv_nsec := tv_nsec ts - 1000000000\<rparr>
         else ts)"

partial_function (option) pop_wait ::
  "'w rq_env \<Rightarrow> 'w \<Rightarrow> ring_queue \<Rightarrow> (ring_queue \<times> 'w) option" where
  "pop_wait env w q =
     (if rq_count q = 0 \<and> \<not> shutdown_flag q then
        (case cond_wait env w (mutex_unlock q) of (q', w') \<Rightarrow> pop_wait env w' (mutex_lock q'))
      else Some (q, w))"

partial_function (option) pop_timedwait ::
  "'w rq_env \<Rightarrow> timespec \<Rightarrow> 'w \<Rightarrow> ring_queue \<Rightarrow> (bool \<times> ring_queue \<times> 'w) option" where
  "pop_timedwait env ts w q =
     (if rq_count q = 0 \<and> \<not> shutdown_flag q then
        (case cond_timedwait env w ts (mutex_unlock q) of (timedout, q', w') \<Rightarrow>
           if timedout then Some (True, mutex_lock q', w')
           else pop_timedwait env ts w' (mutex_lock q'))
      else Some (False, q, w))"

text \<open>The critical section after the wait: read the tail header, mark the slot, advance.\<close>

definition pop_take :: "ring_queue \<Rightarrow> nat \<times> SlotHeader \<times> ring_queue" where
  "pop_take q =
     (let idx = tail q;
          hdr = load_slot_header (rq_mem q) (slotHdr (slot_stride q) idx)
      in (idx, hdr, q\<lparr>slot_in_use := (slot_in_use q)[idx := True],
                      tail := (tail q + 1) mod capacity q,
                      rq_count := rq_count q - 1,
                      frames_popped := frames_popped q + 1\<rparr>))"

definition make_packet :: "ring_queue \<Rightarrow> nat \<Rightarrow> SlotHeader \<Rightarrow> FramePacket" where
  "make_packet q idx hdr =
     \<lparr> pkt_seq = sh_seq hdr, pkt_timestamp_ns = sh_timestamp_ns hdr,
       pkt_pixel_format = sh_pixel_format hdr, pkt_width = sh_width hdr, pkt_height = sh_height hdr,
       pkt_len = sh_len hdr, pkt_data = slotData (slot_stride q) idx,
       pkt_release_fn = True, pkt_slot_idx = idx \<rparr>"

definition releaseSlot :: "nat \<Rightarrow> ring_queue \<Rightarrow> ring_queue" where
  "releaseSlot idx q = q\<lparr>slot_in_use := (slot_in_use q)[idx := False]\<rparr>"

definition pop_finish :: "'w rq_env \<Rightarrow> 'w \<Rightarrow> ring_queue \<Rightarrow> FramePacket option \<times> ring_queue \<times> 'w" where
  "pop_finish env w q =
     (if rq_count q = 0 then (None, mutex_unlock q, w)
      else
        case pop_take q of (idx, hdr, q) \<Rightarrow>
          let q = mutex_unlock q in
          case malloc_packet env w of (ok, w) \<Rightarrow>
            if \<not> ok then (None, releaseSlot idx q, w)
            else (Some (make_packet q idx hdr), q, w))"

definition pop :: "'w rq_env \<Rightarrow> int \<Rightarrow> 'w \<Rightarrow> ring_queue \<Rightarrow> (FramePacket option \<times> ring_queue \<times> 'w) option" where
  "pop env timeout_ms w q =
     (if mmap_base q = None then Some (None, q, w)
      else
        let q = mutex_lock q in
        if timeout_ms < 0 then do {
          (q, w) \<leftarrow> pop_wait env w q;
          Some (pop_finish env w q)
        }
        else if timeout_ms = 0 then
          (if rq_count q = 0 \<or> shutdown_flag q then Some (None, mutex_unlock q, w)
           else Some (pop_finish env w q))
        else
          case clock_realtime env w of (now, w) \<Rightarrow> do {
            (timedout, q, w) \<leftarrow> pop_timedwait env (pop_deadline now timeout_ms) w q;
            if timedout then Some (None, mutex_unlock q, w)
            else Some (pop_finish env w q)
          })"

text \<open>The destructor of a packet calls the release function; \<open>frame_packet_free\<close> runs it.\<close>

definition FramePacket_delete :: "FramePacket \<Rightarrow> ring_queue \<Rightarrow> ring_queue" where
  "FramePacket_delete pkt q = (if pkt_release_fn pkt then releaseSlot (pkt_slot_idx pkt) q else q)"

definition frame_packet_free :: "FramePacket option \<Rightarrow> ring_queue \<Rightarrow> ring_queue" where
  "frame_packet_free pkt q = (case pkt of None \<Rightarrow> q | Some p \<Rightarrow> FramePacket_delete p q)"

definition rq_shutdown :: "ring_queue \<Rightarrow> ring_queue" where
  "rq_shutdown q =
     (let q = mutex_lock q;
          q = q\<lparr>shutdown_flag := True\<rparr>;
          q = mutex_unlock q
      in cond_notify q)"

definition isShutdown :: "ring_queue \<Rightarrow> bool" where
  "isShutdown q = shutdown_flag q"

definition getStats :: "ring_queue \<Rightarrow> rq_stats" where
  "getStats q = \<lparr> st_frames_pushed = frames_pushed q, st_frames_dropped = frames_dropped q,
                  st_frames_popped = frames_popped q \<rparr>"

section \<open>Layout lemmas\<close>

lemma sizeof_SlotHeader_eq [simp]: "sizeof_SlotHeader = 28"
  by (simp add: sizeof_SlotHeader_def)

lemma and_not_63: "(x :: u64) AND NOT 63 = push_bit 6 (drop_bit 6 x)"
proof -
  have m: "(63 :: u64) = mask 6" by (simp add: mask_eq_exp_minus_1)
  show ?thesis unfolding m by (rule bit_word_eqI) (auto simp: bit_simps)
qed

lemma unat_and_not_63: "unat ((x :: u64) AND NOT 63) = unat x div 64 * 64"
proof -
  have "unat x div 64 * 64 \<le> unat x" by simp
  moreover have "unat x < 2 ^ 64" using unsigned_less [of x] by simp
  ultimately have "unat x div 64 * 64 < 2 ^ 64" by linarith
  then show ?thesis
    unfolding and_not_63
    by (simp add: push_bit_eq_mult drop_bit_eq_div unat_word_ariths unat_div mult.commute)
qed

lemma unat_calcStride:
  assumes "unat m + 91 < 2 ^ 64"
  shows "unat (calcStride m) = (unat m + 91) div 64 * 64"
proof -
  have "unat (of_nat sizeof_SlotHeader + m + 63 :: u64) = unat m + 91"
    using assms by (simp add: unat_word_ariths)
  then show ?thesis
    unfolding calcStride_def Let_def unat_and_not_63 by simp
qed

lemma length_store_slot_header [simp]:
  "off + 28 \<le> length m \<Longrightarrow> length (store_slot_header m off hdr) = length m"
  by (simp add: store_slot_header_def Let_def mem_simps)

lemma load_store_slot_header:
  "off + 28 \<le> length m \<Longrightarrow> load_slot_header (store_slot_header m off hdr) off = hdr"
  by (cases hdr) (simp add: load_slot_header_def store_slot_header_def Let_def mem_simps byte_simps)

lemma mem_read_store_other:
  assumes "off + 28 \<le> length m" and "a + n \<le> off \<or> off + 28 \<le> a"
  shows "mem_read (store_slot_header m off hdr) a n = mem_read m a n"
  using assms by (auto simp: store_slot_header_def Let_def mem_simps)

lemma load_slot_header_cong:
  assumes "\<And>a n. off \<le> a \<Longrightarrow> a + n \<le> off + 28 \<Longrightarrow> mem_read m a n = mem_read m' a n"
  shows "load_slot_header m off = load_slot_header m' off"
  using assms by (simp add: load_slot_header_def)

section \<open>Invariant and abstraction\<close>

text \<open>The queued slots, oldest first, and the frames they hold.\<close>

definition rq_slots :: "ring_queue \<Rightarrow> nat list" where
  "rq_slots q = map (\<lambda>i. (tail q + i) mod capacity q) [0..<rq_count q]"

definition slot_header :: "ring_queue \<Rightarrow> nat \<Rightarrow> SlotHeader" where
  "slot_header q i = load_slot_header (rq_mem q) (slotHdr (slot_stride q) i)"

definition frame_of_header :: "SlotHeader \<Rightarrow> byte list \<Rightarrow> frame" where
  "frame_of_header hdr bs =
     \<lparr> fr_seq = sh_seq hdr, fr_timestamp_ns = sh_timestamp_ns hdr, fr_pixel_format = sh_pixel_format hdr,
       fr_width = sh_width hdr, fr_height = sh_height hdr, fr_payload = bs \<rparr>"

definition slot_frame :: "ring_queue \<Rightarrow> nat \<Rightarrow> frame" where
  "slot_frame q i = frame_of_header (slot_header q i)
     (mem_read (rq_mem q) (slotData (slot_stride q) i) (unat (sh_len (slot_header q i))))"

definition rq_frames :: "ring_queue \<Rightarrow> frame list" where
  "rq_frames q = map (slot_frame q) (rq_slots q)"

definition slot_len_ok :: "ring_queue \<Rightarrow> nat \<Rightarrow> bool" where
  "slot_len_ok q i \<longleftrightarrow> 0 < sh_len (slot_header q i) \<and> unat (sh_len (slot_header q i)) \<le> max_frame_size q"

text \<open>The slots held by packets that have not been freed yet.\<close>

definition rq_held :: "ring_queue \<Rightarrow> nat set" where
  "rq_held q = set (filter (\<lambda>i. slot_in_use q ! i) [0..<capacity q])"

lemma rq_held_eq: "rq_held q = {i. i < capacity q \<and> slot_in_use q ! i}"
  by (auto simp: rq_held_def)

definition rq_geometry :: "ring_queue \<Rightarrow> bool" where
  "rq_geometry q \<longleftrightarrow>
     mmap_base q \<noteq> None \<and> length (rq_mem q) = slot_stride q * capacity q \<and> 0 < capacity q
     \<and> sizeof_SlotHeader + max_frame_size q \<le> slot_stride q \<and> length (slot_in_use q) = capacity q"

definition rq_inv :: "ring_queue \<Rightarrow> bool" where
  "rq_inv q \<longleftrightarrow> rq_geometry q
     \<and> head q < capacity q \<and> tail q < capacity q \<and> rq_count q \<le> capacity q
     \<and> head q = (tail q + rq_count q) mod capacity q
     \<and> (\<forall>i\<in>set (rq_slots q). \<not> slot_in_use q ! i \<and> slot_len_ok q i)"

section \<open>Slots\<close>

lemmas rq_update_defs = mutex_lock_def mutex_unlock_def cond_notify_def drop_oldest_def push_commit_def
  push_reject_def releaseSlot_def rq_shutdown_def

lemma rq_mem_simps [simp]:
  "rq_mem (q\<lparr>mmap_base := Some m\<rparr>) = m"
  "rq_mem (q\<lparr>slot_in_use := u\<rparr>) = rq_mem q" "rq_mem (q\<lparr>mutex_locked := b\<rparr>) = rq_mem q"
  "rq_mem (q\<lparr>cond_signals := k\<rparr>) = rq_mem q" "rq_mem (q\<lparr>shutdown_flag := b\<rparr>) = rq_mem q"
  "rq_mem (q\<lparr>tail := t\<rparr>) = rq_mem q" "rq_mem (q\<lparr>head := t\<rparr>) = rq_mem q"
  "rq_mem (q\<lparr>rq_count := t\<rparr>) = rq_mem q" "rq_mem (q\<lparr>frames_dropped := x\<rparr>) = rq_mem q"
  "rq_mem (q\<lparr>frames_pushed := x\<rparr>) = rq_mem q" "rq_mem (q\<lparr>frames_popped := x\<rparr>) = rq_mem q"
  by (simp_all add: rq_mem_def)

text \<open>The mutex and the condition variable leave every other member alone.\<close>

lemma sync_fields [simp]:
  "mmap_base (mutex_lock q) = mmap_base q" "slot_stride (mutex_lock q) = slot_stride q" "capacity (mutex_lock q) = capacity q"
  "max_frame_size (mutex_lock q) = max_frame_size q" "head (mutex_lock q) = head q" "tail (mutex_lock q) = tail q"
  "rq_count (mutex_lock q) = rq_count q" "slot_in_use (mutex_lock q) = slot_in_use q" "shutdown_flag (mutex_lock q) = shutdown_flag q"
  "frames_pushed (mutex_lock q) = frames_pushed q" "frames_dropped (mutex_lock q) = frames_dropped q" "frames_popped (mutex_lock q) = frames_popped q"
  "rq_mem (mutex_lock q) = rq_mem q"
  "mmap_base (mutex_unlock q) = mmap_base q" "slot_stride (mutex_unlock q) = slot_stride q" "capacity (mutex_unlock q) = capacity q"
  "max_frame_size (mutex_unlock q) = max_frame_size q" "head (mutex_unlock q) = head q" "tail (mutex_unlock q) = tail q"
  "rq_count (mutex_unlock q) = rq_count q" "slot_in_use (mutex_unlock q) = slot_in_use q" "shutdown_flag (mutex_unlock q) = shutdown_flag q"
  "frames_pushed (mutex_unlock q) = frames_pushed q" "frames_dropped (mutex_unlock q) = frames_dropped q" "frames_popped (mutex_unlock q) = frames_popped q"
  "rq_mem (mutex_unlock q) = rq_mem q"
  "mmap_base (cond_notify q) = mmap_base q" "slot_stride (cond_notify q) = slot_stride q" "capacity (cond_notify q) = capacity q"
  "max_frame_size (cond_notify q) = max_frame_size q" "head (cond_notify q) = head q" "tail (cond_notify q) = tail q"
  "rq_count (cond_notify q) = rq_count q" "slot_in_use (cond_notify q) = slot_in_use q" "shutdown_flag (cond_notify q) = shutdown_flag q"
  "frames_pushed (cond_notify q) = frames_pushed q" "frames_dropped (cond_notify q) = frames_dropped q" "frames_popped (cond_notify q) = frames_popped q"
  "rq_mem (cond_notify q) = rq_mem q"
  "mutex_locked (mutex_lock q)" "\<not> mutex_locked (mutex_unlock q)" "mutex_locked (cond_notify q) = mutex_locked q"
  "cond_signals (mutex_lock q) = cond_signals q" "cond_signals (mutex_unlock q) = cond_signals q"
  "cond_signals (cond_notify q) = Suc (cond_signals q)"
  by (simp_all add: rq_update_defs)

text \<open>
  Everything below depends on the region, the geometry, the indices and the flags only;
  the mutex, the counters and the condition variable do not matter.
\<close>

definition rq_core :: "ring_queue \<Rightarrow> ring_queue" where
  "rq_core q = q\<lparr>mutex_locked := False, cond_signals := 0, shutdown_flag := False,
                 frames_pushed := 0, frames_dropped := 0, frames_popped := 0\<rparr>"

lemma rq_core_cong:
  assumes "rq_core q = rq_core q'"
  shows "rq_slots q = rq_slots q'" "rq_frames q = rq_frames q'" "rq_inv q = rq_inv q'"
    "rq_held q = rq_held q'" "rq_geometry q = rq_geometry q'"
proof -
  have "mmap_base q = mmap_base q'" "slot_stride q = slot_stride q'" "capacity q = capacity q'"
    "max_frame_size q = max_frame_size q'" "head q = head q'" "tail q = tail q'"
    "rq_count q = rq_count q'" "slot_in_use q = slot_in_use q'"
    using assms by (cases q; cases q'; simp add: rq_core_def)+
  then show "rq_slots q = rq_slots q'" "rq_frames q = rq_frames q'" "rq_inv q = rq_inv q'"
    "rq_held q = rq_held q'" "rq_geometry q = rq_geometry q'"
    by (simp_all add: rq_slots_def rq_frames_def rq_inv_def rq_held_eq rq_geometry_def rq_mem_def
        slot_frame_def [abs_def] slot_header_def slot_len_ok_def)
qed

lemma rq_core_simps [simp]:
  "rq_core (mutex_lock q) = rq_core q" "rq_core (mutex_unlock q) = rq_core q"
  "rq_core (cond_notify q) = rq_core q" "rq_core (rq_shutdown q) = rq_core q"
  "rq_core (push_reject q) = rq_core q"
  by (simp_all add: rq_core_def rq_update_defs)

lemmas rq_frame_simps [simp] =
  rq_core_cong [OF rq_core_simps(1)] rq_core_cong [OF rq_core_simps(2)] rq_core_cong [OF rq_core_simps(3)]
  rq_core_cong [OF rq_core_simps(4)] rq_core_cong [OF rq_core_simps(5)]

lemma length_rq_slots [simp]: "length (rq_slots q) = rq_count q"
  by (simp add: rq_slots_def)

lemma length_rq_frames [simp]: "length (rq_frames q) = rq_count q"
  by (simp add: rq_frames_def)

lemma rq_slots_less: "rq_inv q \<Longrightarrow> i \<in> set (rq_slots q) \<Longrightarrow> i < capacity q"
  by (auto simp: rq_slots_def rq_inv_def rq_geometry_def)

lemma distinct_rq_slots: "rq_inv q \<Longrightarrow> distinct (rq_slots q)"
  by (auto simp: rq_slots_def rq_inv_def distinct_map inj_on_def ring_index_inj)

lemma rq_slots_Cons:
  "0 < rq_count q \<Longrightarrow> rq_inv q \<Longrightarrow>
   rq_slots q = tail q # map (\<lambda>i. ((tail q + 1) mod capacity q + i) mod capacity q) [0..<rq_count q - 1]"
proof -
  assume a: "0 < rq_count q" "rq_inv q"
  have "map (\<lambda>i. (tail q + i) mod capacity q) [Suc 0..<rq_count q]
      = map (\<lambda>i. ((tail q + 1) mod capacity q + i) mod capacity q) [0..<rq_count q - 1]"
    using a(1) by (cases "rq_count q") (auto simp: ring_simps simp flip: map_Suc_upt simp del: upt_Suc)
  then show ?thesis
    using a by (simp add: rq_slots_def upt_conv_Cons rq_inv_def)
qed

lemma rq_slots_drop_oldest:
  "0 < rq_count q \<Longrightarrow> rq_inv q \<Longrightarrow> rq_slots (drop_oldest q) = tl (rq_slots q)"
  by (subst (2) rq_slots_Cons) (simp_all add: rq_slots_def drop_oldest_def)

lemma rq_slots_commit:
  "rq_inv q \<Longrightarrow> rq_slots (push_commit q) = rq_slots q @ [head q]"
  by (simp add: rq_slots_def push_commit_def rq_inv_def)

lemma head_free: "rq_inv q \<Longrightarrow> rq_count q < capacity q \<Longrightarrow> head q \<notin> set (rq_slots q)"
  by (auto simp: rq_slots_def rq_inv_def ring_index_inj)

text \<open>A full ring queues every slot.\<close>

lemma full_all_queued:
  assumes "rq_inv q" and "rq_count q = capacity q" and "i < capacity q"
  shows "i \<in> set (rq_slots q)"
proof -
  obtain j where "j < capacity q" and "i = (tail q + j) mod capacity q"
    using ring_index_surj [of "tail q" "capacity q" i] assms by (auto simp: rq_inv_def)
  then show ?thesis using assms(2) by (auto simp: rq_slots_def)
qed

lemma full_none_held: "rq_inv q \<Longrightarrow> rq_count q = capacity q \<Longrightarrow> rq_held q = {}"
  unfolding rq_held_eq using full_all_queued [of q] by (auto simp: rq_inv_def)

section \<open>Memory of the slots\<close>

lemma slot_bounds: "i < (c::nat) \<Longrightarrow> i * s + s \<le> s * c"
  by (metis Suc_leI add.commute mult.commute mult_Suc mult_le_mono1)

lemma slot_apart: "i \<noteq> (j::nat) \<Longrightarrow> i * s + s \<le> j * s \<or> j * s + s \<le> i * s"
  by (metis Suc_leI add.commute mult_Suc mult_le_mono1 nat_neq_iff)

lemma rq_mem_push_write:
  "rq_mem (push_write hdr bs q) = mem_write
     (store_slot_header (rq_mem q) (head q * slot_stride q) hdr)
     (head q * slot_stride q + 28) (take (unat (sh_len hdr)) bs)"
  by (simp add: push_write_def slotHdr_def slotData_def)

text \<open>What \<open>push_write\<close> needs to stay inside the slot at the head.\<close>

definition push_fits :: "SlotHeader \<Rightarrow> ring_queue \<Rightarrow> bool" where
  "push_fits hdr q \<longleftrightarrow> rq_geometry q \<and> head q < capacity q \<and> unat (sh_len hdr) \<le> max_frame_size q"

lemma push_fits_bounds:
  assumes "push_fits hdr q"
  shows "head q * slot_stride q + 28 \<le> length (rq_mem q)"
    and "head q * slot_stride q + 28 + unat (sh_len hdr) \<le> head q * slot_stride q + slot_stride q"
    and "head q * slot_stride q + slot_stride q \<le> length (rq_mem q)"
  using assms slot_bounds [of "head q" "capacity q" "slot_stride q"]
  by (auto simp: push_fits_def rq_geometry_def)

lemma length_push_write [simp]:
  "push_fits hdr q \<Longrightarrow> length (rq_mem (push_write hdr bs q)) = length (rq_mem q)"
  using push_fits_bounds [of hdr q] by (simp add: rq_mem_push_write mem_simps)

lemma push_write_other_slot:
  assumes "push_fits hdr q" and "i \<noteq> head q"
    and "i * slot_stride q \<le> a" and "a + n \<le> i * slot_stride q + slot_stride q"
  shows "mem_read (rq_mem (push_write hdr bs q)) a n = mem_read (rq_mem q) a n"
proof -
  let ?h = "head q * slot_stride q"
  note b = push_fits_bounds [OF assms(1)]
  have d: "a + n \<le> ?h \<or> ?h + slot_stride q \<le> a"
    using slot_apart [OF assms(2), of "slot_stride q"] assms(3,4) by auto
  have "mem_read (rq_mem (push_write hdr bs q)) a n
      = mem_read (store_slot_header (rq_mem q) ?h hdr) a n"
    unfolding rq_mem_push_write
    by (rule mem_read_write_other) (use b d in auto)
  also have "\<dots> = mem_read (rq_mem q) a n"
    by (rule mem_read_store_other) (use b d in auto)
  finally show ?thesis .
qed

lemma push_write_same_slot:
  assumes "push_fits hdr q" and "unat (sh_len hdr) \<le> length bs"
  shows "slot_header (push_write hdr bs q) (head q) = hdr"
    and "slot_frame (push_write hdr bs q) (head q) = frame_of_header hdr (take (unat (sh_len hdr)) bs)"
proof -
  let ?h = "head q * slot_stride q"
  let ?m = "store_slot_header (rq_mem q) ?h hdr"
  note b = push_fits_bounds [OF assms(1)]
  have "load_slot_header (rq_mem (push_write hdr bs q)) ?h = load_slot_header ?m ?h"
    unfolding rq_mem_push_write
    by (intro load_slot_header_cong mem_read_write_other) (use b in auto)
  then show hd: "slot_header (push_write hdr bs q) (head q) = hdr"
    using b by (simp add: slot_header_def slotHdr_def load_store_slot_header push_write_def)
  have "mem_read (rq_mem (push_write hdr bs q)) (?h + 28) (unat (sh_len hdr)) = take (unat (sh_len hdr)) bs"
    unfolding rq_mem_push_write by (rule mem_read_write_same) (use b assms(2) in auto)
  then show "slot_frame (push_write hdr bs q) (head q) = frame_of_header hdr (take (unat (sh_len hdr)) bs)"
    by (simp add: slot_frame_def hd slotData_def) (simp add: push_write_def)
qed

lemma push_write_fields [simp]:
  "head (push_write hdr bs q) = head q" "tail (push_write hdr bs q) = tail q"
  "rq_count (push_write hdr bs q) = rq_count q" "capacity (push_write hdr bs q) = capacity q"
  "slot_stride (push_write hdr bs q) = slot_stride q" "slot_in_use (push_write hdr bs q) = slot_in_use q"
  "max_frame_size (push_write hdr bs q) = max_frame_size q" "mmap_base (push_write hdr bs q) \<noteq> None"
  "mutex_locked (push_write hdr bs q) = mutex_locked q"
  "shutdown_flag (push_write hdr bs q) = shutdown_flag q"
  "frames_pushed (push_write hdr bs q) = frames_pushed q"
  "frames_dropped (push_write hdr bs q) = frames_dropped q"
  "frames_popped (push_write hdr bs q) = frames_popped q"
  "rq_slots (push_write hdr bs q) = rq_slots q" "rq_held (push_write hdr bs q) = rq_held q"
  by (simp_all add: push_write_def rq_slots_def rq_held_eq)

lemma push_write_slot_other:
  assumes "push_fits hdr q" and "i \<noteq> head q"
    and "unat (sh_len (slot_header q i)) \<le> max_frame_size q"
  shows "slot_header (push_write hdr bs q) i = slot_header q i"
    and "slot_frame (push_write hdr bs q) i = slot_frame q i"
proof -
  have s: "28 + max_frame_size q \<le> slot_stride q"
    using assms(1) by (simp add: push_fits_def rq_geometry_def)
  have "load_slot_header (rq_mem (push_write hdr bs q)) (i * slot_stride q)
      = load_slot_header (rq_mem q) (i * slot_stride q)"
    by (intro load_slot_header_cong push_write_other_slot [where i = i]) (use assms s in auto)
  then show hd: "slot_header (push_write hdr bs q) i = slot_header q i"
    by (simp add: slot_header_def slotHdr_def)
  have "mem_read (rq_mem (push_write hdr bs q)) (i * slot_stride q + 28) (unat (sh_len (slot_header q i)))
      = mem_read (rq_mem q) (i * slot_stride q + 28) (unat (sh_len (slot_header q i)))"
    by (intro push_write_other_slot [where i = i]) (use assms s in auto)
  then show "slot_frame (push_write hdr bs q) i = slot_frame q i"
    by (simp add: slot_frame_def hd slotData_def)
qed

section \<open>The operations keep the invariant\<close>

lemma slot_lookup_cong:
  assumes "rq_mem q' = rq_mem q" and "slot_stride q' = slot_stride q"
  shows "slot_header q' i = slot_header q i" "slot_frame q' i = slot_frame q i"
  using assms by (simp_all add: slot_header_def slot_frame_def)

lemma slot_lookup_simps [simp]:
  "slot_header (drop_oldest q) = slot_header q" "slot_frame (drop_oldest q) = slot_frame q"
  "slot_header (push_commit q) = slot_header q" "slot_frame (push_commit q) = slot_frame q"
  "slot_header (releaseSlot j q) = slot_header q" "slot_frame (releaseSlot j q) = slot_frame q"
  "slot_header (q\<lparr>slot_in_use := u, tail := t, rq_count := n, frames_popped := x\<rparr>) = slot_header q"
  "slot_frame (q\<lparr>slot_in_use := u, tail := t, rq_count := n, frames_popped := x\<rparr>) = slot_frame q"
  by (intro ext slot_lookup_cong; simp add: rq_update_defs)+

lemma push_commit_fields [simp]:
  "slot_in_use (push_commit q) = slot_in_use q" "max_frame_size (push_commit q) = max_frame_size q"
  "capacity (push_commit q) = capacity q" "tail (push_commit q) = tail q"
  "shutdown_flag (push_commit q) = shutdown_flag q" "rq_geometry (push_commit q) = rq_geometry q"
  "rq_mem (push_commit q) = rq_mem q" "slot_stride (push_commit q) = slot_stride q"
  by (simp_all add: push_commit_def rq_geometry_def)

lemma drop_oldest_frames:
  "rq_inv q \<Longrightarrow> 0 < rq_count q \<Longrightarrow> rq_frames (drop_oldest q) = tl (rq_frames q)"
  by (simp add: rq_frames_def rq_slots_drop_oldest map_tl)

lemma drop_oldest_inv:
  assumes "rq_inv q" and "0 < rq_count q"
  shows "rq_inv (drop_oldest q)"
proof -
  have "set (rq_slots (drop_oldest q)) \<subseteq> set (rq_slots q)"
    using assms by (cases "rq_slots q") (auto simp: rq_slots_drop_oldest)
  moreover have "slot_len_ok (drop_oldest q) i = slot_len_ok q i" for i
    by (simp add: slot_len_ok_def) (simp add: drop_oldest_def)
  moreover have "head q = ((tail q + 1) mod capacity q + (rq_count q - 1)) mod capacity q"
    using assms by (cases "rq_count q") (simp_all add: rq_inv_def ring_simps)
  ultimately show ?thesis
    using assms by (auto simp: rq_inv_def rq_geometry_def drop_oldest_def)
qed

lemma push_write_commit:
  fixes bs :: "byte list"
  assumes "rq_inv q" and "rq_count q < capacity q" and "\<not> slot_in_use q ! head q"
    and "0 < sh_len hdr" and "unat (sh_len hdr) \<le> max_frame_size q" and "unat (sh_len hdr) \<le> length bs"
  defines "q' \<equiv> push_commit (push_write hdr bs q)"
  shows "rq_inv q'" and "rq_frames q' = rq_frames q @ [frame_of_header hdr (take (unat (sh_len hdr)) bs)]"
proof -
  have fits: "push_fits hdr q" using assms by (simp add: push_fits_def rq_inv_def)
  have slots: "rq_slots q' = rq_slots q @ [head q]"
    using assms(1) by (simp add: q'_def push_commit_def rq_slots_def rq_inv_def)
  have look: "slot_header q' i = slot_header (push_write hdr bs q) i"
      "slot_frame q' i = slot_frame (push_write hdr bs q) i" for i
    by (simp_all add: q'_def)
  have use: "slot_in_use q' = slot_in_use q" "max_frame_size q' = max_frame_size q"
    by (simp_all add: q'_def)
  have old: "i \<noteq> head q \<and> unat (sh_len (slot_header q i)) \<le> max_frame_size q" if "i \<in> set (rq_slots q)" for i
    using that assms(1) head_free [OF assms(1,2)] by (auto simp: rq_inv_def slot_len_ok_def)
  have oldinv: "\<forall>i\<in>set (rq_slots q). \<not> slot_in_use q ! i \<and> slot_len_ok q i"
    using assms(1) by (simp add: rq_inv_def)
  have "\<forall>i\<in>set (rq_slots q'). \<not> slot_in_use q' ! i \<and> slot_len_ok q' i"
    using oldinv assms(3,4,5) old
    by (auto simp: slots slot_len_ok_def look push_write_same_slot(1) [OF fits assms(6)]
        push_write_slot_other(1) [OF fits] use)
  moreover have "rq_geometry q'"
    using fits by (simp add: q'_def push_fits_def) (simp add: rq_geometry_def fits)
  ultimately show "rq_inv q'"
    using assms(1,2) by (simp add: rq_inv_def q'_def push_commit_def mod_simps)
  show "rq_frames q' = rq_frames q @ [frame_of_header hdr (take (unat (sh_len hdr)) bs)]"
    using old by (simp add: rq_frames_def slots look push_write_same_slot(2) [OF fits assms(6)]
        push_write_slot_other(2) [OF fits])
qed

section \<open>Push\<close>

lemma tail_not_in_use: "rq_inv q \<Longrightarrow> 0 < rq_count q \<Longrightarrow> \<not> slot_in_use q ! tail q"
proof -
  assume a: "rq_inv q" "0 < rq_count q"
  then have "tail q \<in> set (rq_slots q)"
    by (subst rq_slots_Cons) simp_all
  with a(1) show ?thesis by (simp add: rq_inv_def)
qed

text \<open>
  Under the invariant the loop that makes room ends after at most one eviction, and never
  finds the oldest slot held.
\<close>

lemma push_make_room_inv:
  assumes "rq_inv q"
  shows "push_make_room q = Some (True, if rq_count q < capacity q then q else drop_oldest q)"
proof (cases "rq_count q < capacity q")
  case True
  then show ?thesis by (simp add: push_make_room.simps)
next
  case False
  then have pos: "0 < rq_count q" and "\<not> slot_in_use q ! tail q"
    using assms tail_not_in_use [of q] by (auto simp: rq_inv_def rq_geometry_def)
  moreover have "rq_count (drop_oldest q) < capacity (drop_oldest q)"
    using pos assms by (auto simp: drop_oldest_def rq_inv_def)
  ultimately show ?thesis
    using False by (simp add: push_make_room.simps [of q] push_make_room.simps [of "drop_oldest q"])
qed

text \<open>The abstract queue: a bounded list of frames that drops its oldest element when full.\<close>

definition aq_push :: "nat \<Rightarrow> frame \<Rightarrow> frame list \<Rightarrow> frame list" where
  "aq_push cap f fs = (if length fs < cap then fs else tl fs) @ [f]"

definition push_frame :: "frame \<Rightarrow> ring_queue \<Rightarrow> (bool \<times> ring_queue) option" where
  "push_frame f q = push (fr_seq f) (fr_timestamp_ns f) (Some (fr_payload f)) (of_nat (length (fr_payload f)))
     (fr_pixel_format f) (fr_width f) (fr_height f) q"

definition frame_ok :: "ring_queue \<Rightarrow> frame \<Rightarrow> bool" where
  "frame_ok q f \<longleftrightarrow> 0 < length (fr_payload f) \<and> length (fr_payload f) \<le> max_frame_size q
     \<and> length (fr_payload f) < 2 ^ 32"

definition header_of_frame :: "frame \<Rightarrow> SlotHeader" where
  "header_of_frame f = \<lparr> sh_seq = fr_seq f, sh_timestamp_ns = fr_timestamp_ns f,
     sh_pixel_format = fr_pixel_format f, sh_width = fr_width f, sh_height = fr_height f,
     sh_len = of_nat (length (fr_payload f)) \<rparr>"

definition rq_room :: "ring_queue \<Rightarrow> ring_queue" where
  "rq_room q = (if rq_count q < capacity q then q else drop_oldest q)"

definition rq_evictions :: "ring_queue \<Rightarrow> u64" where
  "rq_evictions q = (if rq_count q < capacity q then 0 else 1)"

lemma rq_room_fields [simp]:
  "head (rq_room q) = head q" "capacity (rq_room q) = capacity q" "slot_in_use (rq_room q) = slot_in_use q"
  "max_frame_size (rq_room q) = max_frame_size q" "slot_stride (rq_room q) = slot_stride q"
  "rq_mem (rq_room q) = rq_mem q" "frames_pushed (rq_room q) = frames_pushed q"
  "frames_popped (rq_room q) = frames_popped q" "shutdown_flag (rq_room q) = shutdown_flag q"
  "frames_dropped (rq_room q) = frames_dropped q + rq_evictions q"
  "rq_held (rq_room q) = rq_held q"
  by (simp_all add: rq_room_def drop_oldest_def rq_evictions_def rq_held_eq)

lemma rq_room_inv:
  assumes "rq_inv q"
  shows "rq_inv (rq_room q)" "rq_count (rq_room q) < capacity q"
    "rq_frames (rq_room q) = (if rq_count q < capacity q then rq_frames q else tl (rq_frames q))"
  using assms drop_oldest_inv [OF assms] drop_oldest_frames [OF assms]
  by (auto simp: rq_room_def drop_oldest_def rq_inv_def rq_geometry_def)

lemma rq_core_lock_room: "rq_room (mutex_lock q) = mutex_lock (rq_room q)"
  by (simp add: rq_room_def rq_update_defs)

lemma unat_len: "length (xs :: byte list) < 2 ^ 32 \<Longrightarrow> unat (of_nat (length xs) :: u32) = length xs"
  by (simp add: unat_of_nat)

lemma push_frame_eq:
  assumes "rq_inv q" and "frame_ok q f" and "\<not> shutdown_flag q"
  shows "push_frame f q = Some (if slot_in_use q ! head q
     then (False, push_reject (mutex_lock (rq_room q)))
     else (True, mutex_unlock (cond_notify (push_commit
            (push_write (header_of_frame f) (fr_payload f) (mutex_lock (rq_room q)))))))"
proof -
  have inv: "rq_inv (mutex_lock q)" using assms(1) by simp
  have "(of_nat (length (fr_payload f)) :: u32) \<noteq> 0"
    using assms(2) unat_len [of "fr_payload f"] by (auto simp: frame_ok_def simp flip: unat_eq_zero)
  then show ?thesis
    using assms push_make_room_inv [OF inv, folded rq_room_def]
    by (auto simp: push_frame_def push_def frame_ok_def unat_len Let_def rq_inv_def rq_geometry_def
        header_of_frame_def rq_core_lock_room)
qed

lemma header_of_frame_roundtrip:
  "length (fr_payload f) < 2 ^ 32 \<Longrightarrow>
   frame_of_header (header_of_frame f) (take (unat (sh_len (header_of_frame f))) (fr_payload f)) = f"
  by (cases f) (simp add: frame_of_header_def header_of_frame_def unat_len)

lemma push_accept:
  assumes "rq_inv q" and "frame_ok q f" and "\<not> slot_in_use q ! head q"
  defines "q' \<equiv> mutex_unlock (cond_notify (push_commit
            (push_write (header_of_frame f) (fr_payload f) (mutex_lock (rq_room q)))))"
  shows "rq_inv q'" "rq_frames q' = aq_push (capacity q) f (rq_frames q)" "rq_held q' = rq_held q"
    "frames_pushed q' = frames_pushed q + 1" "frames_dropped q' = frames_dropped q + rq_evictions q"
    "frames_popped q' = frames_popped q" "\<not> mutex_locked q'" "capacity q' = capacity q"
    "max_frame_size q' = max_frame_size q" "slot_stride q' = slot_stride q" "slot_in_use q' = slot_in_use q"
proof -
  let ?r = "mutex_lock (rq_room q)" and ?h = "header_of_frame f"
  have r: "rq_inv ?r" "rq_count ?r < capacity ?r" "\<not> slot_in_use ?r ! head ?r"
      "unat (sh_len ?h) \<le> max_frame_size ?r" "rq_frames ?r = (if rq_count q < capacity q then rq_frames q else tl (rq_frames q))"
    using rq_room_inv [OF assms(1)] assms(2,3)
    by (simp_all add: frame_ok_def header_of_frame_def unat_len)
  have l: "unat (sh_len ?h) = length (fr_payload f)" "0 < sh_len ?h" "unat (sh_len ?h) \<le> length (fr_payload f)"
    using assms(2) unat_len [of "fr_payload f"]
    by (auto simp: header_of_frame_def frame_ok_def word_less_nat_alt)
  note pw = push_write_commit [OF r(1,2,3) l(2) r(4) l(3)]
  show "rq_inv q'" using pw(1) by (simp add: q'_def)
  show "rq_frames q' = aq_push (capacity q) f (rq_frames q)"
    using pw(2) r(5) assms(2) header_of_frame_roundtrip [of f]
    by (simp add: q'_def aq_push_def frame_ok_def l(1))
  show "rq_held q' = rq_held q"
    by (simp add: q'_def rq_held_eq)
qed (simp_all add: q'_def, simp_all add: push_commit_def)

section \<open>Pop and release\<close>

text \<open>The frame a packet shows when its data pointer is read in the given queue state.\<close>

definition packet_frame :: "ring_queue \<Rightarrow> FramePacket \<Rightarrow> frame" where
  "packet_frame q pkt =
     \<lparr> fr_seq = pkt_seq pkt, fr_timestamp_ns = pkt_timestamp_ns pkt, fr_pixel_format = pkt_pixel_format pkt,
       fr_width = pkt_width pkt, fr_height = pkt_height pkt,
       fr_payload = mem_read (rq_mem q) (pkt_data pkt) (unat (pkt_len pkt)) \<rparr>"

text \<open>A packet that \<open>pop\<close> handed out and that has not been freed.\<close>

definition packet_live :: "ring_queue \<Rightarrow> FramePacket \<Rightarrow> bool" where
  "packet_live q pkt \<longleftrightarrow> pkt_slot_idx pkt \<in> rq_held q \<and> pkt_release_fn pkt
     \<and> pkt_data pkt = slotData (slot_stride q) (pkt_slot_idx pkt)
     \<and> 0 < pkt_len pkt \<and> unat (pkt_len pkt) \<le> max_frame_size q"

definition rq_pop_state :: "ring_queue \<Rightarrow> ring_queue" where
  "rq_pop_state q = q\<lparr>slot_in_use := (slot_in_use q)[tail q := True], tail := (tail q + 1) mod capacity q,
     rq_count := rq_count q - 1, frames_popped := frames_popped q + 1\<rparr>"

lemma pop_take_eq: "pop_take q = (tail q, slot_header q (tail q), rq_pop_state q)"
  by (simp add: pop_take_def rq_pop_state_def slot_header_def Let_def)

lemma rq_pop_state_fields [simp]:
  "rq_mem (rq_pop_state q) = rq_mem q" "slot_stride (rq_pop_state q) = slot_stride q"
  "capacity (rq_pop_state q) = capacity q" "max_frame_size (rq_pop_state q) = max_frame_size q"
  "shutdown_flag (rq_pop_state q) = shutdown_flag q" "frames_pushed (rq_pop_state q) = frames_pushed q"
  "frames_dropped (rq_pop_state q) = frames_dropped q" "frames_popped (rq_pop_state q) = frames_popped q + 1"
  "slot_header (rq_pop_state q) = slot_header q" "slot_frame (rq_pop_state q) = slot_frame q"
  by (simp_all add: rq_pop_state_def)

lemma rq_pop_state_frames:
  assumes "rq_inv q" and "0 < rq_count q"
  shows "rq_slots (rq_pop_state q) = tl (rq_slots q)" "rq_frames (rq_pop_state q) = tl (rq_frames q)"
proof -
  show s: "rq_slots (rq_pop_state q) = tl (rq_slots q)"
    using assms by (subst (2) rq_slots_Cons) (simp_all add: rq_slots_def rq_pop_state_def)
  show "rq_frames (rq_pop_state q) = tl (rq_frames q)"
    by (simp add: rq_frames_def s map_tl)
qed

lemma rq_pop_state_inv:
  assumes "rq_inv q" and "0 < rq_count q"
  shows "rq_inv (rq_pop_state q)" and "rq_held (rq_pop_state q) = insert (tail q) (rq_held q)"
proof -
  let ?q = "rq_pop_state q"
  obtain ss where ss: "rq_slots q = tail q # ss" using assms rq_slots_Cons by blast
  then have ts: "rq_slots ?q = ss" and nin: "tail q \<notin> set ss"
    using rq_pop_state_frames(1) [OF assms] distinct_rq_slots [OF assms(1)] by auto
  have len: "length (slot_in_use q) = capacity q" "tail q < capacity q"
    using assms(1) by (auto simp: rq_inv_def rq_geometry_def)
  have "\<forall>i\<in>set ss. \<not> slot_in_use ?q ! i \<and> slot_len_ok ?q i"
  proof
    fix i assume i: "i \<in> set ss"
    then have "i \<noteq> tail q" using nin by auto
    then show "\<not> slot_in_use ?q ! i \<and> slot_len_ok ?q i"
      using assms(1) ss i by (simp add: rq_inv_def slot_len_ok_def) (simp add: rq_pop_state_def)
  qed
  moreover have "head q = ((tail q + 1) mod capacity q + (rq_count q - 1)) mod capacity q"
    using assms by (cases "rq_count q") (simp_all add: rq_inv_def ring_simps)
  ultimately show "rq_inv ?q"
    using assms unfolding rq_inv_def ts
    by (auto simp: rq_geometry_def) (auto simp: rq_pop_state_def)
  show "rq_held ?q = insert (tail q) (rq_held q)"
    using len by (auto simp: rq_held_eq rq_pop_state_def nth_list_update)
qed

lemma hd_rq_frames: "rq_inv q \<Longrightarrow> 0 < rq_count q \<Longrightarrow> hd (rq_frames q) = slot_frame q (tail q)"
  by (simp add: rq_frames_def) (subst rq_slots_Cons; simp)

lemma packet_of_pop:
  assumes "rq_inv q" and "0 < rq_count q"
  defines "pkt \<equiv> make_packet (mutex_unlock (rq_pop_state q)) (tail q) (slot_header q (tail q))"
  shows "packet_live (mutex_unlock (rq_pop_state q)) pkt"
    and "packet_frame (mutex_unlock (rq_pop_state q)) pkt = hd (rq_frames q)"
    and "pkt_slot_idx pkt = tail q"
proof -
  have "tail q \<in> set (rq_slots q)" using assms(1,2) by (subst rq_slots_Cons) simp_all
  then have "slot_len_ok q (tail q)" using assms(1) by (simp add: rq_inv_def)
  then show "packet_live (mutex_unlock (rq_pop_state q)) pkt"
    using assms(1,2) by (simp add: packet_live_def pkt_def make_packet_def slot_len_ok_def rq_pop_state_inv)
  show "packet_frame (mutex_unlock (rq_pop_state q)) pkt = hd (rq_frames q)"
    using assms(1,2)
    by (simp add: packet_frame_def pkt_def make_packet_def hd_rq_frames slot_frame_def frame_of_header_def)
qed (simp add: pkt_def make_packet_def)

lemma releaseSlot_inv:
  assumes "rq_inv q"
  shows "rq_inv (releaseSlot i q)" "rq_frames (releaseSlot i q) = rq_frames q"
    "rq_held (releaseSlot i q) = rq_held q - {i}"
proof -
  have s: "rq_slots (releaseSlot i q) = rq_slots q"
    by (simp add: rq_slots_def releaseSlot_def)
  have u: "(slot_in_use q)[i := False] ! j \<longrightarrow> slot_in_use q ! j" if "j < capacity q" for j
    using that assms by (cases "i = j") (auto simp: rq_inv_def rq_geometry_def)
  have "\<forall>j\<in>set (rq_slots q). \<not> slot_in_use (releaseSlot i q) ! j \<and> slot_len_ok (releaseSlot i q) j"
    using assms u rq_slots_less [OF assms]
    by (auto simp: rq_inv_def slot_len_ok_def) (auto simp: releaseSlot_def)
  then show "rq_inv (releaseSlot i q)"
    using assms unfolding rq_inv_def s by (auto simp: rq_geometry_def releaseSlot_def)
  show "rq_frames (releaseSlot i q) = rq_frames q"
    by (simp add: rq_frames_def s)
  show "rq_held (releaseSlot i q) = rq_held q - {i}"
  proof -
    have "length (slot_in_use q) = capacity q" using assms by (simp add: rq_inv_def rq_geometry_def)
    then have "(slot_in_use q)[i := False] ! j = (slot_in_use q ! j \<and> j \<noteq> i)" if "j < capacity q" for j
      using that by (cases "i = j") auto
    then show ?thesis by (auto simp: rq_held_eq releaseSlot_def)
  qed
qed

text \<open>
  A live packet keeps its contents through a write at a free head slot: its own slot is
  held, so it is another one.
\<close>

lemma packet_survives_write:
  assumes "packet_live q pkt" and "push_fits hdr q" and "\<not> slot_in_use q ! head q"
  shows "packet_frame (push_write hdr bs q) pkt = packet_frame q pkt"
proof -
  have "pkt_slot_idx pkt \<noteq> head q" using assms(1,3) by (auto simp: packet_live_def rq_held_eq)
  moreover have "28 + max_frame_size q \<le> slot_stride q"
    using assms(2) by (simp add: push_fits_def rq_geometry_def)
  ultimately have "mem_read (rq_mem (push_write hdr bs q)) (pkt_data pkt) (unat (pkt_len pkt))
      = mem_read (rq_mem q) (pkt_data pkt) (unat (pkt_len pkt))"
    using assms(1)
    by (intro push_write_other_slot [OF assms(2), where i = "pkt_slot_idx pkt"])
      (auto simp: packet_live_def slotData_def)
  then show ?thesis by (simp add: packet_frame_def)
qed

lemma packet_frame_cong: "rq_mem q' = rq_mem q \<Longrightarrow> packet_frame q' pkt = packet_frame q pkt"
  by (simp add: packet_frame_def)

lemma packet_live_cong:
  "rq_held q' = rq_held q \<Longrightarrow> slot_stride q' = slot_stride q \<Longrightarrow> max_frame_size q' = max_frame_size q
   \<Longrightarrow> packet_live q' pkt = packet_live q pkt"
  by (simp add: packet_live_def)

lemma releaseSlot_fields [simp]:
  "rq_mem (releaseSlot i q) = rq_mem q" "slot_stride (releaseSlot i q) = slot_stride q"
  "max_frame_size (releaseSlot i q) = max_frame_size q" "mutex_locked (releaseSlot i q) = mutex_locked q"
  "capacity (releaseSlot i q) = capacity q" "shutdown_flag (releaseSlot i q) = shutdown_flag q"
  "packet_frame (releaseSlot i q) = packet_frame q"
  by (simp_all add: releaseSlot_def packet_frame_def fun_eq_iff)

lemma rq_shutdown_fields [simp]:
  "rq_mem (rq_shutdown q) = rq_mem q" "slot_stride (rq_shutdown q) = slot_stride q"
  "max_frame_size (rq_shutdown q) = max_frame_size q" "\<not> mutex_locked (rq_shutdown q)"
  "capacity (rq_shutdown q) = capacity q" "shutdown_flag (rq_shutdown q)"
  "head (rq_shutdown q) = head q" "rq_count (rq_shutdown q) = rq_count q" "mmap_base (rq_shutdown q) = mmap_base q"
  "packet_frame (rq_shutdown q) = packet_frame q" "packet_live (rq_shutdown q) = packet_live q"
  by (simp_all add: rq_shutdown_def Let_def packet_frame_def packet_live_def fun_eq_iff rq_held_eq)

section \<open>Construction\<close>

lemma RingQueue_new_inv:
  assumes valid: "isValid (RingQueue_new mmap_ok malloc_ok cap maxsz)"
    and nowrap: "(unat maxsz + 91) * unat cap < 2 ^ 64"
  shows "rq_inv (RingQueue_new mmap_ok malloc_ok cap maxsz)"
    "rq_frames (RingQueue_new mmap_ok malloc_ok cap maxsz) = []"
    "rq_held (RingQueue_new mmap_ok malloc_ok cap maxsz) = {}"
proof -
  let ?q = "RingQueue_new mmap_ok malloc_ok cap maxsz"
  let ?s = "calcStride maxsz"
  have nz: "cap \<noteq> 0" "maxsz \<noteq> 0"
    using valid by (auto simp: RingQueue_new_def isValid_def empty_queue_def Let_def split: if_splits)
  have q: "?q = (empty_queue cap maxsz)\<lparr>slot_stride := unat ?s, mmap_base := Some (replicate (unat (?s * cap)) 0),
      slot_in_use := replicate (unat cap) False\<rparr>"
    using valid by (auto simp: RingQueue_new_def isValid_def empty_queue_def Let_def split: if_splits)
  have pos: "0 < unat cap" using nz(1) by (simp add: unat_gt_0)
  have "(unat maxsz + 91) * 1 \<le> (unat maxsz + 91) * unat cap"
    by (rule mult_le_mono2) (use pos in simp)
  then have "unat maxsz + 91 < 2 ^ 64" using nowrap by (simp only: mult_1_right)
  then have s: "unat ?s = (unat maxsz + 91) div 64 * 64" by (rule unat_calcStride)
  have le: "unat ?s * unat cap \<le> (unat maxsz + 91) * unat cap"
    unfolding s by (rule mult_le_mono1) simp
  then have "unat ?s * unat cap < 2 ^ 64" using nowrap by (rule le_less_trans)
  then have "unat (?s * cap) = unat ?s * unat cap"
    by (simp add: unat_word_ariths)
  moreover have "28 + unat maxsz \<le> unat ?s" unfolding s by linarith
  ultimately show "rq_inv ?q"
    using pos unfolding q by (simp add: rq_inv_def rq_geometry_def rq_slots_def rq_mem_def empty_queue_def)
  show "rq_frames ?q = []" unfolding q by (simp add: rq_frames_def rq_slots_def empty_queue_def)
  show "rq_held ?q = {}" unfolding q by (simp add: rq_held_eq empty_queue_def)
qed

lemma RingQueue_new_counters [simp]:
  "frames_pushed (RingQueue_new mmap_ok malloc_ok cap maxsz) = 0"
  "frames_dropped (RingQueue_new mmap_ok malloc_ok cap maxsz) = 0"
  "frames_popped (RingQueue_new mmap_ok malloc_ok cap maxsz) = 0"
  "\<not> shutdown_flag (RingQueue_new mmap_ok malloc_ok cap maxsz)"
  by (simp_all add: RingQueue_new_def empty_queue_def Let_def)

section \<open>Properties\<close>

lemma unat_less_pow: "unat (x :: 'a::len word) < 2 ^ LENGTH('a)"
  by simp

lemma unat_of_nat_self: "of_nat (unat x) = (x :: 'a::len word)"
  by simp

lemma push_as_frame:
  assumes "unat len = length bs"
  shows "push seq ts (Some bs) len pf w h q = push_frame
    \<lparr> fr_seq = seq, fr_timestamp_ns = ts, fr_pixel_format = pf, fr_width = w, fr_height = h, fr_payload = bs \<rparr> q"
proof -
  have "(of_nat (length bs) :: u32) = len" using assms by (metis unat_of_nat_self)
  then show ?thesis by (simp add: push_frame_def)
qed

lemma push_frame_result:
  assumes "rq_inv q" and "frame_ok q f" and "\<not> shutdown_flag q"
  shows "\<exists>ok q'. push_frame f q = Some (ok, q') \<and> rq_inv q' \<and> \<not> mutex_locked q'
    \<and> (ok \<longleftrightarrow> head q \<notin> rq_held q) \<and> rq_held q' = rq_held q
    \<and> rq_frames q' = (if ok then aq_push (capacity q) f (rq_frames q) else rq_frames q)
    \<and> frames_pushed q' = frames_pushed q + (if ok then 1 else 0)
    \<and> frames_dropped q' = frames_dropped q + (if ok \<and> rq_count q < capacity q then 0 else 1)"
proof (cases "slot_in_use q ! head q")
  case True
  then have held: "head q \<in> rq_held q" using assms(1) by (simp add: rq_held_eq rq_inv_def)
  then have "rq_count q \<noteq> capacity q" using full_none_held [OF assms(1)] by auto
  then have room: "rq_room q = q" using assms(1) by (auto simp: rq_room_def rq_inv_def)
  show ?thesis
    using assms True held by (simp add: push_frame_eq room) (auto simp: push_reject_def)
next
  case False
  then have nh: "head q \<notin> rq_held q" by (simp add: rq_held_eq)
  show ?thesis
    using assms nh False push_accept [OF assms(1,2) False]
    by (auto simp: push_frame_eq rq_evictions_def)
qed

text \<open>
  Every refusal that \<open>push\<close> makes before it touches the ring (no region, no data, an
  empty frame, a frame above the maximum, a queue that is shut down) returns \<open>false\<close> and
  leaves the whole queue, counters included, as it was.
\<close>

lemma push_refusals_change_nothing:
  assumes "\<not> mutex_locked q"
    and "mmap_base q = None \<or> data = None \<or> len = 0 \<or> unat len > max_frame_size q \<or> shutdown_flag q"
  shows "push seq ts data len pf w h q = Some (False, q)"
  using assms
  by (cases data) (auto simp: push_def Let_def mutex_lock_def mutex_unlock_def)

text \<open>
  C11. \<open>push\<close> always returns, releases the mutex and keeps the invariant, whatever the
  frame and whether or not the queue is shut down. It accepts the frame exactly when the queue
  is not shut down, the frame is not empty and not above the maximum size, and the slot at
  the head is not held by the consumer; then the queued frames become those of a bounded
  list that drops its oldest element when full. A frame refused for its size or because of the
  shutdown leaves the whole queue as it was; one refused for a held slot leaves the queued
  frames and is counted as dropped.
\<close>

theorem push_refines_lossy_queue:
  fixes bs :: "byte list"
  assumes "rq_inv q" and "\<not> mutex_locked q" and "unat len = length bs"
  defines "takes \<equiv> \<not> shutdown_flag q \<and> 0 < length bs \<and> length bs \<le> max_frame_size q"
  shows "\<exists>ok q'. push seq ts (Some bs) len pf w h q = Some (ok, q') \<and> rq_inv q' \<and> \<not> mutex_locked q'
    \<and> (ok \<longleftrightarrow> takes \<and> head q \<notin> rq_held q) \<and> rq_held q' = rq_held q
    \<and> rq_frames q' = (if ok then aq_push (capacity q)
        \<lparr> fr_seq = seq, fr_timestamp_ns = ts, fr_pixel_format = pf, fr_width = w, fr_height = h,
          fr_payload = bs \<rparr> (rq_frames q) else rq_frames q)
    \<and> frames_pushed q' = frames_pushed q + (if ok then 1 else 0)
    \<and> frames_dropped q' = frames_dropped q + (if takes \<and> (\<not> ok \<or> rq_count q = capacity q) then 1 else 0)
    \<and> (\<not> takes \<longrightarrow> q' = q)"
proof (cases takes)
  case True
  let ?f = "\<lparr> fr_seq = seq, fr_timestamp_ns = ts, fr_pixel_format = pf, fr_width = w, fr_height = h, fr_payload = bs \<rparr>"
  have "length bs < 2 ^ 32" using assms(3) unat_less_pow [of len] by simp
  then have f: "frame_ok q ?f" "\<not> shutdown_flag q" using True by (simp_all add: frame_ok_def takes_def)
  have "rq_count q = capacity q \<longleftrightarrow> \<not> rq_count q < capacity q" using assms(1) by (auto simp: rq_inv_def)
  then show ?thesis
    unfolding push_as_frame [OF assms(3)] using push_frame_result [OF assms(1) f] True by auto
next
  case False
  then have "push seq ts (Some bs) len pf w h q = Some (False, q)"
    using assms(2,3) by (intro push_refusals_change_nothing) (auto simp: takes_def unat_eq_zero [symmetric])
  then show ?thesis using assms(1,2) False by auto
qed

definition demo_queue :: ring_queue where
  "demo_queue = RingQueue_new (\<lambda>_. True) (\<lambda>_. True) 2 4"

lemma demo_queue_inv: "rq_inv demo_queue" "\<not> shutdown_flag demo_queue"
  "max_frame_size demo_queue = 4" "rq_frames demo_queue = []" "rq_held demo_queue = {}"
proof -
  have "isValid demo_queue"
    by (simp add: demo_queue_def isValid_def RingQueue_new_def Let_def)
  then show "rq_inv demo_queue" "rq_frames demo_queue = []" "rq_held demo_queue = {}"
    unfolding demo_queue_def by (intro RingQueue_new_inv; simp)+
qed (simp_all add: demo_queue_def RingQueue_new_def Let_def empty_queue_def)

lemma demo_queue_unlocked: "\<not> mutex_locked demo_queue"
  by (simp add: demo_queue_def RingQueue_new_def Let_def empty_queue_def)

theorem push_refines_lossy_queue_witness:
  "rq_inv demo_queue \<and> (\<exists>ok q'. push 7 9 (Some [1, 2, 3]) 3 0 4 5 demo_queue = Some (ok, q') \<and> ok
    \<and> map fr_payload (rq_frames q') = [[1, 2, 3]])"
  using push_refines_lossy_queue [OF demo_queue_inv(1) demo_queue_unlocked, of 3 "[1, 2, 3]" 7 9 0 4 5] demo_queue_inv
  by (auto simp: aq_push_def)

lemma push_refusals_change_nothing_example:
  "push 0 0 (Some [1, 2, 3, 4, 5]) 5 0 1 1 demo_queue = Some (False, demo_queue)"
  by (rule push_refusals_change_nothing)
    (simp_all add: demo_queue_inv, simp add: demo_queue_def RingQueue_new_def Let_def empty_queue_def)

lemma pop_finish_take:
  assumes "rq_inv q" and "0 < rq_count q" and "malloc_packet env w = (True, w')"
  defines "q' \<equiv> mutex_unlock (rq_pop_state q)"
  shows "pop_finish env w q = (Some (make_packet q' (tail q) (slot_header q (tail q))), q', w')"
  using assms by (simp add: pop_finish_def pop_take_eq Let_def)

lemma pop_finish_inv:
  assumes "rq_inv q" and "pop_finish env w q = (r, q', w')"
  shows "rq_inv q' \<and> \<not> mutex_locked q' \<and> (\<forall>pkt. r = Some pkt \<longrightarrow>
    packet_live q' pkt \<and> rq_frames q = packet_frame q' pkt # rq_frames q')"
proof (cases "rq_count q = 0")
  case True
  then show ?thesis using assms by (auto simp: pop_finish_def)
next
  case False
  then have pos: "0 < rq_count q" by simp
  obtain ok w1 where m: "malloc_packet env w = (ok, w1)" by (cases "malloc_packet env w")
  have fr: "rq_frames q = hd (rq_frames q) # tl (rq_frames q)"
    using pos by (metis length_rq_frames length_greater_0_conv list.collapse)
  show ?thesis
  proof (cases ok)
    case True
    then show ?thesis
      using pop_finish_take [OF assms(1) pos, of env w w1] m assms packet_of_pop [OF assms(1) pos]
        rq_pop_state_inv(1) [OF assms(1) pos] rq_pop_state_frames(2) [OF assms(1) pos] fr
      by auto
  next
    case False
    have "rq_inv (mutex_unlock (rq_pop_state q))" using rq_pop_state_inv(1) [OF assms(1) pos] by simp
    moreover have "q' = releaseSlot (tail q) (mutex_unlock (rq_pop_state q))" "r = None"
      using False m assms(2) pos by (auto simp: pop_finish_def pop_take_eq Let_def)
    ultimately show ?thesis by (simp add: releaseSlot_inv)
  qed
qed

text \<open>No wait is needed when a frame is queued, whatever the timeout.\<close>

lemma pop_ready:
  assumes "mmap_base q \<noteq> None" and "0 < rq_count q" and "timeout = 0 \<longrightarrow> \<not> shutdown_flag q"
  shows "pop env timeout w q
    = Some (pop_finish env (if 0 < timeout then snd (clock_realtime env w) else w) (mutex_lock q))"
  using assms
  by (auto simp: pop_def Let_def pop_wait.simps [of env w] pop_timedwait.simps split: prod.splits)

lemma pop_gives_oldest:
  fixes env :: "'w rq_env"
  assumes "rq_inv q" and "0 < rq_count q" and "timeout = 0 \<longrightarrow> \<not> shutdown_flag q"
    and "\<And>w. fst (malloc_packet env w)"
  obtains pkt q' w' where "pop env timeout w q = Some (Some pkt, q', w')" "rq_inv q'"
    "rq_frames q = packet_frame q' pkt # rq_frames q'" "packet_live q' pkt"
proof -
  let ?w = "if 0 < timeout then snd (clock_realtime env w) else w"
  have p: "pop env timeout w q = Some (pop_finish env ?w (mutex_lock q))"
    using pop_ready [of q timeout env w] assms(1,2,3) by (auto simp: rq_inv_def rq_geometry_def)
  obtain w2 where m: "malloc_packet env ?w = (True, w2)" using assms(4) by (metis prod.collapse)
  have l: "rq_inv (mutex_lock q)" "0 < rq_count (mutex_lock q)" using assms(1,2) by simp_all
  note f = pop_finish_take [OF l m]
  show thesis using that p f pop_finish_inv [OF l(1) f] by auto
qed

text \<open>
  C12. When a frame is queued, \<open>pop\<close> with any timeout returns at once (with timeout 0 the
  queue must not be shut down), having released the mutex and kept the invariant. If the packet
  can be allocated, it returns the oldest frame: the packet's metadata and the bytes its data
  pointer shows are exactly that frame, the frame leaves the queue, its slot was free and is
  now held. If the allocation fails it returns nothing, the oldest frame is lost (though it is
  counted as popped) and its slot is free again.
\<close>

theorem pop_returns_oldest:
  fixes env :: "'w rq_env" and w :: 'w
  assumes "rq_inv q" and "0 < rq_count q" and "timeout = 0 \<longrightarrow> \<not> shutdown_flag q"
  defines "alloc \<equiv> fst (malloc_packet env (if 0 < timeout then snd (clock_realtime env w) else w))"
  shows "\<exists>r q' w'. pop env timeout w q = Some (r, q', w') \<and> rq_inv q' \<and> \<not> mutex_locked q'
    \<and> frames_popped q' = frames_popped q + 1
    \<and> (if alloc then \<exists>pkt. r = Some pkt \<and> rq_frames q = packet_frame q' pkt # rq_frames q' \<and> packet_live q' pkt
          \<and> pkt_slot_idx pkt \<notin> rq_held q \<and> rq_held q' = insert (pkt_slot_idx pkt) (rq_held q)
       else r = None \<and> rq_frames q' = tl (rq_frames q) \<and> rq_held q' = rq_held q)"
proof -
  let ?l = "mutex_lock q" and ?w = "if 0 < timeout then snd (clock_realtime env w) else w"
  have p: "pop env timeout w q = Some (pop_finish env ?w ?l)"
    using pop_ready [of q timeout env w] assms(1,2,3) by (auto simp: rq_inv_def rq_geometry_def)
  obtain w2 where m: "malloc_packet env ?w = (alloc, w2)"
    unfolding alloc_def by (metis prod.collapse)
  have l: "rq_inv ?l" "0 < rq_count ?l" using assms(1,2) by simp_all
  have tn: "tail q \<notin> rq_held q" using tail_not_in_use [OF assms(1,2)] by (simp add: rq_held_eq)
  show ?thesis
  proof (cases alloc)
    case True
    with m have "malloc_packet env ?w = (True, w2)" by simp
    note f = pop_finish_take [OF l this]
    show ?thesis
      using p f pop_finish_inv [OF l(1) f] packet_of_pop(3) [OF l] rq_pop_state_inv(2) [OF l] tn True
      by auto
  next
    case False
    let ?s = "mutex_unlock (rq_pop_state ?l)"
    have "rq_inv ?s" using rq_pop_state_inv(1) [OF l] by simp
    moreover have "pop_finish env ?w ?l = (None, releaseSlot (tail ?l) ?s, w2)"
      using False m l(2) by (simp add: pop_finish_def pop_take_eq)
    ultimately show ?thesis
      using p False tn releaseSlot_inv [of ?s "tail ?l"] rq_pop_state_inv(2) [OF l] rq_pop_state_frames(2) [OF l]
      by (simp add: releaseSlot_def)
  qed
qed

definition demo_env :: "unit rq_env" where
  "demo_env = \<lparr> clock_realtime = (\<lambda>w. (\<lparr> tv_sec = 0, tv_nsec = 0 \<rparr>, w)), cond_wait = (\<lambda>w q. (q, w)),
     cond_timedwait = (\<lambda>w ts q. (True, q, w)), malloc_packet = (\<lambda>w. (True, w)) \<rparr>"

definition demo_one :: ring_queue where
  "demo_one = snd (the (push 7 9 (Some [1, 2, 3]) 3 0 4 5 demo_queue))"

lemma demo_one_facts:
  "push 7 9 (Some [1, 2, 3]) 3 0 4 5 demo_queue = Some (True, demo_one)" "rq_inv demo_one"
  "map fr_payload (rq_frames demo_one) = [[1, 2, 3]]" "rq_count demo_one = 1"
proof -
  obtain ok q' where p: "push 7 9 (Some [1, 2, 3]) 3 0 4 5 demo_queue = Some (ok, q')" "ok" "rq_inv q'"
    "map fr_payload (rq_frames q') = [[1, 2, 3]]"
    using push_frame_result [OF demo_queue_inv(1), of "\<lparr> fr_seq = 7, fr_timestamp_ns = 9, fr_pixel_format = 0,
      fr_width = 4, fr_height = 5, fr_payload = [1, 2, 3] \<rparr>"] demo_queue_inv
    by (auto simp: push_frame_def frame_ok_def aq_push_def)
  then show 1: "push 7 9 (Some [1, 2, 3]) 3 0 4 5 demo_queue = Some (True, demo_one)" "rq_inv demo_one"
    and 2: "map fr_payload (rq_frames demo_one) = [[1, 2, 3]]"
    by (simp_all add: demo_one_def)
  show "rq_count demo_one = 1" using arg_cong [OF 2, of length] by simp
qed

theorem pop_returns_oldest_witness:
  "\<exists>pkt q' w'. pop demo_env 1000 () demo_one = Some (Some pkt, q', w')
    \<and> fr_payload (packet_frame q' pkt) = [1, 2, 3] \<and> rq_frames q' = []"
proof -
  have "\<exists>pkt q' w'. pop demo_env 1000 () demo_one = Some (Some pkt, q', w')
      \<and> rq_frames demo_one = packet_frame q' pkt # rq_frames q'"
    using pop_returns_oldest [of demo_one 1000 demo_env "()"] demo_one_facts
    by (auto simp: demo_env_def)
  then show ?thesis using demo_one_facts(3) by auto
qed

end
