(* ===== verification/Ring_Queue_Runs.thy ===== *)
theory Ring_Queue_Runs
  imports Ring_Queue
begin

text \<open>
  Runs of the frame queue: blocking \<open>pop\<close> with other threads active during the wait, any
  interleaving of the queue's operations with the packets they hand out (zero-copy safety),
  the first-in first-out contract as an interpretation of \<open>lossy_fifo\<close>, the construction of
  the region, the back-pressure policy and shutdown.
\<close>

section \<open>Blocking pop\<close>

text \<open>
  What the waits may do to the queue: whatever the other threads do with the queue's own
  operations, which keep its invariant and its dimensions.
\<close>

definition env_keeps_inv :: "'w rq_env \<Rightarrow> bool" where
  "env_keeps_inv env \<longleftrightarrow>
     (\<forall>w q. rq_inv q \<longrightarrow> rq_inv (fst (cond_wait env w q)))
   \<and> (\<forall>w ts q. rq_inv q \<longrightarrow> rq_inv (fst (snd (cond_timedwait env w ts q))))"

text \<open>
  Spurious or stolen wake-ups are finitely many: a wait that neither times out nor leaves
  the queue ready brings the given measure of the environment down.
\<close>

definition timedwait_progress :: "('w \<Rightarrow> nat) \<Rightarrow> 'w rq_env \<Rightarrow> bool" where
  "timedwait_progress m env \<longleftrightarrow>
     (\<forall>w ts q q' w'. cond_timedwait env w ts q = (False, q', w') \<longrightarrow>
        m w' < m w \<or> 0 < rq_count q' \<or> shutdown_flag q')"

lemma pop_timedwait_returns:
  assumes "timedwait_progress m env"
  shows "\<exists>r. pop_timedwait env ts w q = Some r"
proof (induction "m w" arbitrary: w q rule: less_induct)
  case less
  show ?case
  proof (cases "rq_count q = 0 \<and> \<not> shutdown_flag q")
    case True
    obtain b q' w' where c: "cond_timedwait env w ts (mutex_unlock q) = (b, q', w')"
      by (cases "cond_timedwait env w ts (mutex_unlock q)") auto
    have step: "pop_timedwait env ts w q
        = (if b then Some (True, mutex_lock q', w') else pop_timedwait env ts w' (mutex_lock q'))"
      using True c by (subst pop_timedwait.simps) simp
    show ?thesis
    proof (cases "\<not> b \<and> m w' < m w")
      case True
      then show ?thesis using less.hyps [of w' "mutex_lock q'"] step by simp
    next
      case False
      then have "b \<or> 0 < rq_count q' \<or> shutdown_flag q'"
        using assms c unfolding timedwait_progress_def by (metis (full_types))
      then show ?thesis
        using step by (auto simp: pop_timedwait.simps [of env ts w'])
    qed
  next
    case False
    then show ?thesis by (subst pop_timedwait.simps) auto
  qed
qed

text \<open>
  A property of the queue that every wait keeps, under the unlock and lock around it, holds
  when the wait loops end, and \<open>pop\<close> enters its critical section in such a state.
\<close>

definition wait_keeps :: "(ring_queue \<Rightarrow> bool) \<Rightarrow> 'w rq_env \<Rightarrow> bool" where
  "wait_keeps Q env \<longleftrightarrow>
     (\<forall>w q. Q q \<longrightarrow> Q (mutex_lock (fst (cond_wait env w (mutex_unlock q)))))
   \<and> (\<forall>w ts q. Q q \<longrightarrow> Q (mutex_lock (fst (snd (cond_timedwait env w ts (mutex_unlock q))))))"

lemma pop_timedwait_keeps:
  assumes "pop_timedwait env ts w q = Some r" and "wait_keeps Q env" and "Q q"
  shows "Q (fst (snd r))"
proof -
  have "env = env \<longrightarrow> Q q \<longrightarrow> Q (fst (snd r))"
  proof (rule pop_timedwait.raw_induct
      [where P = "\<lambda>env' ts' w q r. env' = env \<longrightarrow> Q q \<longrightarrow> Q (fst (snd r))", OF _ assms(1)], intro impI)
    fix f env' ts' w q r
    assume IH: "\<And>env' ts' w q r. f env' ts' w q = Some r \<Longrightarrow> env' = env \<longrightarrow> Q q \<longrightarrow> Q (fst (snd r))"
      and eq: "(if rq_count q = 0 \<and> \<not> shutdown_flag q then
        (case cond_timedwait env' w ts' (mutex_unlock q) of (timedout, q', w') \<Rightarrow>
           if timedout then Some (True, mutex_lock q', w') else f env' ts' w' (mutex_lock q'))
      else Some (False, q, w)) = Some r" and e: "env' = env" and q: "Q q"
    obtain b q' w' where c: "cond_timedwait env w ts' (mutex_unlock q) = (b, q', w')"
      by (cases "cond_timedwait env w ts' (mutex_unlock q)") auto
    have "Q (mutex_lock (fst (snd (cond_timedwait env w ts' (mutex_unlock q)))))"
      using assms(2) q unfolding wait_keeps_def by blast
    then show "Q (fst (snd r))"
      using eq c e q IH [of env ts' w' "mutex_lock q'" r] by (auto split: if_splits)
  qed
  then show ?thesis using assms(3) by simp
qed

lemma pop_wait_keeps:
  assumes "pop_wait env w q = Some r" and "wait_keeps Q env" and "Q q"
  shows "Q (fst r)"
proof -
  have "env = env \<longrightarrow> Q q \<longrightarrow> Q (fst r)"
  proof (rule pop_wait.raw_induct
      [where P = "\<lambda>env' w q r. env' = env \<longrightarrow> Q q \<longrightarrow> Q (fst r)", OF _ assms(1)], intro impI)
    fix f env' w q r
    assume IH: "\<And>env' w q r. f env' w q = Some r \<Longrightarrow> env' = env \<longrightarrow> Q q \<longrightarrow> Q (fst r)"
      and eq: "(if rq_count q = 0 \<and> \<not> shutdown_flag q then
        (case cond_wait env' w (mutex_unlock q) of (q', w') \<Rightarrow> f env' w' (mutex_lock q'))
      else Some (q, w)) = Some r" and e: "env' = env" and q: "Q q"
    obtain q' w' where c: "cond_wait env w (mutex_unlock q) = (q', w')"
      by (cases "cond_wait env w (mutex_unlock q)") auto
    have "Q (mutex_lock (fst (cond_wait env w (mutex_unlock q))))"
      using assms(2) q unfolding wait_keeps_def by blast
    then show "Q (fst r)"
      using eq c e q IH [of env w' "mutex_lock q'" r] by (auto split: if_splits)
  qed
  then show ?thesis using assms(3) by simp
qed

lemma pop_critical_section:
  assumes "pop env timeout w q = Some (r, q', w')" and "mmap_base q \<noteq> None"
    and "wait_keeps Q env" and "Q (mutex_lock q)"
  obtains q1 w1 where "Q q1" "(r = None \<and> q' = mutex_unlock q1) \<or> pop_finish env w1 q1 = (r, q', w')"
proof -
  consider (forever) "timeout < 0" | (now) "timeout = 0" | (timed) "timeout > 0" by linarith
  then show ?thesis
  proof cases
    case forever
    then obtain q1 w1 where p: "pop_wait env w (mutex_lock q) = Some (q1, w1)" "pop_finish env w1 q1 = (r, q', w')"
      using assms(1,2) by (auto simp: pop_def Let_def bind_eq_Some_conv)
    then show ?thesis using that pop_wait_keeps [OF p(1) assms(3,4)] by auto
  next
    case now
    then show ?thesis
      using that [of "mutex_lock q"] assms(1,2,4) by (auto simp: pop_def Let_def split: if_splits)
  next
    case timed
    obtain t w0 where c: "clock_realtime env w = (t, w0)" by (cases "clock_realtime env w")
    with timed obtain to q1 w1 where t: "pop_timedwait env (pop_deadline t timeout) w0 (mutex_lock q) = Some (to, q1, w1)"
      and e: "(if to then (None, mutex_unlock q1, w1) else pop_finish env w1 q1) = (r, q', w')"
      using assms(1,2) by (auto simp: pop_def Let_def bind_eq_Some_conv split: if_splits)
    have "Q q1" using pop_timedwait_keeps [OF t assms(3,4)] by simp
    then show ?thesis using that e by (cases to) auto
  qed
qed

lemma env_keeps_inv_waits: "env_keeps_inv env \<Longrightarrow> wait_keeps rq_inv env"
  by (simp add: wait_keeps_def env_keeps_inv_def)

lemma pop_finish_result:
  assumes "rq_inv q" and "(r, q', w') = pop_finish env w q"
  shows "rq_inv q' \<and> \<not> mutex_locked q' \<and> (\<forall>pkt. r = Some pkt \<longrightarrow> packet_live q' pkt)"
  using pop_finish_inv [OF assms(1) assms(2) [symmetric]] by blast

text \<open>
  However the other threads use the queue during the wait, a \<open>pop\<close> that returns, with
  any timeout, has released the mutex, left the invariant intact, and handed out a packet
  whose slot is held and whose payload lies within it, or none.
\<close>

lemma pop_keeps_invariant:
  assumes "env_keeps_inv env" and "rq_inv q" and "pop env timeout w q = Some (r, q', w')"
  shows "rq_inv q' \<and> \<not> mutex_locked q' \<and> (\<forall>pkt. r = Some pkt \<longrightarrow> packet_live q' pkt)"
proof -
  have "mmap_base q \<noteq> None" using assms(2) by (simp add: rq_inv_def rq_geometry_def)
  moreover have "rq_inv (mutex_lock q)" using assms(2) by simp
  ultimately obtain q1 w1 where "rq_inv q1" "(r = None \<and> q' = mutex_unlock q1) \<or> pop_finish env w1 q1 = (r, q', w')"
    using pop_critical_section [OF assms(3) _ env_keeps_inv_waits [OF assms(1)]] by blast
  then show ?thesis using pop_finish_result [of q1 r q' w' env w1] by auto
qed

lemma demo_env_ok: "env_keeps_inv demo_env" "timedwait_progress (\<lambda>_. 0) demo_env"
  by (simp_all add: env_keeps_inv_def timedwait_progress_def demo_env_def)

lemma demo_pop_empty: "\<exists>q'. pop demo_env 1000 () demo_queue = Some (None, q', ())"
proof -
  have "mmap_base demo_queue \<noteq> None" "rq_count demo_queue = 0"
    using demo_queue_inv(1) arg_cong [OF demo_queue_inv(4), of length]
    by (simp_all add: rq_inv_def rq_geometry_def)
  then show ?thesis
    using demo_queue_inv(2)
    by (auto simp: pop_def Let_def demo_env_def pop_timedwait.simps)
qed

lemma pop_keeps_invariant_example:
  "\<exists>q'. pop demo_env 1000 () demo_queue = Some (None, q', ()) \<and> rq_inv q' \<and> \<not> mutex_locked q'"
  using demo_pop_empty pop_keeps_invariant [OF demo_env_ok(1) demo_queue_inv(1)] by blast

lemma pop_timed_returns:
  assumes "timedwait_progress m env" and "0 \<le> timeout"
  shows "\<exists>r. pop env timeout w q = Some r"
proof -
  have "\<exists>r. (do { (timedout, q, w) \<leftarrow> pop_timedwait env ts w0 (mutex_lock q);
      if timedout then Some (None, mutex_unlock q, w) else Some (pop_finish env w q) }) = Some r" for ts w0
  proof -
    obtain b q' w' where "pop_timedwait env ts w0 (mutex_lock q) = Some (b, q', w')"
      using pop_timedwait_returns [OF assms(1), of ts w0 "mutex_lock q"] by (metis prod_cases3)
    then show ?thesis by (cases b; cases "pop_finish env w' q'") simp_all
  qed
  then show ?thesis
    using assms(2) by (cases "pop_finish env w (mutex_lock q)") (simp add: pop_def Let_def split: prod.split)
qed

text \<open>
  A \<open>pop\<close> with a positive timeout always returns, provided the wait does not wake up
  without cause for ever; and every \<open>pop\<close> with timeout 0 returns.
\<close>

lemma pop_with_timeout_returns:
  assumes "timedwait_progress m env" and "0 \<le> timeout"
  shows "\<exists>r. pop env timeout w q = Some r"
  by (rule pop_timed_returns [OF assms])

lemma pop_with_timeout_returns_example: "\<exists>r. pop demo_env 1000 () demo_queue = Some r"
  by (rule pop_with_timeout_returns [OF demo_env_ok(2)]) simp

text \<open>
  The absolute deadline that \<open>pop\<close> computes is the current time plus the timeout, and
  it is a normalised time: its nanoseconds stay below one second.
\<close>

lemma pop_deadline_correct:
  assumes "0 \<le> tv_nsec ts" and "tv_nsec ts < 1000000000" and "0 < timeout"
  shows "0 \<le> tv_nsec (pop_deadline ts timeout) \<and> tv_nsec (pop_deadline ts timeout) < 1000000000
    \<and> tv_sec (pop_deadline ts timeout) * 1000000000 + tv_nsec (pop_deadline ts timeout)
      = tv_sec ts * 1000000000 + tv_nsec ts + timeout * 1000000"
proof -
  have "timeout div 1000 * 1000000000 + timeout mod 1000 * 1000000 = timeout * 1000000"
    using div_mult_mod_eq [of timeout 1000] by linarith
  moreover have "0 \<le> timeout mod 1000" "timeout mod 1000 < 1000" by simp_all
  ultimately show ?thesis
    using assms unfolding pop_deadline_def Let_def by auto
qed

lemma pop_deadline_correct_example:
  "tv_sec (pop_deadline \<lparr> tv_sec = 5, tv_nsec = 999999999 \<rparr> 1500) = 7
   \<and> 0 \<le> tv_nsec (pop_deadline \<lparr> tv_sec = 5, tv_nsec = 999999999 \<rparr> 1500)"
  using pop_deadline_correct [of "\<lparr> tv_sec = 5, tv_nsec = 999999999 \<rparr>" 1500]
  by (simp add: pop_deadline_def)

section \<open>Runs of the queue\<close>

text \<open>
  During a run the other threads' operations are steps of their own, so the waits of a
  \<open>pop\<close> step leave the queue alone.
\<close>

definition env_idle :: "'w rq_env \<Rightarrow> bool" where
  "env_idle env \<longleftrightarrow> (\<forall>w q. fst (cond_wait env w q) = q) \<and> (\<forall>w ts q. fst (snd (cond_timedwait env w ts q)) = q)"

lemma mutex_lock_unlock: "mutex_locked q \<Longrightarrow> mutex_lock (mutex_unlock q) = q"
  by (simp add: mutex_lock_def mutex_unlock_def)

lemma mutex_unlock_lock: "\<not> mutex_locked q \<Longrightarrow> mutex_unlock (mutex_lock q) = q"
  by (simp add: mutex_lock_def mutex_unlock_def)

lemma env_idle_waits: "env_idle env \<Longrightarrow> mutex_locked q \<Longrightarrow> wait_keeps ((=) q) env"
  by (simp add: wait_keeps_def env_idle_def mutex_lock_unlock)

lemma pop_idle_cases:
  assumes "pop env timeout w q = Some (r, q', w')" and "env_idle env" and "\<not> mutex_locked q"
  shows "(r = None \<and> q' = q) \<or> (\<exists>w1. pop_finish env w1 (mutex_lock q) = (r, q', w'))"
proof (cases "mmap_base q = None")
  case True
  then show ?thesis using assms(1) by (simp add: pop_def)
next
  case False
  have "wait_keeps ((=) (mutex_lock q)) env" by (rule env_idle_waits [OF assms(2)]) simp
  from pop_critical_section [OF assms(1) False this] show ?thesis
    using mutex_unlock_lock [OF assms(3)] by metis
qed

text \<open>A frame that \<open>push\<close> refuses leaves the queue as it was.\<close>

lemma push_frame_refused:
  assumes "\<not> (frame_ok q f \<and> \<not> shutdown_flag q)" and "\<not> mutex_locked q" and "length (fr_payload f) < 2 ^ 32"
  shows "push_frame f q = Some (False, q)"
  unfolding push_frame_def using assms
  by (auto simp: push_def frame_ok_def unat_len Let_def mutex_lock_def mutex_unlock_def)

lemma push_frame_returns:
  assumes "rq_inv q" and "\<not> mutex_locked q" and "length (fr_payload f) < 2 ^ 32"
  shows "\<exists>r. push_frame f q = Some r"
  using push_frame_refused [OF _ assms(2,3)] push_frame_result [OF assms(1), of f] by blast

text \<open>What \<open>push\<close> and \<open>pop\<close> leave untouched for packets already handed out.\<close>

lemma push_frame_keeps:
  assumes "rq_inv q" and "\<not> mutex_locked q" and "length (fr_payload f) < 2 ^ 32" and "push_frame f q = Some (ok, q')"
  shows "rq_inv q' \<and> \<not> mutex_locked q' \<and> rq_held q' = rq_held q \<and> subseq (rq_frames q') (rq_frames q @ [f])
    \<and> (\<forall>pkt. packet_live q pkt \<longrightarrow> packet_live q' pkt \<and> packet_frame q' pkt = packet_frame q pkt)"
proof (cases "frame_ok q f \<and> \<not> shutdown_flag q")
  case False
  then have "push_frame f q = Some (False, q)" using push_frame_refused assms(2,3) by blast
  then show ?thesis using assms by auto
next
  case ok: True
  obtain ok1 q1 where res: "push_frame f q = Some (ok1, q1)" "rq_inv q1" "\<not> mutex_locked q1"
    "ok1 \<longleftrightarrow> head q \<notin> rq_held q" "rq_held q1 = rq_held q"
    "rq_frames q1 = (if ok1 then aq_push (capacity q) f (rq_frames q) else rq_frames q)"
    using push_frame_result [OF assms(1), of f] ok by blast
  then have q1: "q1 = q'" "ok1 = ok" using assms(4) by auto
  have "subseq (rq_frames q') (rq_frames q @ [f])"
    using res(6) q1 by (cases "rq_frames q") (auto simp: aq_push_def)
  moreover have "packet_live q' pkt \<and> packet_frame q' pkt = packet_frame q pkt" if live: "packet_live q pkt" for pkt
  proof (cases "slot_in_use q ! head q")
    case True
    then have "q' = push_reject (mutex_lock (rq_room q))"
      using push_frame_eq [OF assms(1)] ok assms(4) by auto
    then show ?thesis
      using live by (simp add: packet_live_def packet_frame_def) (simp add: push_reject_def)
  next
    case False
    let ?r = "mutex_lock (rq_room q)" and ?h = "header_of_frame f"
    have q': "q' = mutex_unlock (cond_notify (push_commit (push_write ?h (fr_payload f) ?r)))"
      using push_frame_eq [OF assms(1)] ok assms(4) False by auto
    have "push_fits ?h ?r"
      using rq_room_inv(1) [OF assms(1)] ok
      by (simp add: push_fits_def rq_inv_def frame_ok_def header_of_frame_def unat_len)
    moreover have "packet_live ?r pkt" using live by (simp add: packet_live_def)
    ultimately have "packet_frame (push_write ?h (fr_payload f) ?r) pkt = packet_frame ?r pkt"
      using False by (intro packet_survives_write) simp_all
    then show ?thesis
      using live res(5) q1 push_accept(9,10) [OF assms(1) _ False, of f] ok
      unfolding q' by (simp add: packet_frame_def packet_live_def)
  qed
  ultimately show ?thesis using res q1 by auto
qed

lemma pop_finish_keeps:
  assumes "rq_inv q" and "pop_finish env w q = (r, q', w')"
  shows "rq_held q' = (case r of None \<Rightarrow> rq_held q | Some pkt \<Rightarrow> insert (pkt_slot_idx pkt) (rq_held q))
    \<and> (\<forall>pkt. r = Some pkt \<longrightarrow> pkt_slot_idx pkt \<notin> rq_held q)
    \<and> subseq (rq_frames q') (rq_frames q)
    \<and> (\<forall>pkt. packet_live q pkt \<longrightarrow> packet_live q' pkt \<and> packet_frame q' pkt = packet_frame q pkt)"
proof (cases "rq_count q = 0")
  case True
  then show ?thesis using assms by (auto simp: pop_finish_def packet_live_def packet_frame_def)
next
  case False
  then have pos: "0 < rq_count q" by simp
  note st = rq_pop_state_inv [OF assms(1) pos] rq_pop_state_frames(2) [OF assms(1) pos]
  have tn: "tail q \<notin> rq_held q" using tail_not_in_use [OF assms(1) pos] by (simp add: rq_held_eq)
  have sub: "subseq (tl (rq_frames q)) (rq_frames q)" by (cases "rq_frames q") auto
  obtain ok w1 where m: "malloc_packet env w = (ok, w1)" by (cases "malloc_packet env w")
  show ?thesis
  proof (cases ok)
    case True
    then obtain pkt0 where q': "q' = mutex_unlock (rq_pop_state q)" and r: "r = Some pkt0"
        and "pkt0 = make_packet (mutex_unlock (rq_pop_state q)) (tail q) (slot_header q (tail q))"
      using pop_finish_take [OF assms(1) pos, of env w w1] m assms(2) by simp
    then have i: "pkt_slot_idx pkt0 = tail q" by (simp add: make_packet_def)
    show ?thesis
      unfolding q' r using st tn sub i by (simp add: packet_live_def packet_frame_def)
  next
    case False
    then have q': "q' = releaseSlot (tail q) (mutex_unlock (rq_pop_state q))" "r = None"
      using m assms(2) pos by (auto simp: pop_finish_def pop_take_eq Let_def)
    have inv: "rq_inv (mutex_unlock (rq_pop_state q))" using st by simp
    have "rq_mem q' = rq_mem q" "slot_stride q' = slot_stride q" "max_frame_size q' = max_frame_size q"
      unfolding q' by (simp_all add: releaseSlot_def)
    moreover have "rq_held q' = rq_held q" "rq_frames q' = tl (rq_frames q)"
      unfolding q' using releaseSlot_inv [OF inv] st tn by auto
    ultimately show ?thesis using q'(2) sub by (auto simp: packet_live_def packet_frame_def)
  qed
qed

text \<open>No operation changes the largest payload the queue accepts.\<close>

lemma push_frame_limit:
  assumes "rq_inv q" and "\<not> mutex_locked q" and "length (fr_payload f) < 2 ^ 32" and "push_frame f q = Some (ok, q')"
  shows "max_frame_size q' = max_frame_size q \<and> slot_stride q' = slot_stride q"
proof (cases "frame_ok q f \<and> \<not> shutdown_flag q")
  case False
  then have "push_frame f q = Some (False, q)" using push_frame_refused assms(2,3) by blast
  then show ?thesis using assms by auto
next
  case True
  then show ?thesis using push_frame_eq [OF assms(1)] assms(4)
    by (auto simp: push_reject_def push_commit_def split: if_splits)
qed

lemma pop_finish_limit: "pop_finish env w q = (r, q', w') \<Longrightarrow> max_frame_size q' = max_frame_size q"
  by (auto simp: pop_finish_def pop_take_eq Let_def split: if_splits prod.splits)

record rq_run =
  rr_queue :: ring_queue
  rr_offered :: "frame list"
  rr_delivered :: "frame list"
  rr_live :: "(FramePacket \<times> frame) list"

definition rr_init :: "rq_run \<Rightarrow> bool" where
  "rr_init s \<longleftrightarrow> rq_inv (rr_queue s) \<and> \<not> mutex_locked (rr_queue s) \<and> rq_held (rr_queue s) = {}
     \<and> rq_frames (rr_queue s) = [] \<and> rr_offered s = [] \<and> rr_delivered s = [] \<and> rr_live s = []"

text \<open>
  The queue's operations in any order: pushes of frames with a 32-bit length, pops with any
  timeout, frees of packets that are still out, shutdown. A step records what was offered,
  what a pop delivered, and which packets are out with the frame each one showed.
\<close>

inductive rq_step :: "rq_run \<Rightarrow> rq_run \<Rightarrow> bool" where
  step_push: "length (fr_payload f) < 2 ^ 32 \<Longrightarrow> push_frame f (rr_queue s) = Some (ok, q') \<Longrightarrow>
     rq_step s (s\<lparr>rr_queue := q', rr_offered := rr_offered s @ [f]\<rparr>)"
| step_pop: "env_idle (env :: nat rq_env) \<Longrightarrow> pop env timeout w (rr_queue s) = Some (Some pkt, q', w') \<Longrightarrow>
     rq_step s (s\<lparr>rr_queue := q', rr_delivered := rr_delivered s @ [packet_frame q' pkt],
                  rr_live := rr_live s @ [(pkt, packet_frame q' pkt)]\<rparr>)"
| step_pop_none: "env_idle (env :: nat rq_env) \<Longrightarrow> pop env timeout w (rr_queue s) = Some (None, q', w') \<Longrightarrow>
     rq_step s (s\<lparr>rr_queue := q'\<rparr>)"
| step_free: "(pkt, f) \<in> set (rr_live s) \<Longrightarrow>
     rq_step s (s\<lparr>rr_queue := frame_packet_free (Some pkt) (rr_queue s),
                  rr_live := remove1 (pkt, f) (rr_live s)\<rparr>)"
| step_shutdown: "rq_step s (s\<lparr>rr_queue := rq_shutdown (rr_queue s)\<rparr>)"

definition live_slots :: "rq_run \<Rightarrow> nat list" where
  "live_slots s = map (pkt_slot_idx \<circ> fst) (rr_live s)"

definition rr_inv :: "rq_run \<Rightarrow> bool" where
  "rr_inv s \<longleftrightarrow> rq_inv (rr_queue s) \<and> \<not> mutex_locked (rr_queue s)
     \<and> distinct (live_slots s) \<and> set (live_slots s) = rq_held (rr_queue s)
     \<and> (\<forall>(pkt, f) \<in> set (rr_live s). packet_live (rr_queue s) pkt \<and> packet_frame (rr_queue s) pkt = f
          \<and> f \<in> set (rr_delivered s))
     \<and> subseq (rr_delivered s @ rq_frames (rr_queue s)) (rr_offered s)"

lemma rr_inv_live:
  assumes "rr_inv s" and "(p, g) \<in> set (rr_live s)"
  shows "packet_live (rr_queue s) p \<and> packet_frame (rr_queue s) p = g \<and> g \<in> set (rr_delivered s)"
proof -
  have "\<forall>x\<in>set (rr_live s). case x of (pkt, f) \<Rightarrow> packet_live (rr_queue s) pkt
      \<and> packet_frame (rr_queue s) pkt = f \<and> f \<in> set (rr_delivered s)"
    using assms(1) by (simp add: rr_inv_def)
  from bspec [OF this assms(2)] show ?thesis by simp
qed

text \<open>The packets that are out survive any step that keeps live packets and their contents.\<close>

lemma rr_live_carry:
  assumes "rr_inv s"
    and "\<And>p. packet_live (rr_queue s) p \<Longrightarrow> packet_live q' p \<and> packet_frame q' p = packet_frame (rr_queue s) p"
  shows "\<forall>(p, g) \<in> set (rr_live s). packet_live q' p \<and> packet_frame q' p = g \<and> g \<in> set (rr_delivered s)"
  using rr_inv_live [OF assms(1)] assms(2) by blast

lemma rr_inv_free:
  assumes inv: "rr_inv s" and mem: "(pkt, f) \<in> set (rr_live s)"
  shows "rr_inv (s\<lparr>rr_queue := frame_packet_free (Some pkt) (rr_queue s), rr_live := remove1 (pkt, f) (rr_live s)\<rparr>)"
    (is "rr_inv ?t")
proof -
  let ?q = "rr_queue s" and ?i = "pkt_slot_idx pkt"
  have live: "packet_live ?q pkt" and q: "rq_inv ?q" using inv mem by (auto simp: rr_inv_def)
  then have q': "rr_queue ?t = releaseSlot ?i ?q"
    by (simp add: frame_packet_free_def FramePacket_delete_def packet_live_def)
  obtain xs ys where sp: "rr_live s = xs @ (pkt, f) # ys" "(pkt, f) \<notin> set xs"
    using mem by (meson split_list_first)
  then have rl: "rr_live ?t = xs @ ys" by (simp add: remove1_append)
  have hs: "set (live_slots s) = rq_held ?q" using inv by (simp add: rr_inv_def)
  have ls: "live_slots ?t = map (pkt_slot_idx \<circ> fst) (xs @ ys)" unfolding live_slots_def by (subst rl) (rule refl)
  have d: "distinct (live_slots s)" using inv by (simp add: rr_inv_def)
  have ni: "?i \<notin> set (live_slots ?t)" "distinct (live_slots ?t)" "set (live_slots s) = insert ?i (set (live_slots ?t))"
    unfolding ls using d unfolding live_slots_def sp(1) by auto
  have "\<forall>(p, g) \<in> set (xs @ ys). packet_live (releaseSlot ?i ?q) p
      \<and> packet_frame (releaseSlot ?i ?q) p = g \<and> g \<in> set (rr_delivered s)"
  proof clarify
    fix p g assume that: "(p, g) \<in> set (xs @ ys)"
    have "pkt_slot_idx p \<noteq> ?i" using that ni(1) unfolding ls by force
    moreover have "packet_live ?q p \<and> packet_frame ?q p = g \<and> g \<in> set (rr_delivered s)"
      using rr_inv_live [OF inv, of p g] that sp(1) by auto
    ultimately show "packet_live (releaseSlot ?i ?q) p \<and> packet_frame (releaseSlot ?i ?q) p = g \<and> g \<in> set (rr_delivered s)"
      by (auto simp: packet_live_def releaseSlot_inv [OF q])
  qed
  moreover have "set (live_slots ?t) = rq_held (releaseSlot ?i ?q)"
    unfolding releaseSlot_inv(3) [OF q] using ni hs by auto
  ultimately show ?thesis
    using inv ni(2) unfolding rr_inv_def q' rl by (simp add: releaseSlot_inv [OF q])
qed

lemma rr_inv_push:
  assumes inv: "rr_inv s" and len: "length (fr_payload f) < 2 ^ 32" and p: "push_frame f (rr_queue s) = Some (ok, q')"
  shows "rr_inv (s\<lparr>rr_queue := q', rr_offered := rr_offered s @ [f]\<rparr>)"
proof -
  have q: "rq_inv (rr_queue s)" "\<not> mutex_locked (rr_queue s)" using inv by (auto simp: rr_inv_def)
  note k = push_frame_keeps [OF q len p]
  have "subseq (rr_delivered s @ rq_frames q') (rr_delivered s @ rq_frames (rr_queue s) @ [f])"
    using k by (intro subseq_append_left) simp
  moreover have "subseq ((rr_delivered s @ rq_frames (rr_queue s)) @ [f]) (rr_offered s @ [f])"
    using inv by (intro subseq_append_right) (simp add: rr_inv_def)
  ultimately have "subseq (rr_delivered s @ rq_frames q') (rr_offered s @ [f])"
    using subseq_order.trans by fastforce
  then show ?thesis
    using inv k rr_live_carry [OF inv, of q'] by (simp add: rr_inv_def live_slots_def)
qed

lemma rr_inv_pop:
  fixes env :: "'w rq_env"
  assumes inv: "rr_inv s" and e: "env_idle env" and p: "pop env timeout w (rr_queue s) = Some (Some pkt, q', w')"
  shows "rr_inv (s\<lparr>rr_queue := q', rr_delivered := rr_delivered s @ [packet_frame q' pkt],
                  rr_live := rr_live s @ [(pkt, packet_frame q' pkt)]\<rparr>)"
proof -
  have q: "rq_inv (rr_queue s)" "\<not> mutex_locked (rr_queue s)" using inv by (auto simp: rr_inv_def)
  then have l: "rq_inv (mutex_lock (rr_queue s))" by simp
  obtain w1 where f: "pop_finish env w1 (mutex_lock (rr_queue s)) = (Some pkt, q', w')"
    using pop_idle_cases [OF p e q(2)] by auto
  have live: "packet_live q' p \<and> packet_frame q' p = packet_frame (rr_queue s) p" if "packet_live (rr_queue s) p" for p
    using pop_finish_keeps [OF l f] that by (simp add: packet_live_def packet_frame_def)
  show ?thesis
    using inv pop_finish_inv [OF l f] pop_finish_keeps [OF l f] rr_live_carry [OF inv live]
    by (fastforce simp: rr_inv_def live_slots_def)
qed

lemma rr_inv_pop_none:
  fixes env :: "'w rq_env"
  assumes inv: "rr_inv s" and e: "env_idle env" and p: "pop env timeout w (rr_queue s) = Some (None, q', w')"
  shows "rr_inv (s\<lparr>rr_queue := q'\<rparr>)"
proof -
  have q: "rq_inv (rr_queue s)" "\<not> mutex_locked (rr_queue s)" using inv by (auto simp: rr_inv_def)
  then have l: "rq_inv (mutex_lock (rr_queue s))" by simp
  from pop_idle_cases [OF p e q(2)] consider "q' = rr_queue s"
    | w1 where "pop_finish env w1 (mutex_lock (rr_queue s)) = (None, q', w')" by auto
  then show ?thesis
  proof cases
    case 1
    then show ?thesis using inv by simp
  next
    case 2
    have live: "packet_live q' p \<and> packet_frame q' p = packet_frame (rr_queue s) p" if "packet_live (rr_queue s) p" for p
      using pop_finish_keeps [OF l 2] that by (simp add: packet_live_def packet_frame_def)
    have "subseq (rr_delivered s @ rq_frames q') (rr_delivered s @ rq_frames (rr_queue s))"
      using pop_finish_keeps [OF l 2] by (intro subseq_append_left) simp
    moreover have "subseq (rr_delivered s @ rq_frames (rr_queue s)) (rr_offered s)"
      using inv by (simp add: rr_inv_def)
    ultimately have "subseq (rr_delivered s @ rq_frames q') (rr_offered s)"
      by (rule subseq_order.trans)
    then show ?thesis
      using inv pop_finish_inv [OF l 2] pop_finish_keeps [OF l 2] rr_live_carry [OF inv live]
      by (simp add: rr_inv_def live_slots_def)
  qed
qed

lemma rq_shutdown_inv: "rr_inv s \<Longrightarrow> rr_inv (s\<lparr>rr_queue := rq_shutdown (rr_queue s)\<rparr>)"
  by (simp add: rr_inv_def live_slots_def)

interpretation rq_runs: invariant_system rr_init rq_step rr_inv
proof unfold_locales
  fix s assume "rr_init s"
  then show "rr_inv s" by (simp add: rr_init_def rr_inv_def live_slots_def)
next
  fix s t assume inv: "rr_inv s" and step: "rq_step s t"
  from step show "rr_inv t"
    by cases (use inv in \<open>blast intro: rr_inv_push rr_inv_pop rr_inv_pop_none rr_inv_free rq_shutdown_inv\<close>)+
qed

text \<open>
  C10. Zero-copy safety: in every interleaving of pushes, pops, frees and shutdown, the bytes
  that any packet still out shows through its data pointer are the frame it was handed out
  with, its slot is marked in use, and no two packets share a slot, so that freeing one never
  releases another.
\<close>

theorem zero_copy_safety:
  assumes "reach rr_init rq_step s"
  shows "(\<forall>(pkt, f) \<in> set (rr_live s). packet_frame (rr_queue s) pkt = f \<and> f \<in> set (rr_delivered s)
      \<and> pkt_slot_idx pkt \<in> rq_held (rr_queue s)) \<and> distinct (map (pkt_slot_idx \<circ> fst) (rr_live s))"
proof -
  have inv: "rr_inv s" using assms by (rule rq_runs.inv_reach)
  then have "distinct (map (pkt_slot_idx \<circ> fst) (rr_live s))" by (simp add: rr_inv_def live_slots_def)
  moreover have "\<forall>(pkt, f) \<in> set (rr_live s). packet_frame (rr_queue s) pkt = f \<and> f \<in> set (rr_delivered s)
      \<and> pkt_slot_idx pkt \<in> rq_held (rr_queue s)"
    using rr_inv_live [OF inv] by (auto simp: packet_live_def)
  ultimately show ?thesis by blast
qed

definition nowait_env :: "'w rq_env" where
  "nowait_env = \<lparr> clock_realtime = (\<lambda>w. (\<lparr> tv_sec = 0, tv_nsec = 0 \<rparr>, w)), cond_wait = (\<lambda>w q. (q, w)),
     cond_timedwait = (\<lambda>w ts q. (True, q, w)), malloc_packet = (\<lambda>w. (True, w)) \<rparr>"

definition demo_run :: "rq_run" where
  "demo_run = \<lparr> rr_queue = demo_queue, rr_offered = [], rr_delivered = [], rr_live = [] \<rparr>"

definition demo_frame :: frame where
  "demo_frame = \<lparr> fr_seq = 7, fr_timestamp_ns = 9, fr_pixel_format = 0, fr_width = 4, fr_height = 5,
     fr_payload = [1, 2, 3] \<rparr>"

lemma nowait_env_idle: "env_idle nowait_env"
  by (simp add: env_idle_def nowait_env_def)

lemma demo_run_packet: "\<exists>s. reach rr_init rq_step s \<and> rr_live s \<noteq> []"
proof -
  have i: "reach rr_init rq_step demo_run"
    by (rule reach_init) (simp add: rr_init_def demo_run_def demo_queue_inv,
        simp add: demo_queue_def RingQueue_new_def Let_def empty_queue_def)
  have p: "push_frame demo_frame (rr_queue demo_run) = Some (True, demo_one)"
    using demo_one_facts(1) by (simp add: push_frame_def demo_frame_def demo_run_def)
  have len: "length (fr_payload demo_frame) < 2 ^ 32" by (simp add: demo_frame_def)
  let ?s = "demo_run\<lparr>rr_queue := demo_one, rr_offered := rr_offered demo_run @ [demo_frame]\<rparr>"
  have s: "reach rr_init rq_step ?s" by (rule reach_step [OF i step_push [OF len p]])
  then have "rq_inv demo_one" using rq_runs.inv_reach [OF s] by (simp add: rr_inv_def)
  then obtain w1 pkt q' w' where q: "pop nowait_env (-1) (0 :: nat) demo_one = Some (pop_finish nowait_env w1 (mutex_lock demo_one))"
    "pop_finish nowait_env w1 (mutex_lock demo_one) = (Some pkt, q', w')"
    using pop_ready [of demo_one "-1" nowait_env "0 :: nat"] demo_one_facts(4)
      pop_finish_take [of "mutex_lock demo_one" nowait_env]
    by (auto simp: rq_inv_def rq_geometry_def pop_finish_def pop_take_eq Let_def nowait_env_def)
  then have "pop nowait_env (-1) (0 :: nat) (rr_queue ?s) = Some (Some pkt, q', w')" by simp
  from reach_step [OF s step_pop [OF nowait_env_idle this]] show ?thesis by fastforce
qed

theorem zero_copy_safety_witness:
  "\<exists>s pkt f. reach rr_init rq_step s \<and> (pkt, f) \<in> set (rr_live s) \<and> packet_frame (rr_queue s) pkt = f"
proof -
  obtain s where s: "reach rr_init rq_step s" "rr_live s \<noteq> []" using demo_run_packet by blast
  then obtain pkt f where m: "(pkt, f) \<in> set (rr_live s)" by (cases "rr_live s") auto
  then have "packet_frame (rr_queue s) pkt = f" using zero_copy_safety [OF s(1)] by auto
  then show ?thesis using m s(1) by blast
qed

section \<open>First in, first out\<close>

datatype rq_aux = FreeSlot nat | Shutdown

definition rq_enq :: "frame \<Rightarrow> ring_queue \<Rightarrow> ring_queue" where
  "rq_enq f q = (case push_frame f q of None \<Rightarrow> q | Some (ok, q') \<Rightarrow> q')"

text \<open>
  A removal is one call of \<open>pop\<close>: any environment (the clock, the allocator, the
  wake-ups), any timeout. Its waits leave the queue alone, since the other threads' operations
  are elements of the run. A \<open>pop\<close> that would wait for ever removes nothing.
\<close>

type_synonym 'w pop_call = "'w rq_env \<times> int \<times> 'w"

definition rq_deq :: "'w pop_call \<Rightarrow> ring_queue \<Rightarrow> frame option \<times> ring_queue" where
  "rq_deq c q = (case c of (env, timeout, w) \<Rightarrow>
     (case pop env timeout w q of
        None \<Rightarrow> (None, q)
      | Some (r, q', w') \<Rightarrow> (map_option (packet_frame q') r, q')))"

definition pop_call_ok :: "'w pop_call \<Rightarrow> bool" where
  "pop_call_ok c \<longleftrightarrow> env_idle (fst c)"

fun rq_other :: "rq_aux \<Rightarrow> ring_queue \<Rightarrow> ring_queue" where
  "rq_other (FreeSlot i) q = releaseSlot i q"
| "rq_other Shutdown q = rq_shutdown q"

definition rq_idle_inv :: "ring_queue \<Rightarrow> bool" where
  "rq_idle_inv q \<longleftrightarrow> rq_inv q \<and> \<not> mutex_locked q"

lemma rq_enq_keeps:
  assumes "rq_idle_inv q" and "length (fr_payload f) < 2 ^ 32"
  shows "rq_idle_inv (rq_enq f q) \<and> subseq (rq_frames (rq_enq f q)) (rq_frames q @ [f])"
  using assms push_frame_keeps [of q f]
  by (auto simp: rq_enq_def rq_idle_inv_def split: option.split)

lemma rq_deq_cases:
  assumes "rq_idle_inv q" and "pop_call_ok c" and "rq_deq c q = (x, q')"
  shows "rq_idle_inv q'" "x = None \<Longrightarrow> subseq (rq_frames q') (rq_frames q)"
    "x = Some f \<Longrightarrow> rq_frames q = f # rq_frames q'"
proof -
  obtain env timeout w where c: "c = (env, timeout, w)" using prod_cases3 by blast
  have e: "env_idle env" using assms(2) by (simp add: pop_call_ok_def c)
  have q: "rq_inv q" "\<not> mutex_locked q" and l: "rq_inv (mutex_lock q)"
    using assms(1) by (simp_all add: rq_idle_inv_def)
  have "rq_idle_inv q' \<and> (x = None \<longrightarrow> subseq (rq_frames q') (rq_frames q))
    \<and> (x = Some f \<longrightarrow> rq_frames q = f # rq_frames q')"
  proof (cases "pop env timeout w q")
    case None
    then show ?thesis using assms(1,3) by (simp add: rq_deq_def c)
  next
    case (Some res)
    then obtain r q1 w1 where p: "pop env timeout w q = Some (r, q1, w1)" by (cases res) auto
    then have x: "x = map_option (packet_frame q1) r" "q' = q1" using assms(3) by (auto simp: rq_deq_def c)
    from pop_idle_cases [OF p e q(2)] consider "r = None" "q1 = q"
      | w2 where "pop_finish env w2 (mutex_lock q) = (r, q1, w1)" by auto
    then show ?thesis
    proof cases
      case 1
      then show ?thesis using x assms(1) by simp
    next
      case 2
      show ?thesis
        using pop_finish_inv [OF l 2] pop_finish_keeps [OF l 2] x by (auto simp: rq_idle_inv_def)
    qed
  qed
  then show "rq_idle_inv q'" "x = None \<Longrightarrow> subseq (rq_frames q') (rq_frames q)"
    "x = Some f \<Longrightarrow> rq_frames q = f # rq_frames q'" by blast+
qed

interpretation frame_fifo: lossy_fifo "\<lambda>f. length (fr_payload f) < 2 ^ 32" pop_call_ok
  rq_idle_inv rq_frames rq_enq rq_deq rq_other
proof unfold_locales
  fix q and x :: frame assume "rq_idle_inv q" and "length (fr_payload x) < 2 ^ 32"
  then show "rq_idle_inv (rq_enq x q)" and "subseq (rq_frames (rq_enq x q)) (rq_frames q @ [x])"
    using rq_enq_keeps by blast+
next
  fix q and c :: "'w pop_call" assume "rq_idle_inv q" and "pop_call_ok c"
  then show "rq_idle_inv (snd (rq_deq c q))" by (rule rq_deq_cases(1)) (rule prod.collapse [symmetric])
next
  fix q q' and c :: "'w pop_call" assume "rq_idle_inv q" and "pop_call_ok c" and "rq_deq c q = (None, q')"
  then show "subseq (rq_frames q') (rq_frames q)" by (rule rq_deq_cases(2)) simp
next
  fix q q' x and c :: "'w pop_call" assume "rq_idle_inv q" and "pop_call_ok c" and "rq_deq c q = (Some x, q')"
  then show "rq_frames q = x # rq_frames q'" by (rule rq_deq_cases(3)) simp
next
  fix q a assume "rq_idle_inv q"
  then show "rq_idle_inv (rq_other a q)" and "rq_frames (rq_other a q) = rq_frames q"
    by (cases a; simp add: rq_idle_inv_def releaseSlot_inv)+
qed

text \<open>
  C13. Over any sequence of pushes, pops, releases and shutdowns, the frames delivered so
  far followed by the frames still queued form a subsequence of the frames already queued
  at the start followed by the frames offered: frames may be dropped, but are never
  reordered, duplicated, altered or invented. Every pop of the sequence has its own timeout
  (negative, zero or positive, so also the pops that drain a queue that is shut down) and its
  own environment, in which the allocation of a packet may fail and the wait may end early;
  the only condition is that its wait leaves the queue to the other calls of the sequence.
\<close>

theorem frames_delivered_in_order:
  fixes ops :: "(frame, 'w pop_call, rq_aux) fifo_op list"
  assumes "rq_inv q" and "\<not> mutex_locked q"
    and "list_all (op_ok (\<lambda>f. length (fr_payload f) < 2 ^ 32) (\<lambda>(env, timeout, w). env_idle env)) ops"
    and "fifo_run rq_enq rq_deq rq_other ops q = (out, q')"
  shows "subseq (out @ rq_frames q') (rq_frames q @ offered ops)"
proof -
  have "rq_idle_inv q" using assms(1,2) by (simp add: rq_idle_inv_def)
  moreover have "pop_call_ok = (\<lambda>(env :: 'w rq_env, timeout, w). env_idle env)"
    by (auto simp: pop_call_ok_def fun_eq_iff)
  ultimately show ?thesis using frame_fifo.run_subseq [of q ops out q'] assms(3,4) by simp
qed

text \<open>The client's timed pop, after a shutdown, still delivers the queued frame.\<close>

lemma demo_timed_drain:
  "fst (rq_deq (nowait_env, 100, 0 :: nat) (rq_shutdown demo_one)) = Some demo_frame"
proof -
  let ?q = "mutex_lock (rq_shutdown demo_one)"
  have "rq_inv demo_one" "rq_count demo_one = 1" using demo_one_facts by simp_all
  then have q: "rq_inv ?q" "0 < rq_count ?q" by simp_all
  have m: "mmap_base (rq_shutdown demo_one) \<noteq> None" using q(1) by (simp add: rq_inv_def rq_geometry_def)
  obtain w1 where "pop nowait_env 100 (0 :: nat) (rq_shutdown demo_one) = Some (pop_finish nowait_env w1 ?q)"
    using pop_ready [OF m, of 100 nowait_env 0] q(2) by auto
  moreover have "malloc_packet nowait_env w1 = (True, w1)" by (simp add: nowait_env_def)
  ultimately have p: "pop nowait_env 100 (0 :: nat) (rq_shutdown demo_one)
      = Some (Some (make_packet (mutex_unlock (rq_pop_state ?q)) (tail ?q) (slot_header ?q (tail ?q))),
          mutex_unlock (rq_pop_state ?q), w1)"
    using pop_finish_take [OF q] by metis
  have "rq_frames demo_one = [demo_frame]"
    using push_frame_result [OF demo_queue_inv(1), of demo_frame] demo_queue_inv demo_one_facts(1)
    by (auto simp: push_frame_def demo_frame_def frame_ok_def aq_push_def)
  then show ?thesis using packet_of_pop(2) [OF q] p by (simp add: rq_deq_def)
qed

theorem frames_delivered_in_order_witness:
  "let run = fifo_run rq_enq rq_deq rq_other
       [Enq demo_frame, Aux Shutdown, Deq (nowait_env, 100, 0 :: nat)] demo_queue
   in fst run = [demo_frame] \<and> subseq (fst run @ rq_frames (snd run)) [demo_frame]"
proof -
  let ?ops = "[Enq demo_frame, Aux Shutdown, Deq (nowait_env, 100, 0 :: nat)]"
  obtain out q' where r: "fifo_run rq_enq rq_deq rq_other ?ops demo_queue = (out, q')"
    by (cases "fifo_run rq_enq rq_deq rq_other ?ops demo_queue")
  have e: "rq_enq demo_frame demo_queue = demo_one"
    using demo_one_facts(1) by (simp add: rq_enq_def push_frame_def demo_frame_def)
  have "subseq (out @ rq_frames q') [demo_frame]"
    using frames_delivered_in_order [OF demo_queue_inv(1) demo_queue_unlocked _ r] demo_queue_inv(4)
    by (simp add: demo_frame_def nowait_env_idle)
  moreover have "out = [demo_frame]"
    using r demo_timed_drain by (auto simp: e split: prod.splits option.splits)
  ultimately show ?thesis by (simp only: r Let_def fst_conv snd_conv simp_thms)
qed

section \<open>Back-pressure, construction, shutdown\<close>

text \<open>
  C26. While the consumer holds any packet, no push evicts a queued frame; once the held and
  the queued slots fill the ring, the new frame is the one that is dropped, and counted.
  The oldest frame is dropped only when no packet is out.
\<close>

theorem full_ring_drops_newest_while_held:
  assumes "rq_inv q" and "\<not> shutdown_flag q" and "rq_held q \<noteq> {}"
    and "unat len = length bs" and "0 < length bs" and "length bs \<le> max_frame_size q"
    and "push seq ts (Some bs) len pf w h q = Some (ok, q')"
  shows "prefix (rq_frames q) (rq_frames q')
    \<and> (rq_held q \<union> set (rq_slots q) = {..<capacity q} \<longrightarrow>
         \<not> ok \<and> rq_frames q' = rq_frames q \<and> frames_dropped q' = frames_dropped q + 1)"
proof -
  let ?f = "\<lparr> fr_seq = seq, fr_timestamp_ns = ts, fr_pixel_format = pf, fr_width = w, fr_height = h, fr_payload = bs \<rparr>"
  have ok: "frame_ok q ?f" using assms(4,5,6) unat_less_pow [of len] by (simp add: frame_ok_def)
  have "push_frame ?f q = Some (ok, q')" using assms(7) push_as_frame [OF assms(4)] by simp
  then have r: "ok \<longleftrightarrow> head q \<notin> rq_held q"
    "rq_frames q' = (if ok then aq_push (capacity q) ?f (rq_frames q) else rq_frames q)"
    "frames_dropped q' = frames_dropped q + (if ok \<and> rq_count q < capacity q then 0 else 1)"
    using push_frame_result [OF assms(1) ok assms(2)] by auto
  have room: "rq_count q < capacity q"
    using full_none_held [OF assms(1)] assms(1,3) by (auto simp: rq_inv_def le_less)
  have "prefix (rq_frames q) (rq_frames q')"
    using r(2) room by (simp add: aq_push_def)
  moreover have "head q \<in> rq_held q" if "rq_held q \<union> set (rq_slots q) = {..<capacity q}"
    using that head_free [OF assms(1) room] assms(1) by (auto simp: rq_inv_def)
  ultimately show ?thesis using r by auto
qed

theorem full_ring_drops_newest_while_held_witness:
  "\<exists>q q' ok. rq_inv q \<and> rq_held q \<noteq> {} \<and> push 9 9 (Some [5]) 1 0 4 5 q = Some (ok, q')
     \<and> prefix (rq_frames q) (rq_frames q')"
proof -
  define q where "q = mutex_unlock (rq_pop_state (mutex_lock demo_one))"
  have l: "rq_inv (mutex_lock demo_one)" "0 < rq_count (mutex_lock demo_one)"
    using demo_one_facts by simp_all
  have q: "rq_inv q" "rq_held q \<noteq> {}" using rq_pop_state_inv [OF l] by (simp_all add: q_def)
  obtain hdr bs where d: "demo_one = mutex_unlock (cond_notify (push_commit (push_write hdr bs (mutex_lock (rq_room demo_queue)))))"
    using demo_one_facts(1) push_frame_eq [OF demo_queue_inv(1) _ demo_queue_inv(2), of demo_frame] demo_queue_inv
    by (auto simp: frame_ok_def demo_frame_def push_frame_def split: if_splits)
  have "shutdown_flag demo_one = shutdown_flag demo_queue \<and> max_frame_size demo_one = max_frame_size demo_queue"
    unfolding d by simp
  then have s: "\<not> shutdown_flag q" "max_frame_size q = 4"
    using demo_queue_inv by (simp_all add: q_def)
  obtain ok q' where p: "push 9 9 (Some [5]) 1 0 4 5 q = Some (ok, q')"
    using push_frame_result [OF q(1) _ s(1), of "demo_frame\<lparr>fr_seq := 9, fr_payload := [5]\<rparr>"] s(2)
    by (auto simp: frame_ok_def push_frame_def demo_frame_def)
  have "prefix (rq_frames q) (rq_frames q')"
    using full_ring_drops_newest_while_held [OF q(1) s(1) q(2) _ _ _ p] s(2) by simp
  then show ?thesis using q p by blast
qed

text \<open>
  C27. For every queue size the client accepts as a positive \<open>int\<close> and its maximum frame
  size, the size computation does not wrap: a valid queue starts empty with its invariant,
  the stride is a multiple of the cache line, and every slot's header and largest frame lie
  inside the region and end before the next slot starts.
\<close>

theorem queue_layout_ok:
  assumes "isValid (RingQueue_new mmap_ok malloc_ok cap MAX_FRAME_SIZE)" and "unat cap < 2 ^ 31"
  shows "let q = RingQueue_new mmap_ok malloc_ok cap MAX_FRAME_SIZE in
    rq_inv q \<and> rq_frames q = [] \<and> 64 dvd slot_stride q
    \<and> (\<forall>i < capacity q. slotData (slot_stride q) i + max_frame_size q \<le> slotHdr (slot_stride q) (Suc i)
         \<and> slotHdr (slot_stride q) (Suc i) \<le> length (rq_mem q))"
proof -
  let ?q = "RingQueue_new mmap_ok malloc_ok cap MAX_FRAME_SIZE"
  have m: "unat MAX_FRAME_SIZE = 4194304" by (simp add: MAX_FRAME_SIZE_def)
  have "(unat MAX_FRAME_SIZE + 91) * unat cap < 2 ^ 64" using assms(2) unfolding m by simp
  note inv = RingQueue_new_inv [OF assms(1) this]
  have st: "slot_stride ?q = unat (calcStride MAX_FRAME_SIZE)"
    using assms(1) by (auto simp: RingQueue_new_def isValid_def empty_queue_def Let_def split: if_splits)
  have "64 dvd slot_stride ?q"
    unfolding st using unat_calcStride [of MAX_FRAME_SIZE] by (simp add: m)
  moreover have "slotData (slot_stride ?q) i + max_frame_size ?q \<le> slotHdr (slot_stride ?q) (Suc i)
      \<and> slotHdr (slot_stride ?q) (Suc i) \<le> length (rq_mem ?q)" if "i < capacity ?q" for i
    using inv(1) slot_bounds [OF that, of "slot_stride ?q"]
    by (auto simp: rq_inv_def rq_geometry_def slotData_def slotHdr_def)
  ultimately show ?thesis using inv by (simp add: Let_def)
qed

theorem queue_layout_ok_witness:
  "rq_inv (RingQueue_new (\<lambda>_. True) (\<lambda>_. True) 128 MAX_FRAME_SIZE)"
proof -
  have "isValid (RingQueue_new (\<lambda>_. True) (\<lambda>_. True) 128 MAX_FRAME_SIZE)"
    by (simp add: isValid_def RingQueue_new_def Let_def MAX_FRAME_SIZE_def)
  then show ?thesis using queue_layout_ok [of "\<lambda>_. True" "\<lambda>_. True" 128] by (simp add: Let_def)
qed

text \<open>
  After \<open>shutdown\<close> the queue takes no more frames, and a consumer never blocks on it:
  with an empty queue a \<open>pop\<close> of any timeout returns no packet at once, without waiting.
\<close>

lemma shutdown_unblocks:
  assumes "rq_inv q"
  shows "push seq ts data len pf w h (rq_shutdown q) = Some (False, rq_shutdown q)
    \<and> (rq_count q = 0 \<longrightarrow> (\<exists>w'. pop env timeout w0 (rq_shutdown q) = Some (None, rq_shutdown q, w')))"
proof
  have "push seq ts data len pf w h q1 = Some (False, q1)" if "\<not> mutex_locked q1" "shutdown_flag q1" for q1
    using that by (cases data) (auto simp: push_def Let_def mutex_lock_def mutex_unlock_def)
  then show "push seq ts data len pf w h (rq_shutdown q) = Some (False, rq_shutdown q)" by simp
  have "mmap_base q \<noteq> None" using assms by (simp add: rq_inv_def rq_geometry_def)
  moreover have "mutex_unlock (mutex_lock (rq_shutdown q)) = rq_shutdown q"
    by (simp add: mutex_unlock_lock)
  ultimately show "rq_count q = 0 \<longrightarrow> (\<exists>w'. pop env timeout w0 (rq_shutdown q) = Some (None, rq_shutdown q, w'))"
    by (simp add: pop_def Let_def pop_wait.simps pop_timedwait.simps pop_finish_def split: prod.split)
qed

lemma shutdown_unblocks_example:
  "\<exists>w'. pop demo_env (-1) () (rq_shutdown demo_queue) = Some (None, rq_shutdown demo_queue, w')"
proof -
  have "rq_count demo_queue = 0" using arg_cong [OF demo_queue_inv(4), of length] by simp
  then show ?thesis using shutdown_unblocks [OF demo_queue_inv(1), where env = demo_env and timeout = "-1" and ?w0.0 = "()"] by blast
qed

end
