(* ===== verification/Camera_Capture.thy ===== *)
theory Camera_Capture
  imports Clib Protocol Ring_Queue_Runs
begin

text \<open>
  The camera of \<open>include/camera_capture.hpp\<close> and \<open>src/camera_capture.cpp\<close>: opening by index or
  by path, the negotiated format, start and stop, and the capture thread that numbers the frames
  and offers them to the queue. OpenCV, the clocks and the control flag are the fields of the
  parameter \<open>cam_api\<close>: \<open>'m\<close> is the type of images and \<open>'w\<close> that of the world.
\<close>

section \<open>Data\<close>

record CameraConfig =
  cam_device :: string
  cam_width :: u16
  cam_height :: u16
  cam_fps :: u32
  cam_use_jpeg :: bool
  cam_jpeg_quality :: int

definition default_CameraConfig :: CameraConfig where
  "default_CameraConfig =
     \<lparr> cam_device = ''0'', cam_width = 1280, cam_height = 720, cam_fps = 30,
       cam_use_jpeg = True, cam_jpeg_quality = 85 \<rparr>"

record camera_capture =
  cc_config :: CameraConfig
  actualWidth :: u16
  actualHeight :: u16
  actualFps :: u32
  pixelFormat :: u32
  streaming :: bool
  frameCount :: u64
  jpeg_params :: "int list"

datatype capture_prop = CAP_PROP_FRAME_WIDTH | CAP_PROP_FRAME_HEIGHT | CAP_PROP_FPS

text \<open>
  \<open>cap_open_index\<close> and \<open>cap_open_path\<close> take whether the V4L2 back end is asked for; \<open>cap_get\<close>
  gives the value of a property truncated to an integer, \<open>None\<close> when it is not finite;
  \<open>cap_read\<close> gives an image, or \<open>None\<close> when it fails; \<open>imencode\<close> gives the encoded bytes;
  \<open>cam_others\<close> is what the other threads do to the queue while the camera is being read.
\<close>

record ('m, 'w) cam_api =
  cap_open_index :: "'w \<Rightarrow> int \<Rightarrow> bool \<Rightarrow> bool \<times> 'w"
  cap_open_path :: "'w \<Rightarrow> string \<Rightarrow> bool \<Rightarrow> bool \<times> 'w"
  cap_isOpened :: "'w \<Rightarrow> bool"
  cap_release :: "'w \<Rightarrow> 'w"
  cap_set :: "'w \<Rightarrow> capture_prop \<Rightarrow> nat \<Rightarrow> 'w"
  cap_get :: "'w \<Rightarrow> capture_prop \<Rightarrow> int option \<times> 'w"
  cap_read :: "'w \<Rightarrow> 'm option \<times> 'w"
  mat_empty :: "'m \<Rightarrow> bool"
  mat_data :: "'m \<Rightarrow> byte list option"
  mat_total :: "'m \<Rightarrow> nat"
  mat_elemSize :: "'m \<Rightarrow> nat"
  mat_cols :: "'m \<Rightarrow> int"
  mat_rows :: "'m \<Rightarrow> int"
  imencode :: "'w \<Rightarrow> string \<Rightarrow> 'm \<Rightarrow> int list \<Rightarrow> byte list option \<times> 'w"
  monotonic_clock :: "'w \<Rightarrow> timespec \<times> 'w"
  cam_nanosleep :: "'w \<Rightarrow> timespec \<Rightarrow> 'w"
  cam_running :: "'w \<Rightarrow> bool \<times> 'w"
  cam_others :: "'w \<Rightarrow> ring_queue \<Rightarrow> ring_queue \<times> 'w"

definition IMWRITE_JPEG_QUALITY :: int where "IMWRITE_JPEG_QUALITY = 1"

section \<open>Operations\<close>

definition CameraCapture_new :: "CameraConfig \<Rightarrow> camera_capture" where
  "CameraCapture_new config =
     \<lparr> cc_config = config, actualWidth = 0, actualHeight = 0, actualFps = 0, pixelFormat = 0,
       streaming = False, frameCount = 0,
       jpeg_params = [IMWRITE_JPEG_QUALITY, cam_jpeg_quality config] \<rparr>"

definition camera_stop :: "camera_capture \<Rightarrow> camera_capture" where
  "camera_stop c = (if streaming c then c\<lparr>streaming := False\<rparr> else c)"

definition CameraCapture_delete :: "('m, 'w) cam_api \<Rightarrow> camera_capture \<Rightarrow> 'w \<Rightarrow> camera_capture \<times> 'w" where
  "CameraCapture_delete api c w =
     (camera_stop c, if cap_isOpened api w then cap_release api w else w)"

text \<open>The device as an index: the number that fills the whole string, cast to \<open>int\<close>, or \<open>-1\<close>.\<close>

definition device_number :: "string \<Rightarrow> int" where
  "device_number device =
     (case strtol device of (val, consumed, _) \<Rightarrow>
        if consumed = length device \<and> consumed \<noteq> 0 then int32_of val else -1)"

definition open_device :: "('m, 'w) cam_api \<Rightarrow> string \<Rightarrow> 'w \<Rightarrow> bool \<times> 'w" where
  "open_device api device w =
     (let device_index = device_number device in
      if device_index \<ge> 0 then
        (case cap_open_index api w device_index True of (opened, w) \<Rightarrow>
           if \<not> opened then cap_open_index api w device_index False else (opened, w))
      else
        (case cap_open_path api w device True of (opened, w) \<Rightarrow>
           if \<not> opened then cap_open_path api w device False else (opened, w)))"

text \<open>A floating-point value cast to an unsigned type: defined when the truncated value fits.\<close>

definition uint_of_double :: "int option \<Rightarrow> 'a::len word option" where
  "uint_of_double v =
     (case v of None \<Rightarrow> None | Some i \<Rightarrow> if 0 \<le> i \<and> i < 2 ^ LENGTH('a) then Some (word_of_int i) else None)"

definition camera_open ::
  "('m, 'w) cam_api \<Rightarrow> camera_capture \<Rightarrow> 'w \<Rightarrow> (bool \<times> camera_capture \<times> 'w) option" where
  "camera_open api c w =
     (let cfg = cc_config c in
      case open_device api (cam_device cfg) w of (opened, w) \<Rightarrow>
        if \<not> opened then Some (False, c, w)
        else
          let w = cap_set api w CAP_PROP_FRAME_WIDTH (unat (cam_width cfg));
              w = cap_set api w CAP_PROP_FRAME_HEIGHT (unat (cam_height cfg));
              w = cap_set api w CAP_PROP_FPS (unat (cam_fps cfg));
              (rw, w) = cap_get api w CAP_PROP_FRAME_WIDTH;
              (rh, w) = cap_get api w CAP_PROP_FRAME_HEIGHT;
              (rf, w) = cap_get api w CAP_PROP_FPS in do {
            aw \<leftarrow> uint_of_double rw;
            ah \<leftarrow> uint_of_double rh;
            af \<leftarrow> uint_of_double rf;
            Some (True,
              c\<lparr>actualWidth := aw, actualHeight := ah, actualFps := af,
                pixelFormat := pixel_format_code (if cam_use_jpeg cfg then JPEG else BGR24)\<rparr>, w)
          })"

definition camera_start :: "('m, 'w) cam_api \<Rightarrow> camera_capture \<Rightarrow> 'w \<Rightarrow> bool \<times> camera_capture" where
  "camera_start api c w =
     (if \<not> cap_isOpened api w then (False, c) else (True, c\<lparr>streaming := True, frameCount := 0\<rparr>))"

definition isOpened :: "('m, 'w) cam_api \<Rightarrow> 'w \<Rightarrow> bool" where
  "isOpened api w = cap_isOpened api w"

definition getTimestampNs :: "timespec \<Rightarrow> u64" where
  "getTimestampNs ts = word_of_int (tv_sec ts) * 1000000000 + word_of_int (tv_nsec ts)"

definition encodeJpeg ::
  "('m, 'w) cam_api \<Rightarrow> camera_capture \<Rightarrow> 'm \<Rightarrow> 'w \<Rightarrow> byte list option \<times> 'w" where
  "encodeJpeg api c img w = imencode api w ''.jpg'' img (jpeg_params c)"

section \<open>The capture thread\<close>

text \<open>The arguments of the call of \<open>push\<close>.\<close>

record push_args =
  pa_seq :: u64
  pa_timestamp_ns :: u64
  pa_data :: "byte list option"
  pa_len :: u32
  pa_pixel_format :: u32
  pa_width :: u16
  pa_height :: u16

text \<open>
  The part of the loop body before the call of \<open>push\<close>; \<open>None\<close> stands for the three \<open>continue\<close>
  statements. The length is cast to 32 bits, so the wrap-around of the product at 64 bits is
  immaterial.
\<close>

definition capture_grab ::
  "('m, 'w) cam_api \<Rightarrow> camera_capture \<Rightarrow> 'w \<Rightarrow> push_args option \<times> camera_capture \<times> 'w" where
  "capture_grab api c w =
     (case cap_read api w of
        (None, w) \<Rightarrow> (None, c, cam_nanosleep api w \<lparr>tv_sec = 0, tv_nsec = 10000000\<rparr>)
      | (Some img, w) \<Rightarrow>
          if mat_empty api img then (None, c, w)
          else
            case monotonic_clock api w of (ts, w) \<Rightarrow>
            let timestamp_ns = getTimestampNs ts in
            case (if cam_use_jpeg (cc_config c) then
                    (case encodeJpeg api c img w of
                       (None, w) \<Rightarrow> (None, w)
                     | (Some encoded, w) \<Rightarrow> (Some (Some encoded, of_nat (length encoded) :: u32), w))
                  else (Some (mat_data api img, of_nat (mat_total api img * mat_elemSize api img)), w)) of
              (None, w) \<Rightarrow> (None, c, w)
            | (Some (data, len), w) \<Rightarrow>
                (Some \<lparr> pa_seq = frameCount c, pa_timestamp_ns = timestamp_ns, pa_data = data, pa_len = len,
                        pa_pixel_format = pixelFormat c,
                        pa_width = word_of_int (mat_cols api img),
                        pa_height = word_of_int (mat_rows api img) \<rparr>,
                 c\<lparr>frameCount := frameCount c + 1\<rparr>, w))"

definition push_call :: "push_args \<Rightarrow> ring_queue \<Rightarrow> (bool \<times> ring_queue) option" where
  "push_call a q =
     push (pa_seq a) (pa_timestamp_ns a) (pa_data a) (pa_len a) (pa_pixel_format a) (pa_width a) (pa_height a) q"

definition capture_turn ::
  "('m, 'w) cam_api \<Rightarrow> camera_capture \<Rightarrow> ring_queue \<Rightarrow> 'w \<Rightarrow> (camera_capture \<times> ring_queue \<times> 'w) option" where
  "capture_turn api c q w =
     (case capture_grab api c w of (grabbed, c, w) \<Rightarrow>
        case cam_others api w q of (q, w) \<Rightarrow>
          case grabbed of
            None \<Rightarrow> Some (c, q, w)
          | Some a \<Rightarrow> do { (pushed, q) \<leftarrow> push_call a q; Some (c, q, w) })"

partial_function (option) captureLoop ::
  "('m, 'w) cam_api \<Rightarrow> camera_capture \<Rightarrow> ring_queue \<Rightarrow> 'w \<Rightarrow> (camera_capture \<times> ring_queue \<times> 'w) option" where
  "captureLoop api c q w =
     (case cam_running api w of (go, w) \<Rightarrow>
        if go \<and> streaming c then do {
          (c, q, w) \<leftarrow> capture_turn api c q w;
          captureLoop api c q w
        }
        else Some (c, q, w))"

section \<open>Opening\<close>

lemma device_number_index: "int n \<le> INT_MAX \<Longrightarrow> device_number (nat_to_dec n) = int n"
  by (simp add: device_number_def strtol_nat_to_dec LONG_MAX_def INT_MAX_def INT_MIN_def int32_of_small)

lemma device_number_path:
  assumes "\<not> is_digit c" and "\<not> is_space c" and "c \<noteq> CHR ''+''" and "c \<noteq> CHR ''-''"
  shows "device_number (c # cs) = -1"
  using assms by (simp add: device_number_def strtol_def Let_def)

text \<open>A number beyond the range of \<open>int\<close> is cut to its low 32 bits and opens another camera.\<close>

lemma device_number_wraps: "device_number (nat_to_dec 4294967296) = 0"
  by (simp add: device_number_def strtol_nat_to_dec LONG_MAX_def int32_of_def)

text \<open>
  Opening the camera: a device that is a decimal number is opened by that index and one that
  begins like a path by its name, with the V4L2 back end first and with any back end when that
  fails. A failure leaves the object unchanged; a success sets the pixel format that the frames
  will announce, JPEG or BGR24 as configured, and changes nothing beside it and the negotiated
  resolution and frame rate.
\<close>

lemma camera_open_correct:
  assumes "camera_open api c w = Some (ok, c', w')"
  shows "(cam_device (cc_config c) = nat_to_dec n \<and> int n \<le> INT_MAX \<longrightarrow>
      ok = (fst (cap_open_index api w (int n) True)
        \<or> fst (cap_open_index api (snd (cap_open_index api w (int n) True)) (int n) False)))
    \<and> (cam_device (cc_config c) = CHR ''/'' # path \<longrightarrow>
      ok = (fst (cap_open_path api w (CHR ''/'' # path) True)
        \<or> fst (cap_open_path api (snd (cap_open_path api w (CHR ''/'' # path) True)) (CHR ''/'' # path) False)))
    \<and> (if ok then c' = c\<lparr>actualWidth := actualWidth c', actualHeight := actualHeight c', actualFps := actualFps c',
          pixelFormat := pixel_format_code (if cam_use_jpeg (cc_config c) then JPEG else BGR24)\<rparr>
       else c' = c)"
proof -
  obtain opened w1 where o: "open_device api (cam_device (cc_config c)) w = (opened, w1)"
    by (cases "open_device api (cam_device (cc_config c)) w")
  have ok: "ok = opened" and c': "if ok then c' = c\<lparr>actualWidth := actualWidth c', actualHeight := actualHeight c',
      actualFps := actualFps c', pixelFormat := pixel_format_code (if cam_use_jpeg (cc_config c) then JPEG else BGR24)\<rparr>
      else c' = c"
    using assms o by (auto simp: camera_open_def Let_def bind_eq_Some_conv split: prod.splits if_splits)
  have path: "device_number (CHR ''/'' # path) = -1"
    by (rule device_number_path) (simp_all add: is_space_def is_digit_def)
  show ?thesis
    using o ok c' path device_number_index [of n]
    by (auto simp: open_device_def Let_def split: prod.splits if_splits)
qed

section \<open>The history of the queue\<close>

text \<open>
  The frame that a call of \<open>push\<close> offers, and the steps the queue makes while the camera runs:
  pushes of the listed frames, in order, and in between what the other threads do.
\<close>

definition args_frame :: "push_args \<Rightarrow> frame" where
  "args_frame a =
     \<lparr> fr_seq = pa_seq a, fr_timestamp_ns = pa_timestamp_ns a, fr_pixel_format = pa_pixel_format a,
       fr_width = pa_width a, fr_height = pa_height a,
       fr_payload = (case pa_data a of None \<Rightarrow> [] | Some bs \<Rightarrow> take (unat (pa_len a)) bs) \<rparr>"

inductive queue_history :: "(ring_queue \<Rightarrow> ring_queue \<Rightarrow> bool) \<Rightarrow> frame list \<Rightarrow> ring_queue \<Rightarrow> ring_queue \<Rightarrow> bool"
  for others :: "ring_queue \<Rightarrow> ring_queue \<Rightarrow> bool" where
  history_start: "queue_history others [] q q"
| history_others: "queue_history others fs q q1 \<Longrightarrow> others q1 q2 \<Longrightarrow> queue_history others fs q q2"
| history_push: "queue_history others fs q q1 \<Longrightarrow> length (fr_payload f) < 2 ^ 32 \<Longrightarrow>
    push_frame f q1 = Some (ok, q2) \<Longrightarrow> queue_history others (fs @ [f]) q q2"

lemma queue_history_append:
  assumes "queue_history others gs q1 q2" and "queue_history others fs q q1"
  shows "queue_history others (fs @ gs) q q2"
  using assms
  by (induction rule: queue_history.induct)
    (auto intro: queue_history.intros simp flip: append_assoc)

lemma queue_history_keeps:
  assumes "queue_history others fs q q'"
    and "\<And>q q'. others q q' \<Longrightarrow> rq_inv q \<Longrightarrow> \<not> mutex_locked q \<Longrightarrow> rq_inv q' \<and> \<not> mutex_locked q'"
  shows "rq_inv q \<Longrightarrow> \<not> mutex_locked q \<Longrightarrow> rq_inv q' \<and> \<not> mutex_locked q'"
  using assms(1) by (induction rule: queue_history.induct) (auto dest: assms(2) push_frame_keeps)

text \<open>The images that the camera delivers have as many bytes as they announce.\<close>

definition mats_ok :: "('m, 'w) cam_api \<Rightarrow> bool" where
  "mats_ok api \<longleftrightarrow> (\<forall>m. \<not> mat_empty api m \<longrightarrow>
     (\<exists>bs. mat_data api m = Some bs \<and> mat_total api m * mat_elemSize api m \<le> length bs))"

lemma push_call_frame:
  assumes "pa_data a = Some bs" and "unat (pa_len a) \<le> length bs"
  shows "push_call a q = push_frame (args_frame a) q"
    and "length (fr_payload (args_frame a)) = unat (pa_len a)"
proof -
  have "push_call a q = push (pa_seq a) (pa_timestamp_ns a) (Some (take (unat (pa_len a)) bs)) (pa_len a)
      (pa_pixel_format a) (pa_width a) (pa_height a) q"
    using assms(1) by (cases "push_make_room (mutex_lock q)")
      (auto simp: push_call_def push_def push_write_def Let_def split: if_splits)
  also have "\<dots> = push_frame (args_frame a) q"
    using assms by (subst push_as_frame) (simp_all add: args_frame_def)
  finally show "push_call a q = push_frame (args_frame a) q" .
  show "length (fr_payload (args_frame a)) = unat (pa_len a)"
    using assms by (simp add: args_frame_def)
qed

lemma unat_of_nat_le: "unat (of_nat n :: 'a::len word) \<le> n"
  by (simp add: unat_of_nat)

text \<open>What a pass through the first part of the loop body yields.\<close>

lemma capture_grab_result:
  assumes "mats_ok api" and "capture_grab api c w = (r, c', w')"
  shows "case r of None \<Rightarrow> c' = c
    | Some a \<Rightarrow> c' = c\<lparr>frameCount := frameCount c + 1\<rparr> \<and> pa_seq a = frameCount c
        \<and> pa_pixel_format a = pixelFormat c \<and> (\<exists>bs. pa_data a = Some bs \<and> unat (pa_len a) \<le> length bs)"
proof -
  obtain read w1 where rd: "cap_read api w = (read, w1)" by (cases "cap_read api w")
  show ?thesis
  proof (cases "read = None \<or> mat_empty api (the read)")
    case True
    then show ?thesis using assms(2) rd by (cases read) (auto simp: capture_grab_def split: if_splits)
  next
    case False
    then obtain img where img: "read = Some img" "\<not> mat_empty api img" by auto
    then obtain bs where bs: "mat_data api img = Some bs" "mat_total api img * mat_elemSize api img \<le> length bs"
      using assms(1) unfolding mats_ok_def by blast
    obtain ts w2 where t: "monotonic_clock api w1 = (ts, w2)" by (cases "monotonic_clock api w1")
    obtain e w3 where e: "encodeJpeg api c img w2 = (e, w3)" by (cases "encodeJpeg api c img w2")
    have raw: "unat (of_nat (mat_total api img * mat_elemSize api img) :: u32) \<le> length bs"
      using unat_of_nat_le bs(2) by (rule le_trans)
    show ?thesis
      using assms(2) rd img t e bs(1) raw unat_of_nat_le [where 'a = 32, of "length (the e)"]
      by (cases e) (auto simp: capture_grab_def Let_def split: if_splits simp del: unat_of_nat of_nat_mult)
  qed
qed

definition camera_step :: "('m, 'w) cam_api \<Rightarrow> ring_queue \<Rightarrow> ring_queue \<Rightarrow> bool" where
  "camera_step api q q' \<longleftrightarrow> (\<exists>w. q' = fst (cam_others api w q))"

lemma capture_turn_result:
  assumes "mats_ok api" and "capture_turn api c q w = Some (c', q', w')"
  shows "(c' = c \<and> queue_history (camera_step api) [] q q')
    \<or> (\<exists>f. c' = c\<lparr>frameCount := frameCount c + 1\<rparr> \<and> queue_history (camera_step api) [f] q q'
         \<and> fr_seq f = frameCount c \<and> fr_pixel_format f = pixelFormat c)"
proof -
  obtain r c1 w1 where g: "capture_grab api c w = (r, c1, w1)" by (cases "capture_grab api c w")
  obtain q1 w2 where o: "cam_others api w1 q = (q1, w2)" by (cases "cam_others api w1 q")
  have h: "queue_history (camera_step api) [] q q1"
    by (rule history_others [OF history_start]) (auto simp: camera_step_def o intro: exI [of _ w1])
  note res = capture_grab_result [OF assms(1) g]
  show ?thesis
  proof (cases r)
    case None
    then show ?thesis using assms(2) g o h res by (simp add: capture_turn_def)
  next
    case (Some a)
    with res obtain bs where a: "pa_data a = Some bs" "unat (pa_len a) \<le> length bs" by auto
    from assms(2) g o Some obtain pushed where p: "push_call a q1 = Some (pushed, q')" and c': "c' = c1"
      by (auto simp: capture_turn_def bind_eq_Some_conv)
    have "queue_history (camera_step api) ([] @ [args_frame a]) q q'"
      using p push_call_frame [OF a] unsigned_less [of "pa_len a", where 'a = nat]
      by (intro history_push [OF h]) simp_all
    moreover have "fr_seq (args_frame a) = frameCount c" "fr_pixel_format (args_frame a) = pixelFormat c"
      using res Some by (simp_all add: args_frame_def)
    ultimately show ?thesis using res Some c' by auto
  qed
qed

text \<open>The frames of one run: numbered without gaps from the first, in the announced format.\<close>

definition numbered_frames :: "u64 \<Rightarrow> u32 \<Rightarrow> frame list \<Rightarrow> bool" where
  "numbered_frames n fmt fs \<longleftrightarrow> map fr_seq fs = map (\<lambda>i. n + of_nat i) [0..<length fs]
     \<and> list_all (\<lambda>f. fr_pixel_format f = fmt) fs"

lemma numbered_frames_Cons:
  "numbered_frames n fmt (f # fs) \<longleftrightarrow> fr_seq f = n \<and> fr_pixel_format f = fmt \<and> numbered_frames (n + 1) fmt fs"
proof -
  have "map (\<lambda>i. n + of_nat i) [0..<Suc k] = n # map (\<lambda>i. n + 1 + of_nat i) [0..<k]" for k
    by (simp add: upt_conv_Cons map_Suc_upt [symmetric] o_def algebra_simps del: upt_Suc)
  then show ?thesis by (auto simp: numbered_frames_def simp del: upt_Suc)
qed

lemma captureLoop_result:
  assumes "captureLoop api c q w = Some r" and "mats_ok api"
  shows "case r of (c', q', w') \<Rightarrow> \<exists>fs. queue_history (camera_step api) fs q q'
    \<and> numbered_frames (frameCount c) (pixelFormat c) fs
    \<and> c' = c\<lparr>frameCount := frameCount c + of_nat (length fs)\<rparr>"
proof (induction rule: captureLoop.raw_induct [where P = "\<lambda>api c q w r. mats_ok api \<longrightarrow>
    (case r of (c', q', w') \<Rightarrow> \<exists>fs. queue_history (camera_step api) fs q q'
    \<and> numbered_frames (frameCount c) (pixelFormat c) fs
    \<and> c' = c\<lparr>frameCount := frameCount c + of_nat (length fs)\<rparr>)", OF _ assms(1), THEN mp, OF _ assms(2)])
  case (1 loop api c q w r)
  obtain go w1 where g: "cam_running api w = (go, w1)" by (cases "cam_running api w")
  obtain c' q' w' where r: "r = (c', q', w')" by (cases r)
  show ?case
  proof (intro impI)
    assume ok: "mats_ok api"
    show "case r of (c', q', w') \<Rightarrow> \<exists>fs. queue_history (camera_step api) fs q q'
      \<and> numbered_frames (frameCount c) (pixelFormat c) fs
      \<and> c' = c\<lparr>frameCount := frameCount c + of_nat (length fs)\<rparr>"
    proof (cases "go \<and> streaming c")
      case False
      then have "c' = c" "q' = q" using 1(2) g r by auto
      then show ?thesis using r by (auto intro!: exI [of _ "[]"] history_start simp: numbered_frames_def)
    next
      case True
      then obtain c1 q1 w2 where t: "capture_turn api c q w1 = Some (c1, q1, w2)"
        and l: "loop api c1 q1 w2 = Some (c', q', w')"
        using 1(2) g r by (auto simp: bind_eq_Some_conv)
      from 1(1) [OF l] ok obtain fs where fs: "queue_history (camera_step api) fs q1 q'"
        "numbered_frames (frameCount c1) (pixelFormat c1) fs"
        "c' = c1\<lparr>frameCount := frameCount c1 + of_nat (length fs)\<rparr>" by auto
      from capture_turn_result [OF ok t] show ?thesis
      proof (elim disjE exE conjE)
        assume "c1 = c" "queue_history (camera_step api) [] q q1"
        then show ?thesis using fs queue_history_append [OF fs(1), where fs = "[]"] r by auto
      next
        fix f assume f: "c1 = c\<lparr>frameCount := frameCount c + 1\<rparr>" "queue_history (camera_step api) [f] q q1"
          "fr_seq f = frameCount c" "fr_pixel_format f = pixelFormat c"
        have "queue_history (camera_step api) (f # fs) q q'" using queue_history_append [OF fs(1) f(2)] by simp
        moreover have "numbered_frames (frameCount c) (pixelFormat c) (f # fs)"
          using f fs(2) by (simp add: numbered_frames_Cons)
        moreover have "c' = c\<lparr>frameCount := frameCount c + of_nat (length (f # fs))\<rparr>"
          using f(1) fs(3) by (simp add: algebra_simps)
        ultimately show ?thesis using r by blast
      qed
    qed
  qed
qed

text \<open>What the other threads do keeps the invariant of the queue.\<close>

definition camera_others_ok :: "('m, 'w) cam_api \<Rightarrow> bool" where
  "camera_others_ok api \<longleftrightarrow> (\<forall>w q. rq_inv q \<and> \<not> mutex_locked q \<longrightarrow>
     rq_inv (fst (cam_others api w q)) \<and> \<not> mutex_locked (fst (cam_others api w q)))"

lemma camera_history_keeps:
  assumes "camera_others_ok api" and "queue_history (camera_step api) fs q q'" and "rq_inv q" and "\<not> mutex_locked q"
  shows "rq_inv q' \<and> \<not> mutex_locked q'"
  using assms(1) by (intro queue_history_keeps [OF assms(2) _ assms(3,4)]) (auto simp: camera_others_ok_def camera_step_def)

text \<open>
  C25. The capture thread: when its loop ends, the queue has seen, in this order and beside the
  operations of the other threads, one push for each frame of a list whose sequence numbers run
  without gaps or repetitions from the number at the start, each frame in the announced pixel
  format; the frame counter has advanced by their number, nothing else of the camera object has
  changed, and the queue keeps its invariant with the mutex free.
\<close>

theorem capture_thread_correct:
  assumes "captureLoop api c q w = Some (c', q', w')" and "mats_ok api" and "camera_others_ok api"
    and "rq_inv q" and "\<not> mutex_locked q"
  shows "\<exists>fs. queue_history (camera_step api) fs q q'
    \<and> map fr_seq fs = map (\<lambda>i. frameCount c + of_nat i) [0..<length fs]
    \<and> (\<forall>f \<in> set fs. fr_pixel_format f = pixelFormat c)
    \<and> c' = c\<lparr>frameCount := frameCount c + of_nat (length fs)\<rparr>
    \<and> rq_inv q' \<and> \<not> mutex_locked q'"
proof -
  from captureLoop_result [OF assms(1,2)] obtain fs where
    fs: "queue_history (camera_step api) fs q q'" "numbered_frames (frameCount c) (pixelFormat c) fs"
      "c' = c\<lparr>frameCount := frameCount c + of_nat (length fs)\<rparr>" by auto
  then show ?thesis
    using camera_history_keeps [OF assms(3) fs(1) assms(4,5)]
    by (intro exI [of _ fs]) (simp add: numbered_frames_def list_all_iff)
qed

section \<open>Termination\<close>

lemma capture_turn_returns:
  assumes "mats_ok api" and "camera_others_ok api" and "rq_inv q" and "\<not> mutex_locked q"
  shows "\<exists>r. capture_turn api c q w = Some r"
proof -
  obtain r c1 w1 where g: "capture_grab api c w = (r, c1, w1)" by (cases "capture_grab api c w")
  obtain q1 w2 where o: "cam_others api w1 q = (q1, w2)" by (cases "cam_others api w1 q")
  have q1: "rq_inv q1" "\<not> mutex_locked q1"
    using assms(2-4) o unfolding camera_others_ok_def by (metis fst_conv)+
  show ?thesis
  proof (cases r)
    case None
    then show ?thesis using g o by (simp add: capture_turn_def)
  next
    case (Some a)
    with capture_grab_result [OF assms(1) g] obtain bs where
      a: "pa_data a = Some bs" "unat (pa_len a) \<le> length bs" by auto
    have "\<exists>r. push_call a q1 = Some r"
      using push_frame_returns [OF q1, of "args_frame a"] push_call_frame [OF a]
        unsigned_less [of "pa_len a", where 'a = nat] by simp
    then show ?thesis using g o Some by (auto simp: capture_turn_def)
  qed
qed

text \<open>The flag is cleared after finitely many turns: a turn that starts with it set lowers \<open>k\<close>.\<close>

definition camera_flag_cleared :: "('w \<Rightarrow> nat) \<Rightarrow> ('m, 'w) cam_api \<Rightarrow> bool" where
  "camera_flag_cleared k api \<longleftrightarrow>
     (\<forall>w w1 c q c' q' w'. cam_running api w = (True, w1) \<longrightarrow> capture_turn api c q w1 = Some (c', q', w') \<longrightarrow> k w' < k w)"

lemma captureLoop_returns:
  assumes "mats_ok api" and "camera_others_ok api" and "camera_flag_cleared k api"
  shows "rq_inv q \<Longrightarrow> \<not> mutex_locked q \<Longrightarrow> \<exists>r. captureLoop api c q w = Some r"
proof (induction "k w" arbitrary: c q w rule: less_induct)
  case less
  obtain go w1 where g: "cam_running api w = (go, w1)" by (cases "cam_running api w")
  show ?case
  proof (cases "go \<and> streaming c")
    case True
    from capture_turn_returns [OF assms(1,2) less.prems] obtain c' q' w' where
      t: "capture_turn api c q w1 = Some (c', q', w')" by (metis prod_cases3)
    have "k w' < k w" using assms(3) g t True by (auto simp: camera_flag_cleared_def)
    moreover have "rq_inv q' \<and> \<not> mutex_locked q'"
      using capture_turn_result [OF assms(1) t] camera_history_keeps [OF assms(2) _ less.prems] by blast
    ultimately show ?thesis using less.hyps [of w' q' c'] True g t by (subst captureLoop.simps) simp
  next
    case False
    then show ?thesis using g by (subst captureLoop.simps) auto
  qed
qed

text \<open>
  The capture thread ends once the running flag is cleared, whatever the camera delivers:
  failing reads, empty images, failing encodings and a full queue do not keep it in its loop.
\<close>

lemma capture_thread_returns:
  assumes "mats_ok api" and "camera_others_ok api" and "camera_flag_cleared k api"
    and "rq_inv q" and "\<not> mutex_locked q"
  shows "\<exists>r. captureLoop api c q w = Some r"
  by (rule captureLoop_returns [OF assms])

section \<open>Time stamps\<close>

text \<open>The time stamp is exact for the first five hundred years after the start of the clock.\<close>

lemma getTimestampNs_exact:
  assumes "0 \<le> tv_sec ts" and "tv_sec ts \<le> 18000000000" and "0 \<le> tv_nsec ts" and "tv_nsec ts < 1000000000"
  shows "uint (getTimestampNs ts) = tv_sec ts * 1000000000 + tv_nsec ts"
proof -
  have "getTimestampNs ts = word_of_int (tv_sec ts * 1000000000 + tv_nsec ts)"
    by (simp add: getTimestampNs_def)
  moreover have "(tv_sec ts * 1000000000 + tv_nsec ts) mod 2 ^ 64 = tv_sec ts * 1000000000 + tv_nsec ts"
    using assms by (intro mod_pos_pos_trivial) simp_all
  ultimately show ?thesis by (simp only: uint_word_of_int) simp
qed

section \<open>Witnesses\<close>

text \<open>A camera whose images are lists of bytes; reading fails when the world's counter is even.\<close>

definition demo_camera :: "(byte list, nat) cam_api" where
  "demo_camera =
     \<lparr> cap_open_index = (\<lambda>w i v. (\<not> v, w)), cap_open_path = (\<lambda>w p v. (v, w)), cap_isOpened = (\<lambda>w. True),
       cap_release = (\<lambda>w. w), cap_set = (\<lambda>w p v. w), cap_get = (\<lambda>w p. (Some 30, w)),
       cap_read = (\<lambda>w. (if even w then None else Some [1, 2, 3], w)),
       mat_empty = (\<lambda>m. m = []), mat_data = (\<lambda>m. Some m), mat_total = length, mat_elemSize = (\<lambda>m. 1),
       mat_cols = (\<lambda>m. int (length m)), mat_rows = (\<lambda>m. 1),
       imencode = (\<lambda>w ext m ps. (Some (255 # m), w)),
       monotonic_clock = (\<lambda>w. (\<lparr>tv_sec = 1, tv_nsec = 5\<rparr>, w)), cam_nanosleep = (\<lambda>w t. w),
       cam_running = (\<lambda>w. (0 < w, w - 1)), cam_others = (\<lambda>w q. (q, w)) \<rparr>"

definition demo_capture :: camera_capture where
  "demo_capture = (CameraCapture_new default_CameraConfig)\<lparr>pixelFormat := pixel_format_code JPEG, streaming := True\<rparr>"

lemma demo_camera_ok: "mats_ok demo_camera" "camera_others_ok demo_camera"
  by (simp_all add: mats_ok_def camera_others_ok_def demo_camera_def)

lemma demo_camera_flag: "camera_flag_cleared (\<lambda>w. w) demo_camera"
  by (auto simp: camera_flag_cleared_def capture_turn_def capture_grab_def encodeJpeg_def demo_camera_def
      Let_def bind_eq_Some_conv split: if_splits prod.splits)

lemma camera_open_correct_example:
  "\<exists>c' w'. camera_open demo_camera (CameraCapture_new default_CameraConfig) 0 = Some (True, c', w')
     \<and> pixelFormat c' = 0x47504A4D"
proof -
  have d: "device_number ''0'' = 0" by code_simp
  obtain c' w' where o: "camera_open demo_camera (CameraCapture_new default_CameraConfig) 0 = Some (True, c', w')"
    by (simp add: camera_open_def open_device_def d demo_camera_def CameraCapture_new_def default_CameraConfig_def
        uint_of_double_def)
  have "pixelFormat c' = 0x47504A4D"
    using camera_open_correct [OF o]
    by (simp add: CameraCapture_new_def default_CameraConfig_def) (metis camera_capture.select_convs(5))
  with o show ?thesis by blast
qed

lemma capture_thread_returns_example: "\<exists>r. captureLoop demo_camera demo_capture demo_queue 5 = Some r"
  by (rule capture_thread_returns [OF demo_camera_ok demo_camera_flag demo_queue_inv(1) demo_queue_unlocked])

theorem capture_thread_correct_witness:
  "\<exists>c' q' w' (fs :: frame list). captureLoop demo_camera demo_capture demo_queue 5 = Some (c', q', w')
     \<and> map fr_seq fs = map (\<lambda>i. frameCount demo_capture + of_nat i) [0..<length fs] \<and> rq_inv q'"
proof -
  from captureLoop_returns [OF demo_camera_ok demo_camera_flag demo_queue_inv(1) demo_queue_unlocked]
  obtain c' q' w' where r: "captureLoop demo_camera demo_capture demo_queue 5 = Some (c', q', w')"
    by (metis prod_cases3)
  from capture_thread_correct [OF r demo_camera_ok demo_queue_inv(1) demo_queue_unlocked] obtain fs :: "frame list" where
    "map fr_seq fs = map (\<lambda>i. frameCount demo_capture + of_nat i) [0..<length fs]" "rq_inv q'"
    by blast
  with r show ?thesis by blast
qed

end
