(* ===== verification/Chunk_Transfer.thy ===== *)
theory Chunk_Transfer
  imports Streamer_Prelude
begin

text \<open>
  What the client and the server share about calls that move only part of a buffer:
  \<open>SSL_write\<close>, \<open>SSL_read\<close> and \<open>write\<close>. The program wraps each of them in a loop that
  advances a pointer by what was moved, retries on a transient condition and gives up on
  anything else. The locale \<open>chunk_loop\<close> is that contract; its lemmas give partial and total
  correctness, and every loop of the program interprets it.
\<close>

section \<open>Outcomes of the calls\<close>

text \<open>What \<open>SSL_get_error\<close> reports; a system call error carries the value of \<open>errno\<close>.\<close>

datatype ssl_error =
    SSL_ERROR_WANT_READ
  | SSL_ERROR_WANT_WRITE
  | SSL_ERROR_SYSCALL int
  | SSL_ERROR_ZERO_RETURN
  | SSL_ERROR_OTHER int

definition EINTR :: int where "EINTR = 4"
definition EEXIST :: int where "EEXIST = 17"
definition EINPROGRESS :: int where "EINPROGRESS = 115"

text \<open>The least version of the protocol that both programs accept.\<close>

definition TLS1_2_VERSION :: nat where "TLS1_2_VERSION = 0x0303"

text \<open>The conditions on which the program calls again.\<close>

fun ssl_retry :: "ssl_error \<Rightarrow> bool" where
  "ssl_retry SSL_ERROR_WANT_READ = True"
| "ssl_retry SSL_ERROR_WANT_WRITE = True"
| "ssl_retry (SSL_ERROR_SYSCALL e) = (e = EINTR)"
| "ssl_retry _ = False"

text \<open>\<open>static_cast<int>\<close> of a \<open>size_t\<close>, and \<open>size_t\<close> subtraction with its wrap-around.\<close>

definition int_of_size :: "nat \<Rightarrow> int" where
  "int_of_size n = sint (of_nat n :: u32)"

definition size_sub :: "nat \<Rightarrow> nat \<Rightarrow> nat" where
  "size_sub a b = (a + 2 ^ 64 - b) mod 2 ^ 64"

lemma size_sub_eq [simp]: "b \<le> a \<Longrightarrow> a < 2 ^ 64 \<Longrightarrow> size_sub a b = a - b"
proof -
  assume a: "b \<le> a" "a < 2 ^ 64"
  then have "a + 2 ^ 64 - b = (a - b) + 2 ^ 64" by simp
  then have "size_sub a b = (a - b) mod 2 ^ 64" by (simp only: size_sub_def mod_add_self2)
  then show ?thesis using a by simp
qed

lemma int_of_size_eq: "n < 2 ^ 31 \<Longrightarrow> int_of_size n = int n"
  by (simp add: int_of_size_def sint_uint signed_take_bit_int_eq_self unsigned_of_nat take_bit_nat_eq_self)

lemma int_of_size_le: "int_of_size n \<le> int n"
proof -
  have "sint (of_nat n :: u32) \<le> uint (of_nat n :: u32)"
    by (simp add: sint_uint signed_take_bit_int_less_eq_self_iff) (rule order_trans [OF _ uint_ge_0], simp)
  also have "\<dots> \<le> int n" by (simp add: unsigned_of_nat take_bit_eq_mod zmod_int zmod_le_nonneg_dividend)
  finally show ?thesis by (simp add: int_of_size_def)
qed

section \<open>Loops over partial transfers\<close>

datatype chunk_outcome = Advance nat | Retry | Stop

text \<open>
  \<open>chunk_body sub call f ptr rem w\<close> is one turn of the loop, with \<open>f\<close> for the turns after it:
  \<open>ptr\<close> bytes have been moved, \<open>rem\<close> remain. The result says whether everything was moved,
  how far the pointer got, and the final state.
\<close>

definition chunk_body ::
  "(nat \<Rightarrow> nat \<Rightarrow> nat) \<Rightarrow> (nat \<Rightarrow> nat \<Rightarrow> 'w \<Rightarrow> chunk_outcome \<times> 'w) \<Rightarrow> (nat \<Rightarrow> nat \<Rightarrow> 'w \<Rightarrow> (bool \<times> nat \<times> 'w) option) \<Rightarrow>
   nat \<Rightarrow> nat \<Rightarrow> 'w \<Rightarrow> (bool \<times> nat \<times> 'w) option" where
  "chunk_body sub call f ptr rem w =
     (if rem = 0 then Some (True, ptr, w)
      else case call ptr rem w of
        (Advance k, w') \<Rightarrow> f (ptr + k) (sub rem k) w'
      | (Retry, w') \<Rightarrow> f ptr rem w'
      | (Stop, w') \<Rightarrow> Some (False, ptr, w'))"

locale chunk_loop =
  fixes sub :: "nat \<Rightarrow> nat \<Rightarrow> nat"
    and call :: "nat \<Rightarrow> nat \<Rightarrow> 'w \<Rightarrow> chunk_outcome \<times> 'w"
    and loop :: "nat \<Rightarrow> nat \<Rightarrow> 'w \<Rightarrow> (bool \<times> nat \<times> 'w) option"
  assumes sub_eq: "k \<le> rem \<Longrightarrow> rem < 2 ^ 64 \<Longrightarrow> sub rem k = rem - k"
    and loop_unfold: "loop ptr rem w = chunk_body sub call loop ptr rem w"
    and loop_least: "(\<And>f ptr rem w r. (\<And>ptr rem w r. f ptr rem w = Some r \<Longrightarrow> P ptr rem w r) \<Longrightarrow>
        chunk_body sub call f ptr rem w = Some r \<Longrightarrow> P ptr rem w r) \<Longrightarrow>
      loop ptr rem w = Some r \<Longrightarrow> P ptr rem w r"
begin

text \<open>
  Partial correctness for a relation \<open>R\<close> between the pointer and the state that every call
  keeps, when no call moves more than it was asked to.
\<close>

lemma loop_partial:
  assumes bound: "\<And>ptr rem w k w'. call ptr rem w = (Advance k, w') \<Longrightarrow> k \<le> rem"
    and adv: "\<And>ptr rem w k w'. R ptr w \<Longrightarrow> 0 < rem \<Longrightarrow> call ptr rem w = (Advance k, w') \<Longrightarrow> R (ptr + k) w'"
    and retry: "\<And>ptr rem w w'. R ptr w \<Longrightarrow> 0 < rem \<Longrightarrow> call ptr rem w = (Retry, w') \<Longrightarrow> R ptr w'"
    and stop: "\<And>ptr rem w w'. R ptr w \<Longrightarrow> 0 < rem \<Longrightarrow> call ptr rem w = (Stop, w') \<Longrightarrow> R ptr w'"
    and res: "loop ptr rem w = Some (ok, n, w')" and start: "R ptr w" "rem < 2 ^ 64"
  shows "R n w' \<and> ptr \<le> n \<and> n \<le> ptr + rem \<and> (ok \<longleftrightarrow> n = ptr + rem)"
proof -
  let ?P = "\<lambda>ptr rem w r. R ptr w \<and> rem < 2 ^ 64 \<longrightarrow> R (fst (snd r)) (snd (snd r)) \<and> ptr \<le> fst (snd r)
      \<and> fst (snd r) \<le> ptr + rem \<and> (fst r \<longleftrightarrow> fst (snd r) = ptr + rem)"
  have "?P ptr rem w (ok, n, w')"
  proof (rule loop_least [OF _ res], intro impI)
    fix f ptr rem w r
    assume IH: "\<And>ptr rem w r. f ptr rem w = Some r \<Longrightarrow> ?P ptr rem w r"
      and b: "chunk_body sub call f ptr rem w = Some r" and a: "R ptr w \<and> rem < 2 ^ 64"
    show "R (fst (snd r)) (snd (snd r)) \<and> ptr \<le> fst (snd r) \<and> fst (snd r) \<le> ptr + rem
        \<and> (fst r \<longleftrightarrow> fst (snd r) = ptr + rem)"
    proof (cases "rem = 0")
      case True
      then show ?thesis using a b by (auto simp: chunk_body_def)
    next
      case False
      obtain out w1 where c: "call ptr rem w = (out, w1)" by (cases "call ptr rem w")
      show ?thesis
      proof (cases out)
        case (Advance k)
        have k: "k \<le> rem" using bound c Advance by blast
        have "f (ptr + k) (rem - k) w1 = Some r"
          using b False c Advance sub_eq k a by (simp add: chunk_body_def)
        from IH [OF this] show ?thesis using adv [of ptr w rem k w1] a k c Advance False by auto
      next
        case Retry
        then have "f ptr rem w1 = Some r" using b False c by (simp add: chunk_body_def)
        from IH [OF this] show ?thesis using retry [of ptr w rem w1] a c Retry False by auto
      next
        case Stop
        then show ?thesis using b False c a stop [of ptr w rem w1] by (auto simp: chunk_body_def)
      qed
    qed
  qed
  then show ?thesis using start by simp
qed

text \<open>The same with one condition for all calls.\<close>

lemma loop_keeps:
  assumes bound: "\<And>ptr rem w k w'. call ptr rem w = (Advance k, w') \<Longrightarrow> k \<le> rem"
    and step: "\<And>ptr rem w out w'. R ptr w \<Longrightarrow> call ptr rem w = (out, w') \<Longrightarrow>
      R (case out of Advance k \<Rightarrow> ptr + k | _ \<Rightarrow> ptr) w'"
    and res: "loop ptr rem w = Some (ok, n, w')" and start: "R ptr w" "rem < 2 ^ 64"
  shows "R n w' \<and> ptr \<le> n \<and> n \<le> ptr + rem \<and> (ok \<longleftrightarrow> n = ptr + rem)"
proof (rule loop_partial [where R = R, OF _ _ _ _ res start])
  show "k \<le> rem" if "call ptr rem w = (Advance k, w')" for ptr rem w k w' using that by (rule bound)
  show "R (ptr + k) w'" if "R ptr w" "call ptr rem w = (Advance k, w')" for ptr rem w k w' using step [OF that] by simp
  show "R ptr w'" if "R ptr w" "call ptr rem w = (Retry, w')" for ptr rem w w' using step [OF that] by simp
  show "R ptr w'" if "R ptr w" "call ptr rem w = (Stop, w')" for ptr rem w w' using step [OF that] by simp
qed

text \<open>A loop that gives up does so on a call that stopped.\<close>

lemma loop_stopped:
  assumes bound: "\<And>ptr rem w k w'. call ptr rem w = (Advance k, w') \<Longrightarrow> k \<le> rem"
    and stop: "\<And>ptr r w w'. 0 < r \<Longrightarrow> r \<le> rem \<Longrightarrow> call ptr r w = (Stop, w') \<Longrightarrow> S w'"
    and res: "loop ptr rem w = Some (False, n, w')" and start: "rem < 2 ^ 64"
  shows "S w'"
proof -
  have "rem \<le> rem \<longrightarrow> \<not> fst (False, n, w') \<longrightarrow> S (snd (snd (False, n, w')))"
  proof (rule loop_least [where P = "\<lambda>ptr r w x. r \<le> rem \<longrightarrow> \<not> fst x \<longrightarrow> S (snd (snd x))", OF _ res], intro impI)
    fix f ptr r w x
    assume IH: "\<And>ptr r w x. f ptr r w = Some x \<Longrightarrow> r \<le> rem \<longrightarrow> \<not> fst x \<longrightarrow> S (snd (snd x))"
      and b: "chunk_body sub call f ptr r w = Some x" and l: "r \<le> rem" and f: "\<not> fst x"
    obtain out w1 where c: "call ptr r w = (out, w1)" by (cases "call ptr r w")
    show "S (snd (snd x))"
    proof (cases out)
      case (Advance k)
      then have "sub r k = r - k" using bound c l start by (intro sub_eq) auto
      then show ?thesis
        using b f c l Advance IH [of "ptr + k" "r - k" w1 x] by (auto simp: chunk_body_def split: if_splits)
    next
      case Retry
      then show ?thesis using b f c l IH [of ptr r w1 x] by (auto simp: chunk_body_def split: if_splits)
    next
      case Stop
      then show ?thesis using b f c l stop by (auto simp: chunk_body_def split: if_splits)
    qed
  qed
  then show ?thesis by simp
qed

text \<open>Total correctness: every advance moves something and retries are finitely many.\<close>

lemma loop_total:
  assumes bound: "\<And>ptr rem w k w'. call ptr rem w = (Advance k, w') \<Longrightarrow> 0 < k \<and> k \<le> rem"
    and progress: "\<And>ptr rem w w'. 0 < rem \<Longrightarrow> call ptr rem w = (Retry, w') \<Longrightarrow> (m w' :: nat) < m w"
  shows "rem < 2 ^ 64 \<Longrightarrow> \<exists>r. loop ptr rem w = Some r"
proof (induction "(rem, m w)" arbitrary: ptr rem w rule: wf_induct_rule [OF wf_lex_prod [OF wf_less wf_less]])
  case less: 1
  obtain out w1 where c: "call ptr rem w = (out, w1)" by (cases "call ptr rem w")
  show ?case
  proof (cases "rem = 0 \<or> out = Stop")
    case True
    then show ?thesis using c by (subst loop_unfold) (auto simp: chunk_body_def)
  next
    case False
    show ?thesis
    proof (cases out)
      case (Advance k)
      then have k: "0 < k" "k \<le> rem" using bound c by blast+
      then have "\<exists>r. loop (ptr + k) (rem - k) w1 = Some r"
        using less(1) [of "rem - k" w1 "ptr + k"] less(2) by auto
      then show ?thesis
        using c Advance False sub_eq k less(2) by (subst loop_unfold) (simp add: chunk_body_def)
    next
      case Retry
      then have "\<exists>r. loop ptr rem w1 = Some r"
        using less(1) [of rem w1 ptr] less(2) progress [of rem ptr w w1] c False by auto
      then show ?thesis using c Retry False by (subst loop_unfold) (simp add: chunk_body_def)
    next
      case Stop
      then show ?thesis using False by simp
    qed
  qed
qed

end

end
