(* ===== verification/Frame_Stream.thy ===== *)
theory Frame_Stream
  imports Protocol
begin

text \<open>
  The byte streams of the protocol: a frame on the wire, a stream of frames, a stream cut
  short, and the reference decoder that reads frames back. The decoder is what the server's
  read loops implement; the locale \<open>prefix_code\<close> is the contract between encoder and decoder.
\<close>

section \<open>Frames on the wire\<close>

text \<open>A frame as it goes over the wire: the header of \<open>protocol.hpp\<close>, then the payload.\<close>

definition frame_wire :: "frame \<Rightarrow> byte list" where
  "frame_wire f = wire_header (fr_seq f) (fr_timestamp_ns f) (of_nat (length (fr_payload f)))
     (fr_pixel_format f) (fr_width f) (fr_height f) @ fr_payload f"

definition stream :: "frame list \<Rightarrow> byte list" where
  "stream fs = concat (map frame_wire fs)"

text \<open>A stream that ended: whole frames, then nothing or a frame cut short.\<close>

definition cut_stream :: "frame list \<Rightarrow> byte list \<Rightarrow> bool" where
  "cut_stream fs bs \<longleftrightarrow> (\<exists>rest. bs = stream fs @ rest \<and>
     (rest = [] \<or> (\<exists>f. length (fr_payload f) < 2 ^ 32 \<and> strict_prefix rest (frame_wire f))))"

lemma stream_append [simp]: "stream (fs @ gs) = stream fs @ stream gs"
  by (simp add: stream_def)

lemma stream_simps [simp]: "stream [] = []" "stream (f # fs) = frame_wire f @ stream fs"
  by (simp_all add: stream_def)

lemma cut_stream_whole [simp]: "cut_stream fs (stream fs)"
  by (auto simp: cut_stream_def)

lemma cut_stream_Nil [simp]: "cut_stream [] []"
  using cut_stream_whole [of "[]"] by simp

lemma strict_prefix_take: "n < length xs \<Longrightarrow> strict_prefix (take n xs) xs"
  by (metis append_take_drop_id length_take min_less_iff_conj nat_neq_iff strict_prefixI' prefix_order.le_neq_trans prefixI)

lemma strict_prefix_append_same: "strict_prefix (xs @ ys) (xs @ zs) = strict_prefix ys zs"
  by (simp add: strict_prefix_def)

section \<open>The reference decoder\<close>

definition be_word :: "byte list \<Rightarrow> 'a::len word" where
  "be_word bs = le_to_word (rev bs)"

definition payload_limit :: nat where "payload_limit = 16 * 1024 * 1024"

definition parse_frame :: "byte list \<Rightarrow> (frame \<times> byte list) option" where
  "parse_frame bs =
     (if length bs < 36 \<or> take 4 bs \<noteq> PROTO_MAGIC \<or> be_word (mem_read bs 4 2) \<noteq> PROTO_VERSION then None
      else
        let n = unat (be_word (mem_read bs 24 4) :: u32) in
        if n > payload_limit \<or> length bs < 36 + n then None
        else Some (\<lparr> fr_seq = be_word (mem_read bs 8 8), fr_timestamp_ns = be_word (mem_read bs 16 8),
                     fr_pixel_format = be_word (mem_read bs 28 4), fr_width = be_word (mem_read bs 32 2),
                     fr_height = be_word (mem_read bs 34 2), fr_payload = mem_read bs 36 n \<rparr>, drop (36 + n) bs))"

lemma parse_frame_shorter: "parse_frame bs = Some (f, rest) \<Longrightarrow> length rest < length bs"
  by (auto simp: parse_frame_def Let_def split: if_splits)

function parse_stream :: "byte list \<Rightarrow> frame list" where
  "parse_stream bs = (case parse_frame bs of None \<Rightarrow> [] | Some (f, rest) \<Rightarrow> f # parse_stream rest)"
  by pat_completeness auto
termination
  by (relation "measure length") (auto dest: parse_frame_shorter)

declare parse_stream.simps [simp del]

lemma be_bytes_be_word: "LENGTH('a) = 8 * length bs \<Longrightarrow> be_bytes (length bs) (be_word bs :: 'a::len word) = bs"
  using word_to_le_inverse [where 'a = 'a, of "rev bs"] by (simp add: be_bytes_def be_word_def)

lemma be_word_be_bytes: "LENGTH('a) = 8 * n \<Longrightarrow> be_word (be_bytes n (w :: 'a::len word)) = w"
  by (simp add: be_bytes_def be_word_def le_to_word_inverse)

text \<open>A host of either byte order converts a field of the wire to its big-endian value.\<close>

lemma ntoh_be_word:
  "length bs = 2 \<Longrightarrow> ntohs bo (mem_word bo bs) = be_word bs"
  "length bs = 4 \<Longrightarrow> ntohl bo (mem_word bo bs) = be_word bs"
  "length bs = 8 \<Longrightarrow> ntohll bo (mem_word bo bs) = be_word bs"
  using be_bytes_be_word [where 'a = 16, of bs] be_bytes_be_word [where 'a = 32, of bs]
    be_bytes_be_word [where 'a = 64, of bs] ntoh_mem_word [of bo "be_word bs" ] ntoh_mem_word(2) [of bo "be_word bs"]
    ntoh_mem_word(3) [of bo "be_word bs"]
  by simp_all

section \<open>Encoder and decoder\<close>

locale prefix_code =
  fixes ok :: "'a \<Rightarrow> bool" and enc :: "'a \<Rightarrow> 'b list"
    and dec :: "'b list \<Rightarrow> ('a \<times> 'b list) option" and dec_all :: "'b list \<Rightarrow> 'a list"
  assumes dec_enc: "ok x \<Longrightarrow> dec (enc x @ rest) = Some (x, rest)"
    and dec_all_unfold: "dec_all bs = (case dec bs of None \<Rightarrow> [] | Some (x, rest) \<Rightarrow> x # dec_all rest)"
begin

lemma dec_all_encoded:
  "list_all ok xs \<Longrightarrow> dec_all (concat (map enc xs) @ rest) = xs @ dec_all rest"
proof (induction xs)
  case (Cons x xs)
  then show ?case by (subst dec_all_unfold) (simp add: dec_enc)
qed simp

lemma dec_all_cut: "list_all ok xs \<Longrightarrow> dec rest = None \<Longrightarrow> dec_all (concat (map enc xs) @ rest) = xs"
  using dec_all_encoded [of xs rest] dec_all_unfold [of rest] by simp

text \<open>Unique decodability: streams of acceptable items determine the items.\<close>

lemma encoded_inj:
  assumes "list_all ok xs" and "list_all ok ys" and "dec [] = None" and "concat (map enc xs) = concat (map enc ys)"
  shows "xs = ys"
  using dec_all_cut [OF assms(1,3)] dec_all_cut [OF assms(2,3)] assms(4) by simp

end

definition frame_fits :: "frame \<Rightarrow> bool" where
  "frame_fits f \<longleftrightarrow> length (fr_payload f) \<le> payload_limit"

lemma length_frame_wire [simp]: "length (frame_wire f) = 36 + length (fr_payload f)"
  by (simp add: frame_wire_def)

text \<open>The fields at their offsets in a buffer that starts with a header.\<close>

lemma wire_header_fields:
  assumes "take 36 bs = wire_header seq ts plen pf w h"
  shows "36 \<le> length bs" "take 4 bs = PROTO_MAGIC" "be_word (mem_read bs 4 2) = PROTO_VERSION"
    "be_word (mem_read bs 8 8) = seq" "be_word (mem_read bs 16 8) = ts" "be_word (mem_read bs 24 4) = plen"
    "be_word (mem_read bs 28 4) = pf" "be_word (mem_read bs 32 2) = w" "be_word (mem_read bs 34 2) = h"
proof -
  have l: "length (take 36 bs) = 36" unfolding assms by simp
  then show "36 \<le> length bs" by simp
  have r: "mem_read bs a n = mem_read (wire_header seq ts plen pf w h) a n" if "a + n \<le> 36" for a n
    using that by (simp add: mem_read_def assms [symmetric] drop_take min_def)
  have "take 4 bs = take 4 (take 36 bs)" by simp
  then show "take 4 bs = PROTO_MAGIC" unfolding assms by (simp add: wire_header_def PROTO_MAGIC_def)
  show "be_word (mem_read bs 4 2) = PROTO_VERSION" "be_word (mem_read bs 8 8) = seq" "be_word (mem_read bs 16 8) = ts"
    "be_word (mem_read bs 24 4) = plen" "be_word (mem_read bs 28 4) = pf" "be_word (mem_read bs 32 2) = w"
    "be_word (mem_read bs 34 2) = h"
    by (simp_all add: r) (simp_all add: wire_header_def mem_read_def be_word_be_bytes PROTO_VERSION_def)
qed

lemma parse_frame_wire:
  assumes "frame_fits f"
  shows "parse_frame (frame_wire f @ rest) = Some (f, rest)"
proof -
  let ?n = "length (fr_payload f)" and ?bs = "frame_wire f @ rest"
  have "take 36 ?bs = wire_header (fr_seq f) (fr_timestamp_ns f) (of_nat ?n) (fr_pixel_format f) (fr_width f) (fr_height f)"
    by (simp add: frame_wire_def)
  note h = wire_header_fields [OF this]
  have "unat (of_nat ?n :: u32) = ?n"
    using assms by (intro unat_of_nat_small) (simp add: frame_fits_def payload_limit_def)
  moreover have "mem_read ?bs 36 ?n = fr_payload f" "drop (36 + ?n) ?bs = rest"
    by (simp_all add: mem_read_def frame_wire_def)
  ultimately show ?thesis
    using assms h by (simp add: parse_frame_def Let_def frame_fits_def)
qed

lemma parse_frame_cut:
  assumes "strict_prefix bs (frame_wire f)" and "length (fr_payload f) < 2 ^ 32"
  shows "parse_frame bs = None"
proof (cases "length bs < 36")
  case False
  let ?n = "length (fr_payload f)"
  obtain zs where z: "frame_wire f = bs @ zs" "zs \<noteq> []" using assms(1) by (auto elim: strict_prefixE')
  then have "take 36 bs = take 36 (frame_wire f)" using False by simp
  also have "\<dots> = wire_header (fr_seq f) (fr_timestamp_ns f) (of_nat ?n) (fr_pixel_format f) (fr_width f) (fr_height f)"
    by (simp add: frame_wire_def)
  finally have "be_word (mem_read bs 24 4) = (of_nat ?n :: u32)" by (rule wire_header_fields(6))
  moreover have "unat (of_nat ?n :: u32) = ?n" using assms(2) by (intro unat_of_nat_small) simp
  moreover have "length bs < 36 + ?n" using arg_cong [OF z(1), of length] z(2) by simp
  ultimately show ?thesis by (simp add: parse_frame_def Let_def)
qed (simp add: parse_frame_def)

interpretation frame_code: prefix_code frame_fits frame_wire parse_frame parse_stream
  by unfold_locales (simp_all add: parse_frame_wire parse_stream.simps)

lemma parse_frame_limit: "parse_frame bs = Some (f, rest) \<Longrightarrow> length (fr_payload f) \<le> payload_limit"
  by (auto simp: parse_frame_def Let_def mem_read_def split: if_splits)

lemma parse_stream_limit: "f \<in> set (parse_stream bs) \<Longrightarrow> length (fr_payload f) \<le> payload_limit"
proof (induction bs rule: parse_stream.induct)
  case (1 bs)
  show ?case
  proof (cases "parse_frame bs")
    case None
    then show ?thesis using 1(2) by (simp add: parse_stream.simps [of bs])
  next
    case (Some p)
    obtain g rest where p: "p = (g, rest)" by (cases p)
    then have "f = g \<or> f \<in> set (parse_stream rest)"
      using 1(2) Some by (simp add: parse_stream.simps [of bs])
    then show ?thesis using 1(1) Some p parse_frame_limit by blast
  qed
qed

lemma parse_frame_Nil: "parse_frame [] = None"
  by (simp add: parse_frame_def)

lemma parse_cut_stream:
  assumes "cut_stream fs bs" and "list_all frame_fits fs"
  shows "parse_stream bs = fs"
proof -
  obtain rest where r: "bs = concat (map frame_wire fs) @ rest"
    "rest = [] \<or> (\<exists>f. length (fr_payload f) < 2 ^ 32 \<and> strict_prefix rest (frame_wire f))"
    using assms(1) unfolding cut_stream_def stream_def by blast
  then have "parse_frame rest = None" using parse_frame_cut parse_frame_Nil by blast
  then show ?thesis using frame_code.dec_all_cut [OF assms(2)] r(1) by simp
qed

text \<open>Whatever part of the stream arrives carries a part of the frames.\<close>

lemma cut_stream_prefix:
  assumes "cut_stream fs bs" and "list_all frame_fits fs" and "prefix bs' bs"
  shows "\<exists>fs'. prefix fs' fs \<and> cut_stream fs' bs'"
proof -
  obtain rest where bs: "bs = stream fs @ rest"
    and rest: "rest = [] \<or> (\<exists>f. length (fr_payload f) < 2 ^ 32 \<and> strict_prefix rest (frame_wire f))"
    using assms(1) unfolding cut_stream_def by blast
  have small: "cut_stream [] cs" if "strict_prefix cs (frame_wire f)" "length (fr_payload f) < 2 ^ 32" for cs f
    using that unfolding cut_stream_def by (intro exI [of _ cs]) auto
  from assms(2,3) show ?thesis unfolding bs
  proof (induction fs arbitrary: bs')
    case Nil
    have "cut_stream [] bs'"
    proof (cases "rest = []")
      case False
      then obtain f where f: "length (fr_payload f) < 2 ^ 32" "strict_prefix rest (frame_wire f)" using rest by blast
      then have "strict_prefix bs' (frame_wire f)" using Nil by (auto intro: prefix_order.le_less_trans)
      then show ?thesis using small f(1) by blast
    qed (use Nil in simp)
    then show ?case by auto
  next
    case (Cons f fs)
    then have p: "prefix bs' (frame_wire f @ (stream fs @ rest))" by simp
    from p consider bs1 where "bs' = frame_wire f @ bs1" "prefix bs1 (stream fs @ rest)" | "strict_prefix bs' (frame_wire f)"
    proof (cases "bs' = frame_wire f")
      case True
      then show thesis using that(1) [of "[]"] by simp
    next
      case False
      then show thesis
        using p that unfolding prefix_append [of bs' "frame_wire f"] strict_prefix_def by blast
    qed
    then show ?case
    proof cases
      case (1 bs1)
      with Cons obtain fs' where fs': "prefix fs' fs" "cut_stream fs' bs1" by auto
      then have "cut_stream (f # fs') bs'" unfolding cut_stream_def 1(1) by auto
      then show ?thesis using fs'(1) by (intro exI [of _ "f # fs'"]) simp
    next
      case 2
      have "length (fr_payload f) < 2 ^ 32" using Cons.prems(1) by (simp add: frame_fits_def payload_limit_def)
      then show ?thesis using small [OF 2] by (intro exI [of _ "[]"]) simp
    qed
  qed
qed

text \<open>
  Encoding and decoding are inverse on streams: whatever frames within the payload limit
  a connection carried, and wherever it broke off inside the next frame, the decoder gives
  back exactly the whole frames; so two different lists of frames never share a stream.
\<close>

lemma stream_roundtrip:
  assumes "list_all frame_fits fs" and "cut_stream fs bs"
  shows "parse_stream bs = fs \<and> parse_stream (stream fs) = fs \<and> (\<forall>gs. list_all frame_fits gs \<longrightarrow> stream gs = stream fs \<longrightarrow> gs = fs)"
  using assms parse_cut_stream [OF assms(2,1)] parse_cut_stream [OF cut_stream_whole assms(1)]
    frame_code.encoded_inj [OF _ assms(1) parse_frame_Nil]
  by (auto simp: stream_def)

definition demo_cut :: "byte list" where
  "demo_cut = frame_wire \<lparr> fr_seq = 1, fr_timestamp_ns = 2, fr_pixel_format = 3, fr_width = 4, fr_height = 5, fr_payload = [9, 8] \<rparr> @ [0x46]"

lemma stream_roundtrip_example:
  "parse_stream demo_cut = [\<lparr> fr_seq = 1, fr_timestamp_ns = 2, fr_pixel_format = 3, fr_width = 4, fr_height = 5, fr_payload = [9, 8] \<rparr>]"
proof -
  let ?f = "\<lparr> fr_seq = 1, fr_timestamp_ns = 2, fr_pixel_format = 3, fr_width = 4, fr_height = 5, fr_payload = [9, 8 :: byte] \<rparr> :: frame"
  have "strict_prefix [0x46] (frame_wire ?f)" by (simp add: frame_wire_def wire_header_def)
  moreover have "length (fr_payload ?f) < 2 ^ 32" by simp
  ultimately have "cut_stream [?f] demo_cut"
    unfolding cut_stream_def demo_cut_def stream_simps append_Nil2 by blast
  moreover have "list_all frame_fits [?f]" by (simp add: frame_fits_def payload_limit_def)
  ultimately show ?thesis using stream_roundtrip [of "[?f]" demo_cut] by blast
qed

end
