(* ===== verification/Tls_Client.thy ===== *)
theory Tls_Client
  imports Chunk_Transfer Clib Frame_Stream Ring_Queue_Runs
begin

unbundle bit_operations_syntax

text \<open>
  The TLS client of \<open>include/tls_client.hpp\<close> and \<open>src/tls_client.cpp\<close>: context creation,
  the non-blocking TCP connect, the TLS handshake with its clean-up paths, the write loop,
  the exponential back-off and the network thread. OpenSSL, the sockets API, the clock and
  the control flag are the fields of the parameter \<open>tls_api\<close>, functions of a world \<open>'w\<close>.
  The client keeps beside its members what it has opened: the descriptors, their blocking
  mode, the number of SSL objects, and the bytes each SSL object accepted for its peer.
\<close>

section \<open>Data\<close>

text \<open>A non-negative finite \<open>float\<close>: mantissa times a power of two, rounded to 24 bits.\<close>

record float32 =
  f_man :: nat
  f_exp :: int

record TlsConfig =
  cfg_host :: "string option"
  cfg_port :: u16
  cfg_ca_path :: "string option"
  connect_timeout_ms :: u32
  reconnect_base_ms :: u32
  reconnect_max_ms :: u32
  reconnect_multiplier :: float32
  cfg_frame_width :: u16
  cfg_frame_height :: u16
  cfg_pixel_format :: u32

definition default_TlsConfig :: TlsConfig where
  "default_TlsConfig =
     \<lparr> cfg_host = None, cfg_port = 4433, cfg_ca_path = None, connect_timeout_ms = 5000,
       reconnect_base_ms = 1000, reconnect_max_ms = 30000,
       reconnect_multiplier = \<lparr> f_man = 1, f_exp = 1 \<rparr>,
       cfg_frame_width = 0, cfg_frame_height = 0, cfg_pixel_format = 0 \<rparr>"

datatype TlsState = Disconnected | Connecting | Connected | Error

record ssl_ctx =
  ctx_min_proto :: nat
  ctx_ca_file :: "string option"
  ctx_verify_peer :: bool
  ctx_verify_depth :: nat
  ctx_cipher_list :: "string option"

record ssl_obj =
  ssl_of_ctx :: ssl_ctx
  ssl_sni :: "string option"
  ssl_no_partial_wildcards :: bool
  ssl_verify_host :: "string option"
  ssl_fd :: "int option"
  ssl_established :: bool
  ssl_out :: "byte list"

record netos =
  os_fds :: "int list"
  os_nonblock :: "int list"
  os_ssl_live :: nat
  os_streams :: "byte list list"

record tls_client =
  tc_config :: TlsConfig
  tc_ssl_ctx :: "ssl_ctx option"
  tc_ssl :: "ssl_obj option"
  tc_sockfd :: int
  tc_state :: TlsState
  tc_reconnect_delay_ms :: u32
  tc_frames_sent :: u64
  tc_bytes_sent :: u64
  tc_os :: netos

record 'w tls_api =
  SSL_CTX_new :: "'w \<Rightarrow> bool \<times> 'w"
  SSL_CTX_set_min_proto_version :: "'w \<Rightarrow> nat \<Rightarrow> bool \<times> 'w"
  SSL_CTX_load_verify_locations :: "'w \<Rightarrow> string \<Rightarrow> bool \<times> 'w"
  SSL_CTX_set_cipher_list :: "'w \<Rightarrow> string \<Rightarrow> bool \<times> 'w"
  getaddrinfo :: "'w \<Rightarrow> string option \<Rightarrow> string \<Rightarrow> (int + nat list) \<times> 'w"
  sys_socket :: "'w \<Rightarrow> int list \<Rightarrow> nat \<Rightarrow> int \<times> 'w"
  sys_connect :: "'w \<Rightarrow> int \<Rightarrow> nat \<Rightarrow> int \<times> int \<times> 'w"
  sys_poll :: "'w \<Rightarrow> int \<Rightarrow> int \<Rightarrow> int \<times> 'w"
  so_error :: "'w \<Rightarrow> int \<Rightarrow> int \<times> 'w"
  SSL_new :: "'w \<Rightarrow> bool \<times> 'w"
  SSL_set_tlsext_host_name :: "'w \<Rightarrow> bool \<times> 'w"
  X509_VERIFY_PARAM_set1_host :: "'w \<Rightarrow> bool \<times> 'w"
  SSL_set_fd :: "'w \<Rightarrow> bool \<times> 'w"
  SSL_connect :: "'w \<Rightarrow> ssl_obj \<Rightarrow> int \<times> 'w"
  SSL_write :: "'w \<Rightarrow> byte list \<Rightarrow> int \<Rightarrow> int \<times> ssl_error \<times> 'w"
  nanosleep :: "'w \<Rightarrow> timespec \<Rightarrow> 'w"
  running :: "'w \<Rightarrow> bool \<times> 'w"
  queue_env :: "'w rq_env"
  other_threads :: "'w \<Rightarrow> ring_queue \<Rightarrow> ring_queue \<times> 'w"

definition QUEUE_TIMEOUT_MS :: int where "QUEUE_TIMEOUT_MS = 1000"

definition TlsClient_new :: "TlsConfig \<Rightarrow> tls_client" where
  "TlsClient_new config =
     \<lparr> tc_config = config, tc_ssl_ctx = None, tc_ssl = None, tc_sockfd = -1, tc_state = Disconnected,
       tc_reconnect_delay_ms = reconnect_base_ms config, tc_frames_sent = 0, tc_bytes_sent = 0,
       tc_os = \<lparr> os_fds = [], os_nonblock = [], os_ssl_live = 0, os_streams = [] \<rparr> \<rparr>"

section \<open>Operating system resources\<close>

definition os_open :: "int \<Rightarrow> netos \<Rightarrow> netos" where
  "os_open fd os = os\<lparr>os_fds := fd # os_fds os\<rparr>"

definition os_close :: "int \<Rightarrow> netos \<Rightarrow> netos" where
  "os_close fd os = os\<lparr>os_fds := remove1 fd (os_fds os), os_nonblock := removeAll fd (os_nonblock os)\<rparr>"

definition os_set_nonblock :: "int \<Rightarrow> bool \<Rightarrow> netos \<Rightarrow> netos" where
  "os_set_nonblock fd b os =
     os\<lparr>os_nonblock := (if b then fd # removeAll fd (os_nonblock os) else removeAll fd (os_nonblock os))\<rparr>"

definition os_ssl_free :: "ssl_obj \<Rightarrow> netos \<Rightarrow> netos" where
  "os_ssl_free s os = os\<lparr>os_ssl_live := os_ssl_live os - 1, os_streams := os_streams os @ [ssl_out s]\<rparr>"

section \<open>Context\<close>

text \<open>
  Loading the default CA paths and setting the cipher list may fail; the client then only
  logs a warning, so the results matter for the context's contents alone. The result of setting the
  least protocol version is not even looked at; without it the context has none, written 0.
\<close>

definition createSslContext :: "'w tls_api \<Rightarrow> tls_client \<Rightarrow> 'w \<Rightarrow> bool \<times> tls_client \<times> 'w" where
  "createSslContext api c w =
     (case SSL_CTX_new api w of (ok, w) \<Rightarrow>
        if \<not> ok then (False, c\<lparr>tc_ssl_ctx := None\<rparr>, w)
        else
          let (proto_set, w) = SSL_CTX_set_min_proto_version api w TLS1_2_VERSION;
              ctx = \<lparr> ctx_min_proto = (if proto_set then TLS1_2_VERSION else 0), ctx_ca_file = None, ctx_verify_peer = False,
                          ctx_verify_depth = 0, ctx_cipher_list = None \<rparr>;
              ca = cfg_ca_path (tc_config c);
              use_ca = (ca \<noteq> None \<and> the ca \<noteq> []);
              (loaded, w) = (if use_ca then SSL_CTX_load_verify_locations api w (the ca) else (True, w)) in
          if \<not> loaded then (False, c\<lparr>tc_ssl_ctx := None\<rparr>, w)
          else
            let ctx = (if use_ca then ctx\<lparr>ctx_ca_file := ca\<rparr> else ctx);
                ctx = ctx\<lparr>ctx_verify_peer := True\<rparr>;
                ctx = ctx\<lparr>ctx_verify_depth := 4\<rparr>;
                ciphers = ''ECDHE+AESGCM:DHE+AESGCM:ECDHE+CHACHA20:DHE+CHACHA20'';
                (set_ok, w) = SSL_CTX_set_cipher_list api w ciphers;
                ctx = (if set_ok then ctx\<lparr>ctx_cipher_list := Some ciphers\<rparr> else ctx)
            in (True, c\<lparr>tc_ssl_ctx := Some ctx\<rparr>, w))"

definition initialize :: "'w tls_api \<Rightarrow> tls_client \<Rightarrow> 'w \<Rightarrow> bool \<times> tls_client \<times> 'w" where
  "initialize api c w =
     (let cfg = tc_config c in
      if cfg_host cfg = None \<or> cfg_host cfg = Some [] \<or> cfg_port cfg = 0 then (False, c, w)
      else createSslContext api c w)"

section \<open>Connecting\<close>

text \<open>One pass of the address loop; the loop breaks on success and continues on failure.\<close>

fun try_addresses :: "'w tls_api \<Rightarrow> u32 \<Rightarrow> nat list \<Rightarrow> int \<Rightarrow> netos \<Rightarrow> 'w \<Rightarrow> int \<times> netos \<times> 'w" where
  "try_addresses api timeout [] sockfd os w = (sockfd, os, w)"
| "try_addresses api timeout (rp # rest) sockfd os w =
     (case sys_socket api w (os_fds os) rp of (fd, w) \<Rightarrow>
        if fd < 0 then try_addresses api timeout rest fd os w
        else
          let os = os_open fd os;
              saved_flags = (fd \<in> set (os_nonblock os));
              os = os_set_nonblock fd True os in
          case sys_connect api w fd rp of (cret, err, w) \<Rightarrow>
            if cret = 0 then (fd, os_set_nonblock fd saved_flags os, w)
            else if err \<noteq> EINPROGRESS then try_addresses api timeout rest (-1) (os_close fd os) w
            else
              case sys_poll api w fd (int_of_size (unat timeout)) of (pret, w) \<Rightarrow>
                if pret \<le> 0 then try_addresses api timeout rest (-1) (os_close fd os) w
                else
                  case so_error api w fd of (sock_err, w) \<Rightarrow>
                    if sock_err \<noteq> 0 then try_addresses api timeout rest (-1) (os_close fd os) w
                    else (fd, os_set_nonblock fd saved_flags os, w))"

definition createTcpConnection ::
  "'w tls_api \<Rightarrow> u32 \<Rightarrow> string option \<Rightarrow> u16 \<Rightarrow> netos \<Rightarrow> 'w \<Rightarrow> int \<times> netos \<times> 'w" where
  "createTcpConnection api timeout host port os w =
     (let port_str = snprintf_stored 8 (nat_to_dec (unat port)) in
      case getaddrinfo api w host port_str of
        (Inl ret, w) \<Rightarrow> (-1, os, w)
      | (Inr res, w) \<Rightarrow> try_addresses api timeout res (-1) os w)"

text \<open>The clean-up that every failing step after \<open>SSL_new\<close> runs.\<close>

definition tls_abort :: "ssl_obj \<Rightarrow> tls_client \<Rightarrow> tls_client" where
  "tls_abort s c =
     c\<lparr>tc_ssl := None, tc_sockfd := -1, tc_os := os_close (tc_sockfd c) (os_ssl_free s (tc_os c))\<rparr>"

definition tlsConnect :: "'w tls_api \<Rightarrow> tls_client \<Rightarrow> 'w \<Rightarrow> bool \<times> tls_client \<times> 'w" where
  "tlsConnect api c w =
     (let cfg = tc_config c in
      case createTcpConnection api (connect_timeout_ms cfg) (cfg_host cfg) (cfg_port cfg) (tc_os c) w of (fd, os, w) \<Rightarrow>
      let c = c\<lparr>tc_sockfd := fd, tc_os := os\<rparr> in
      if fd < 0 then (False, c, w)
      else
        case (case tc_ssl_ctx c of None \<Rightarrow> (None, w) | Some ctx \<Rightarrow>
                (case SSL_new api w of (ok, w) \<Rightarrow> (if ok then Some ctx else None, w))) of
          (None, w) \<Rightarrow> (False, c\<lparr>tc_ssl := None, tc_sockfd := -1, tc_os := os_close fd os\<rparr>, w)
        | (Some ctx, w) \<Rightarrow>
            let c = c\<lparr>tc_os := os\<lparr>os_ssl_live := os_ssl_live os + 1\<rparr>\<rparr>;
                s = \<lparr> ssl_of_ctx = ctx, ssl_sni = None, ssl_no_partial_wildcards = False,
                      ssl_verify_host = None, ssl_fd = None, ssl_established = False, ssl_out = [] \<rparr>;
                (sni_ok, w) = SSL_set_tlsext_host_name api w;
                s = (if sni_ok then s\<lparr>ssl_sni := cfg_host cfg\<rparr> else s);
                s = s\<lparr>ssl_no_partial_wildcards := True\<rparr>;
                (host_ok, w) = X509_VERIFY_PARAM_set1_host api w in
            if \<not> host_ok then (False, tls_abort s c, w)
            else
              let s = s\<lparr>ssl_verify_host := cfg_host cfg\<rparr>;
                  (fd_ok, w) = SSL_set_fd api w in
              if \<not> fd_ok then (False, tls_abort s c, w)
              else
                let s = s\<lparr>ssl_fd := Some fd\<rparr>;
                    (ret, w) = SSL_connect api w s in
                if ret \<noteq> 1 then (False, tls_abort s c, w)
                else (True, c\<lparr>tc_ssl := Some (s\<lparr>ssl_established := True\<rparr>), tc_state := Connected,
                              tc_reconnect_delay_ms := reconnect_base_ms cfg\<rparr>, w))"

definition tlsDisconnect :: "tls_client \<Rightarrow> tls_client" where
  "tlsDisconnect c =
     (let c = (case tc_ssl c of
                 None \<Rightarrow> c
               | Some s \<Rightarrow> c\<lparr>tc_ssl := None, tc_os := os_ssl_free s (tc_os c)\<rparr>);
          c = (if tc_sockfd c \<ge> 0
               then c\<lparr>tc_sockfd := -1, tc_os := os_close (tc_sockfd c) (tc_os c)\<rparr> else c)
      in c\<lparr>tc_state := Disconnected\<rparr>)"

definition TlsClient_delete :: "tls_client \<Rightarrow> tls_client" where
  "TlsClient_delete c = (tlsDisconnect c)\<lparr>tc_ssl_ctx := None\<rparr>"

section \<open>Writing\<close>

text \<open>
  \<open>SSL_write\<close> on an SSL object: of the bytes at the pointer it is given, the object takes over as
  many as the call reports.
\<close>

definition ssl_object_write ::
  "'w tls_api \<Rightarrow> ssl_obj \<Rightarrow> 'w \<Rightarrow> byte list \<Rightarrow> int \<Rightarrow> int \<times> ssl_error \<times> ssl_obj \<times> 'w" where
  "ssl_object_write api s w buf num =
     (case SSL_write api w buf num of (written, err, w') \<Rightarrow>
        (written, err, s\<lparr>ssl_out := ssl_out s @ take (nat written) buf\<rparr>, w'))"

text \<open>
  The loop of \<open>sslWriteAll\<close>, with the pointer as an offset into \<open>data\<close>; it passes what the pointer
  points to. \<open>None\<close> is a loop that does not end.
\<close>

partial_function (option) ssl_write_loop ::
  "'w tls_api \<Rightarrow> byte list \<Rightarrow> nat \<Rightarrow> nat \<Rightarrow> ssl_obj \<Rightarrow> 'w \<Rightarrow> (bool \<times> nat \<times> ssl_obj \<times> 'w) option" where
  "ssl_write_loop api data ptr remaining s w =
     (if remaining = 0 then Some (True, ptr, s, w)
      else
        case ssl_object_write api s w (drop ptr data) (int_of_size remaining) of (written, err, s', w') \<Rightarrow>
          if written \<le> 0 then
            (case err of
               SSL_ERROR_WANT_WRITE \<Rightarrow> ssl_write_loop api data ptr remaining s' w'
             | SSL_ERROR_WANT_READ \<Rightarrow> ssl_write_loop api data ptr remaining s' w'
             | SSL_ERROR_SYSCALL errno \<Rightarrow>
                 if errno = EINTR then ssl_write_loop api data ptr remaining s' w' else Some (False, ptr, s', w')
             | SSL_ERROR_ZERO_RETURN \<Rightarrow> Some (False, ptr, s', w')
             | SSL_ERROR_OTHER e \<Rightarrow> Some (False, ptr, s', w'))
          else ssl_write_loop api data (ptr + nat written) (size_sub remaining (nat written)) s' w')"

text \<open>
  \<open>sslWriteAll\<close> on the client's SSL object. Writing without an object is outside the program's
  behaviour and not defined.
\<close>

definition sslWriteAll :: "'w tls_api \<Rightarrow> byte list \<Rightarrow> nat \<Rightarrow> tls_client \<Rightarrow> 'w \<Rightarrow> (bool \<times> tls_client \<times> 'w) option" where
  "sslWriteAll api data len c w =
     (case tc_ssl c of
        None \<Rightarrow> None
      | Some s \<Rightarrow> do {
          (ok, n, s, w) \<leftarrow> ssl_write_loop api data 0 len s w;
          Some (ok, c\<lparr>tc_ssl := Some s\<rparr>, w)
        })"

section \<open>Back-off\<close>

definition f32_round :: "nat \<Rightarrow> int \<Rightarrow> float32" where
  "f32_round m e =
     (if m < 2 ^ 24 then \<lparr> f_man = m, f_exp = e \<rparr>
      else
        let s = floorlog 2 m - 24; q = m div 2 ^ s; r = m mod 2 ^ s;
            q = (if 2 * r > 2 ^ s \<or> (2 * r = 2 ^ s \<and> odd q) then q + 1 else q)
        in \<lparr> f_man = q, f_exp = e + int s \<rparr>)"

definition f32_of_u32 :: "u32 \<Rightarrow> float32" where
  "f32_of_u32 x = f32_round (unat x) 0"

definition f32_mult :: "float32 \<Rightarrow> float32 \<Rightarrow> float32" where
  "f32_mult a b = f32_round (f_man a * f_man b) (f_exp a + f_exp b)"

text \<open>Truncation to \<open>uint32_t\<close>; a value out of range has no defined result.\<close>

definition f32_to_u32 :: "float32 \<Rightarrow> u32 option" where
  "f32_to_u32 a =
     (let v = (if f_exp a \<ge> 0 then f_man a * 2 ^ nat (f_exp a) else f_man a div 2 ^ nat (- f_exp a))
      in if v < 2 ^ 32 then Some (of_nat v) else None)"

definition next_delay :: "TlsConfig \<Rightarrow> u32 \<Rightarrow> u32 option" where
  "next_delay cfg d = do {
     d' \<leftarrow> f32_to_u32 (f32_mult (f32_of_u32 d) (reconnect_multiplier cfg));
     Some (if d' > reconnect_max_ms cfg then reconnect_max_ms cfg else d')
   }"

definition sleepMs :: "'w tls_api \<Rightarrow> u32 \<Rightarrow> 'w \<Rightarrow> 'w" where
  "sleepMs api ms w =
     nanosleep api w \<lparr> tv_sec = int (unat (ms div 1000)), tv_nsec = int (unat (ms mod 1000)) * 1000000 \<rparr>"

section \<open>The network thread\<close>

text \<open>The first part of the loop body: connect if needed; the flag is \<open>False\<close> for \<open>continue\<close>.\<close>

definition ensure_connected :: "'w tls_api \<Rightarrow> tls_client \<Rightarrow> 'w \<Rightarrow> (bool \<times> tls_client \<times> 'w) option" where
  "ensure_connected api c w =
     (if tc_state c \<noteq> Connected then
        (let c = c\<lparr>tc_state := Connecting\<rparr> in
         case tlsConnect api c w of (ok, c, w) \<Rightarrow>
           if \<not> ok then
             let w = sleepMs api (tc_reconnect_delay_ms c) w in do {
               d \<leftarrow> next_delay (tc_config c) (tc_reconnect_delay_ms c);
               Some (False, c\<lparr>tc_reconnect_delay_ms := d\<rparr>, w)
             }
           else Some (True, c, w))
      else Some (True, c, w))"

text \<open>
  The rest of the body for a packet: the header, then the payload, the counters and the
  release of the slot. The other threads use the queue while the writes block,
  \<open>other_threads\<close>.
\<close>

definition send_payload ::
  "'w tls_api \<Rightarrow> FramePacket \<Rightarrow> tls_client \<Rightarrow> ring_queue \<Rightarrow> 'w \<Rightarrow> (tls_client \<times> ring_queue \<times> 'w) option" where
  "send_payload api pkt c q w = do {
     (ok, c, w) \<leftarrow> sslWriteAll api (mem_read (rq_mem q) (pkt_data pkt) (unat (pkt_len pkt))) (unat (pkt_len pkt)) c w;
     let (q, w) = other_threads api w q in
     if \<not> ok then Some (tlsDisconnect c, frame_packet_free (Some pkt) q, w)
     else
       let c = c\<lparr>tc_frames_sent := tc_frames_sent c + 1\<rparr>;
           c = c\<lparr>tc_bytes_sent := tc_bytes_sent c + (of_nat FRAME_HEADER_SIZE + ucast (pkt_len pkt))\<rparr>
       in Some (c, frame_packet_free (Some pkt) q, w)
   }"

definition send_packet ::
  "'w tls_api \<Rightarrow> byte_order \<Rightarrow> FramePacket \<Rightarrow> tls_client \<Rightarrow> ring_queue \<Rightarrow> 'w \<Rightarrow> (tls_client \<times> ring_queue \<times> 'w) option" where
  "send_packet api bo pkt c q w =
     (let hdr = initFrameHeader bo (pkt_seq pkt) (pkt_timestamp_ns pkt) (pkt_len pkt)
                  (pkt_pixel_format pkt) (pkt_width pkt) (pkt_height pkt) in do {
        (ok, c, w) \<leftarrow> sslWriteAll api (header_bytes bo hdr) FRAME_HEADER_SIZE c w;
        let (q, w) = other_threads api w q in
        if \<not> ok then Some (tlsDisconnect c, frame_packet_free (Some pkt) q, w)
        else send_payload api pkt c q w
      })"

definition network_body ::
  "'w tls_api \<Rightarrow> byte_order \<Rightarrow> tls_client \<Rightarrow> ring_queue \<Rightarrow> 'w \<Rightarrow> (tls_client \<times> ring_queue \<times> 'w) option" where
  "network_body api bo c q w = do {
     (go, c, w) \<leftarrow> ensure_connected api c w;
     let (q, w) = other_threads api w q in
     if \<not> go then Some (c, q, w)
     else do {
       (r, q, w) \<leftarrow> pop (queue_env api) QUEUE_TIMEOUT_MS w q;
       case r of None \<Rightarrow> Some (c, q, w) | Some pkt \<Rightarrow> send_packet api bo pkt c q w
     }
   }"

partial_function (option) networkLoop ::
  "'w tls_api \<Rightarrow> byte_order \<Rightarrow> tls_client \<Rightarrow> ring_queue \<Rightarrow> 'w \<Rightarrow> (tls_client \<times> ring_queue \<times> 'w) option" where
  "networkLoop api bo c q w =
     (case running api w of (go, w) \<Rightarrow>
        if go then do {
          (c, q, w) \<leftarrow> network_body api bo c q w;
          networkLoop api bo c q w
        }
        else Some (tlsDisconnect c, q, w))"

section \<open>The write loop\<close>

text \<open>The state of the loop is the SSL object and the world.\<close>

definition ssl_write_call :: "'w tls_api \<Rightarrow> byte list \<Rightarrow> nat \<Rightarrow> nat \<Rightarrow> ssl_obj \<times> 'w \<Rightarrow> chunk_outcome \<times> ssl_obj \<times> 'w" where
  "ssl_write_call api data ptr rem sw =
     (case ssl_object_write api (fst sw) (snd sw) (drop ptr data) (int_of_size rem) of (written, err, sw') \<Rightarrow>
        (if written \<le> 0 then if ssl_retry err then Retry else Stop else Advance (nat written), sw'))"

lemma ssl_write_turn:
  "(if rem = 0 then Some (True, ptr, s, w)
      else
        case ssl_object_write api s w (drop ptr data) (int_of_size rem) of (written, err, s', w') \<Rightarrow>
          if written \<le> 0 then
            (case err of
               SSL_ERROR_WANT_WRITE \<Rightarrow> f ptr rem s' w'
             | SSL_ERROR_WANT_READ \<Rightarrow> f ptr rem s' w'
             | SSL_ERROR_SYSCALL errno \<Rightarrow> if errno = EINTR then f ptr rem s' w' else Some (False, ptr, s', w')
             | SSL_ERROR_ZERO_RETURN \<Rightarrow> Some (False, ptr, s', w')
             | SSL_ERROR_OTHER e \<Rightarrow> Some (False, ptr, s', w'))
          else f (ptr + nat written) (size_sub rem (nat written)) s' w')
   = chunk_body size_sub (ssl_write_call api data) (\<lambda>ptr rem (s, w). f ptr rem s w) ptr rem (s, w)"
  by (auto simp: chunk_body_def ssl_write_call_def split: prod.split ssl_error.split)

interpretation ssl_write: chunk_loop size_sub "ssl_write_call api data" "\<lambda>ptr rem (s, w). ssl_write_loop api data ptr rem s w"
  for api :: "'w tls_api" and data
proof (unfold_locales, rule size_sub_eq)
  show "(case sw of (s, w) \<Rightarrow> ssl_write_loop api data ptr rem s w)
      = chunk_body size_sub (ssl_write_call api data) (\<lambda>ptr rem (s, w). ssl_write_loop api data ptr rem s w) ptr rem sw"
    for ptr rem sw
    unfolding split_beta ssl_write_loop.simps [of api data ptr rem "fst sw" "snd sw"] ssl_write_turn [unfolded split_beta]
    by simp
next
  fix P ptr rem r and sw :: "ssl_obj \<times> 'w"
  assume step: "\<And>f ptr rem sw r. (\<And>ptr rem sw r. f ptr rem sw = Some r \<Longrightarrow> P ptr rem sw r) \<Longrightarrow>
        chunk_body size_sub (ssl_write_call api data) f ptr rem sw = Some r \<Longrightarrow> P ptr rem sw r"
    and res: "(case sw of (s, w) \<Rightarrow> ssl_write_loop api data ptr rem s w) = Some r"
  obtain s w where sw: "sw = (s, w)" by (cases sw)
  have res': "ssl_write_loop api data ptr rem s w = Some r" using res sw by simp
  have "api = api \<and> data = data \<longrightarrow> P ptr rem (s, w) r"
  proof (rule ssl_write_loop.raw_induct [where P = "\<lambda>api' data' ptr rem s w r. api' = api \<and> data' = data \<longrightarrow> P ptr rem (s, w) r",
        OF _ res'], intro impI, unfold ssl_write_turn)
    fix f api' data' ptr rem s w r
    assume IH: "\<And>api' data' ptr rem s w r. f api' data' ptr rem s w = Some r \<Longrightarrow> api' = api \<and> data' = data \<longrightarrow> P ptr rem (s, w) r"
      and b: "chunk_body size_sub (ssl_write_call api' data') (\<lambda>ptr rem (s, w). f api' data' ptr rem s w) ptr rem (s, w) = Some r"
      and e: "api' = api \<and> data' = data"
    show "P ptr rem (s, w) r"
      using step [of "\<lambda>ptr rem (s, w). f api data ptr rem s w" ptr rem "(s, w)" r] IH b e by auto
  qed
  then show "P ptr rem sw r" using sw by simp
qed

text \<open>
  Documented behaviour of \<open>SSL_write\<close>: it never reports more bytes than it was given; the
  measure \<open>m\<close> of the connection decreases whenever it asks to be called again.
\<close>

definition ssl_write_bounded :: "'w tls_api \<Rightarrow> bool" where
  "ssl_write_bounded api \<longleftrightarrow> (\<forall>w bs n. fst (SSL_write api w bs n) \<le> n)"

definition ssl_write_progress :: "('w \<Rightarrow> nat) \<Rightarrow> 'w tls_api \<Rightarrow> bool" where
  "ssl_write_progress m api \<longleftrightarrow>
     (\<forall>w bs n k e w'. SSL_write api w bs n = (k, e, w') \<longrightarrow> k \<le> 0 \<longrightarrow> ssl_retry e \<longrightarrow> m w' < m w)"

lemma ssl_write_call_bounds:
  assumes "ssl_write_bounded api" and "ssl_write_call api data ptr rem sw = (Advance k, sw')"
  shows "0 < k \<and> k \<le> rem"
proof -
  obtain n e w1 where c: "SSL_write api (snd sw) (drop ptr data) (int_of_size rem) = (n, e, w1)"
    by (cases "SSL_write api (snd sw) (drop ptr data) (int_of_size rem)") auto
  have "n \<le> int_of_size rem"
    using assms(1) c unfolding ssl_write_bounded_def by (metis fst_conv)
  then have "n \<le> int rem" using int_of_size_le [of rem] by linarith
  then show ?thesis using assms(2) c by (auto simp: ssl_write_call_def ssl_object_write_def split: if_splits)
qed

text \<open>A call that advances has taken over the bytes it was given; the others have taken over none.\<close>

lemma ssl_write_call_takes:
  assumes "ssl_write_call api data ptr rem (s, w) = (out, s', w')"
  shows "s' = s\<lparr>ssl_out := ssl_out s @ (case out of Advance k \<Rightarrow> take k (drop ptr data) | _ \<Rightarrow> [])\<rparr>"
  using assms by (auto simp: ssl_write_call_def ssl_object_write_def split: prod.splits if_splits)

definition ssl_took :: "ssl_obj \<Rightarrow> byte list \<Rightarrow> nat \<Rightarrow> ssl_obj \<times> 'w \<Rightarrow> bool" where
  "ssl_took s data ptr sw \<longleftrightarrow> fst sw = s\<lparr>ssl_out := ssl_out s @ take ptr data\<rparr>"

lemma ssl_took_call:
  assumes "ssl_took s data ptr sw" and "ssl_write_call api data ptr rem sw = (out, sw')"
  shows "ssl_took s data (case out of Advance k \<Rightarrow> ptr + k | _ \<Rightarrow> ptr) sw'"
proof -
  obtain s1 w1 s2 w2 where sw: "sw = (s1, w1)" "sw' = (s2, w2)" by (metis surj_pair)
  show ?thesis
    using assms ssl_write_call_takes [of api data ptr rem s1 w1 out s2 w2] sw
    by (auto simp: ssl_took_def take_add split: chunk_outcome.split)
qed

lemma sslWriteAll_result:
  assumes "ssl_write_bounded api" and "tc_ssl c = Some s" and "len < 2 ^ 64"
    and "sslWriteAll api data len c w = Some (ok, c', w')"
  obtains n where "n \<le> len" "ok \<longleftrightarrow> n = len" "c' = c\<lparr>tc_ssl := Some (s\<lparr>ssl_out := ssl_out s @ take n data\<rparr>)\<rparr>"
proof -
  obtain n s' where r: "ssl_write_loop api data 0 len s w = Some (ok, n, s', w')" and c: "c' = c\<lparr>tc_ssl := Some s'\<rparr>"
    using assms(2,4) by (auto simp: sslWriteAll_def bind_eq_Some_conv)
  have "ssl_took s data n (s', w') \<and> 0 \<le> n \<and> n \<le> 0 + len \<and> (ok \<longleftrightarrow> n = 0 + len)"
  proof (rule ssl_write.loop_keeps [where R = "ssl_took s data"])
    show "k \<le> rem" if "ssl_write_call api data ptr rem sw = (Advance k, sw')" for ptr rem sw k sw'
      using ssl_write_call_bounds [OF assms(1) that] by simp
    show "(case (s, w) of (s, w) \<Rightarrow> ssl_write_loop api data 0 len s w) = Some (ok, n, s', w')" using r by simp
    show "ssl_took s data 0 (s, w)" by (simp add: ssl_took_def)
  qed (rule ssl_took_call, assumption+, rule assms(3))
  then show ?thesis using that [of n] c by (simp add: ssl_took_def)
qed

lemma sslWriteAll_returns:
  assumes "ssl_write_bounded api" and "ssl_write_progress m api" and "tc_ssl c = Some s" and "len < 2 ^ 64"
  shows "\<exists>r. sslWriteAll api data len c w = Some r"
proof -
  have "ssl_write_call api data ptr rem sw = (Retry, sw') \<Longrightarrow> m (snd sw') < m (snd sw)" for ptr rem sw sw'
    using assms(2) by (auto simp: ssl_write_call_def ssl_object_write_def ssl_write_progress_def split: prod.splits if_splits)
  then have "\<exists>r. (case (s, w) of (s, w) \<Rightarrow> ssl_write_loop api data 0 len s w) = Some r"
    by (intro ssl_write.loop_total [where m = "m \<circ> snd"]) (use assms(4) in \<open>auto dest: ssl_write_call_bounds [OF assms(1)]\<close>)
  then show ?thesis using assms(3) by (auto simp: sslWriteAll_def)
qed

text \<open>
  C29. \<open>sslWriteAll\<close> always comes to an end when TLS stops asking for retries, however it cuts
  the data into partial writes: the session has then accepted a prefix of the data, in order
  and without repetition, and the result says whether that prefix is everything.
\<close>

theorem sslWriteAll_correct:
  assumes "ssl_write_bounded api" and "ssl_write_progress m api" and "tc_ssl c = Some s" and "length data < 2 ^ 64"
  shows "\<exists>ok n w'. sslWriteAll api data (length data) c w
      = Some (ok, c\<lparr>tc_ssl := Some (s\<lparr>ssl_out := ssl_out s @ take n data\<rparr>)\<rparr>, w')
    \<and> n \<le> length data \<and> (ok \<longleftrightarrow> n = length data)"
proof -
  obtain ok c' w' where r: "sslWriteAll api data (length data) c w = Some (ok, c', w')"
    using sslWriteAll_returns [OF assms] by (metis prod_cases3)
  obtain n where "n \<le> length data" "ok \<longleftrightarrow> n = length data"
    "c' = c\<lparr>tc_ssl := Some (s\<lparr>ssl_out := ssl_out s @ take n data\<rparr>)\<rparr>"
    by (rule sslWriteAll_result [OF assms(1,3,4) r])
  with r show ?thesis by blast
qed

text \<open>
  A concrete environment: one address, one descriptor, writes that move up to two bytes, and
  another thread that pushes a frame whenever it gets the chance.
\<close>

definition demo_api :: "nat tls_api" where
  "demo_api =
     \<lparr> SSL_CTX_new = (\<lambda>w. (True, w)), SSL_CTX_set_min_proto_version = (\<lambda>w v. (True, w)), SSL_CTX_load_verify_locations = (\<lambda>w p. (True, w)),
       SSL_CTX_set_cipher_list = (\<lambda>w p. (True, w)), getaddrinfo = (\<lambda>w h p. (Inr [0], w)),
       sys_socket = (\<lambda>w fds rp. (if 3 \<in> set fds then -1 else 3, w)), sys_connect = (\<lambda>w fd rp. (0, 0, w)),
       sys_poll = (\<lambda>w fd t. (1, w)), so_error = (\<lambda>w fd. (0, w)), SSL_new = (\<lambda>w. (True, w)),
       SSL_set_tlsext_host_name = (\<lambda>w. (True, w)), X509_VERIFY_PARAM_set1_host = (\<lambda>w. (True, w)),
       SSL_set_fd = (\<lambda>w. (True, w)), SSL_connect = (\<lambda>w s. (1, w)),
       SSL_write = (\<lambda>w bs n. (min n 2, SSL_ERROR_ZERO_RETURN, w)), nanosleep = (\<lambda>w t. w),
       running = (\<lambda>w. (0 < w, w - 1)), queue_env = nowait_env,
       other_threads = (\<lambda>w q. (case push_frame demo_frame q of None \<Rightarrow> q | Some (ok, q') \<Rightarrow> q', w)) \<rparr>"

definition demo_config :: TlsConfig where
  "demo_config = default_TlsConfig\<lparr>cfg_host := Some ''cam''\<rparr>"

definition demo_ctx :: ssl_ctx where
  "demo_ctx = \<lparr> ctx_min_proto = TLS1_2_VERSION, ctx_ca_file = None, ctx_verify_peer = True, ctx_verify_depth = 4,
     ctx_cipher_list = Some ''ECDHE+AESGCM:DHE+AESGCM:ECDHE+CHACHA20:DHE+CHACHA20'' \<rparr>"

definition demo_client :: tls_client where
  "demo_client = (TlsClient_new demo_config)\<lparr>tc_ssl_ctx := Some demo_ctx\<rparr>"

definition demo_session :: ssl_obj where
  "demo_session = \<lparr> ssl_of_ctx = demo_ctx, ssl_sni = Some ''cam'', ssl_no_partial_wildcards = True,
     ssl_verify_host = Some ''cam'', ssl_fd = Some 3, ssl_established = True, ssl_out = [] \<rparr>"

lemma demo_api_bounds: "ssl_write_bounded demo_api" "ssl_write_progress m demo_api"
  by (simp_all add: ssl_write_bounded_def ssl_write_progress_def demo_api_def)

theorem sslWriteAll_correct_witness:
  "\<exists>ok n w'. sslWriteAll demo_api [1, 2, 3] 3 (demo_client\<lparr>tc_ssl := Some demo_session\<rparr>) 0
     = Some (ok, demo_client\<lparr>tc_ssl := Some (demo_session\<lparr>ssl_out := take n [1, 2, 3]\<rparr>)\<rparr>, w') \<and> (ok \<longleftrightarrow> n = 3)"
  using sslWriteAll_correct [OF demo_api_bounds, of "demo_client\<lparr>tc_ssl := Some demo_session\<rparr>" demo_session "[1, 2, 3]" 0]
  by (auto simp: demo_session_def numeral_3_eq_3)

section \<open>Connecting without leaks\<close>

text \<open>Documented behaviour of \<open>socket\<close>: a descriptor it returns is not open already.\<close>

definition socket_fresh :: "'w tls_api \<Rightarrow> bool" where
  "socket_fresh api \<longleftrightarrow>
     (\<forall>w fds rp. let fd = fst (sys_socket api w fds rp) in fd < 0 \<or> fd \<notin> set fds)"

definition os_wf :: "netos \<Rightarrow> bool" where
  "os_wf os \<longleftrightarrow> set (os_nonblock os) \<subseteq> set (os_fds os)"

lemma os_round_trip:
  assumes "os_wf os" and "fd \<notin> set (os_fds os)"
  shows "os_close fd (os_set_nonblock fd True (os_open fd os)) = os"
    and "os_set_nonblock fd False (os_set_nonblock fd True (os_open fd os)) = os_open fd os"
    and "fd \<notin> set (os_nonblock (os_open fd os))"
proof -
  have r: "fd \<notin> set (os_nonblock os)" using assms by (auto simp: os_wf_def)
  then have "removeAll fd (os_nonblock os) = os_nonblock os" by (rule removeAll_id)
  with r show "os_close fd (os_set_nonblock fd True (os_open fd os)) = os"
    and "os_set_nonblock fd False (os_set_nonblock fd True (os_open fd os)) = os_open fd os"
    and "fd \<notin> set (os_nonblock (os_open fd os))"
    by (simp_all add: os_close_def os_set_nonblock_def os_open_def)
qed

lemma try_addresses_cases:
  assumes "socket_fresh api" and "os_wf os" and "try_addresses api timeout addrs sockfd os w = (fd, os', w')"
    and "sockfd < 0"
  shows "(fd < 0 \<and> os' = os) \<or> (0 \<le> fd \<and> fd \<notin> set (os_fds os) \<and> os' = os_open fd os)"
  using assms(3,4)
proof (induction addrs arbitrary: sockfd w)
  case (Cons rp rest)
  obtain fd1 w1 where s: "sys_socket api w (os_fds os) rp = (fd1, w1)" by (cases "sys_socket api w (os_fds os) rp")
  show ?case
  proof (cases "fd1 < 0")
    case True
    then show ?thesis using Cons.prems s Cons.IH by simp
  next
    case False
    have "fd1 < 0 \<or> fd1 \<notin> set (os_fds os)"
      using assms(1) s unfolding socket_fresh_def Let_def by (metis fst_conv)
    then have f: "fd1 \<notin> set (os_fds os)" using False by simp
    show ?thesis
      using Cons.prems False f Cons.IH [of "-1"]
      by (auto simp: s Let_def os_round_trip [OF assms(2) f] split: prod.splits if_splits)
  qed
qed simp

text \<open>
  A TCP connection attempt, over any list of addresses and any failures of the calls on
  the way, either fails and leaves exactly the descriptors it found, or returns one new
  descriptor, open and back in blocking mode.
\<close>

lemma tcp_connect_no_leak:
  assumes "socket_fresh api" and "os_wf os"
    and "createTcpConnection api timeout host port os w = (fd, os', w')"
  shows "if fd < 0 then os' = os
    else fd \<notin> set (os_fds os) \<and> os_fds os' = fd # os_fds os \<and> fd \<notin> set (os_nonblock os')
      \<and> os_nonblock os' = os_nonblock os \<and> os_ssl_live os' = os_ssl_live os"
proof -
  have "(fd < 0 \<and> os' = os) \<or> (0 \<le> fd \<and> fd \<notin> set (os_fds os) \<and> os' = os_open fd os)"
    using assms(3) try_addresses_cases [OF assms(1,2), of timeout _ "-1"]
    by (auto simp: createTcpConnection_def Let_def split: prod.splits sum.splits)
  then show ?thesis using assms(2) by (auto simp: os_open_def os_wf_def)
qed

lemma demo_api_fresh: "socket_fresh demo_api"
  by (simp add: socket_fresh_def demo_api_def Let_def)

lemma tcp_connect_no_leak_example:
  "createTcpConnection demo_api 5000 (Some ''cam'') 4433 (tc_os demo_client) 0
     = (3, (tc_os demo_client)\<lparr>os_fds := [3]\<rparr>, 0)
   \<and> os_nonblock (tc_os demo_client) = []"
proof -
  have r: "createTcpConnection demo_api 5000 (Some ''cam'') 4433 (tc_os demo_client) 0
     = (3, (tc_os demo_client)\<lparr>os_fds := [3]\<rparr>, 0)"
    by (simp add: createTcpConnection_def Let_def demo_api_def demo_client_def TlsClient_new_def os_open_def os_set_nonblock_def)
  have "os_wf (tc_os demo_client)" by (simp add: os_wf_def demo_client_def TlsClient_new_def)
  from tcp_connect_no_leak [OF demo_api_fresh this r] show ?thesis
    using r by (simp add: demo_client_def TlsClient_new_def)
qed

definition tc_inv :: "tls_client \<Rightarrow> bool" where
  "tc_inv c \<longleftrightarrow>
     os_nonblock (tc_os c) = []
   \<and> (case tc_ssl c of
        None \<Rightarrow> tc_sockfd c < 0 \<and> tc_state c \<noteq> Connected \<and> os_fds (tc_os c) = [] \<and> os_ssl_live (tc_os c) = 0
      | Some s \<Rightarrow> 0 \<le> tc_sockfd c \<and> tc_state c = Connected \<and> os_fds (tc_os c) = [tc_sockfd c]
          \<and> os_ssl_live (tc_os c) = 1 \<and> ssl_established s \<and> ssl_fd s = Some (tc_sockfd c)
          \<and> ssl_verify_host s = cfg_host (tc_config c) \<and> tc_ssl_ctx c = Some (ssl_of_ctx s))"

lemma tc_inv_new: "tc_inv (TlsClient_new cfg)"
  by (simp add: tc_inv_def TlsClient_new_def)

text \<open>The connection record a successful \<open>tlsConnect\<close> leaves, and the one it leaves on failure.\<close>

definition ssl_ready :: "tls_client \<Rightarrow> ssl_ctx \<Rightarrow> int \<Rightarrow> ssl_obj \<Rightarrow> bool" where
  "ssl_ready c ctx fd s \<longleftrightarrow> ssl_of_ctx s = ctx \<and> ssl_verify_host s = cfg_host (tc_config c)
     \<and> ssl_no_partial_wildcards s \<and> ssl_fd s = Some fd \<and> ssl_established s \<and> ssl_out s = []"

lemma tlsConnect_cases:
  assumes "socket_fresh api" and "os_wf (tc_os c)" and "tc_ssl c = None" and "tlsConnect api c w = (ok, c', w')"
  obtains (failed) n fd where "\<not> ok" "n \<le> 1" "fd < 0"
      "c' = c\<lparr>tc_ssl := None, tc_sockfd := fd, tc_os := (tc_os c)\<lparr>os_streams := os_streams (tc_os c) @ replicate n []\<rparr>\<rparr>"
    | (connected) fd ctx s where "ok" "0 \<le> fd" "fd \<notin> set (os_fds (tc_os c))" "tc_ssl_ctx c = Some ctx" "ssl_ready c ctx fd s"
      "c' = c\<lparr>tc_ssl := Some s, tc_sockfd := fd, tc_state := Connected,
        tc_reconnect_delay_ms := reconnect_base_ms (tc_config c),
        tc_os := (os_open fd (tc_os c))\<lparr>os_ssl_live := os_ssl_live (tc_os c) + 1\<rparr>\<rparr>"
proof -
  obtain fd os1 w1 where t: "createTcpConnection api (connect_timeout_ms (tc_config c)) (cfg_host (tc_config c))
      (cfg_port (tc_config c)) (tc_os c) w = (fd, os1, w1)"
    by (cases "createTcpConnection api (connect_timeout_ms (tc_config c)) (cfg_host (tc_config c))
      (cfg_port (tc_config c)) (tc_os c) w") auto
  have os1: "(fd < 0 \<and> os1 = tc_os c) \<or> (0 \<le> fd \<and> fd \<notin> set (os_fds (tc_os c)) \<and> os1 = os_open fd (tc_os c))"
    using t try_addresses_cases [OF assms(1,2), of "connect_timeout_ms (tc_config c)" _ "-1"]
    by (auto simp: createTcpConnection_def Let_def split: prod.splits sum.splits)
  show ?thesis
  proof (cases "fd < 0")
    case True
    then have "c' = c\<lparr>tc_sockfd := fd, tc_os := tc_os c\<rparr>" "\<not> ok"
      using assms(4) os1 by (auto simp: tlsConnect_def Let_def t)
    then show ?thesis using failed [of 0 fd] assms(3) True by simp
  next
    case False
    then have f: "fd \<notin> set (os_fds (tc_os c))" and o: "os1 = os_open fd (tc_os c)" using os1 by auto
    have nb: "removeAll fd (os_nonblock (tc_os c)) = os_nonblock (tc_os c)"
      using f assms(2) by (intro removeAll_id) (auto simp: os_wf_def)
    have closed: "os_close fd os1 = tc_os c" by (simp add: o os_close_def os_open_def nb)
    have live: "os_ssl_live os1 = os_ssl_live (tc_os c)" by (simp add: o os_open_def)
    have freed: "os_close fd (os_ssl_free s (os1\<lparr>os_ssl_live := Suc (os_ssl_live os1)\<rparr>))
        = (tc_os c)\<lparr>os_streams := os_streams (tc_os c) @ [ssl_out s]\<rparr>" for s
      by (simp add: o os_close_def os_open_def os_ssl_free_def nb)
    show ?thesis
    proof (cases "tc_ssl_ctx c")
      case None
      then show ?thesis
        using failed [of 0 "-1"] assms(4) False by (auto simp: tlsConnect_def Let_def t closed)
    next
      case (Some ctx)
      obtain ok1 w2 where c1: "SSL_new api w1 = (ok1, w2)" by (cases "SSL_new api w1")
      obtain ok2 w3 where c2: "SSL_set_tlsext_host_name api w2 = (ok2, w3)" by (cases "SSL_set_tlsext_host_name api w2")
      obtain ok3 w4 where c3: "X509_VERIFY_PARAM_set1_host api w3 = (ok3, w4)" by (cases "X509_VERIFY_PARAM_set1_host api w3")
      obtain ok4 w5 where c4: "SSL_set_fd api w4 = (ok4, w5)" by (cases "SSL_set_fd api w4")
      note calls = tlsConnect_def Let_def t closed Some c1 c2 c3 c4 freed tls_abort_def
      show ?thesis
      proof (cases "ok1 \<and> ok3 \<and> ok4")
        case False
        then show ?thesis
          using failed [of "if ok1 then 1 else 0" "-1"] assms(4) \<open>\<not> fd < 0\<close>
          by (auto simp: calls split: if_splits)
      next
        case True
        let ?s = "\<lparr> ssl_of_ctx = ctx, ssl_sni = (if ok2 then cfg_host (tc_config c) else None),
          ssl_no_partial_wildcards = True, ssl_verify_host = cfg_host (tc_config c), ssl_fd = Some fd,
          ssl_established = True, ssl_out = [] \<rparr>"
        from True show ?thesis
          using failed [of 1 "-1"] connected [of fd ctx ?s, folded o live] assms(4) \<open>\<not> fd < 0\<close> f
          by (auto simp: calls ssl_ready_def split: prod.splits if_splits)
      qed
    qed
  qed
qed

text \<open>
  C30. From a client that holds no connection, \<open>tlsConnect\<close> either fails and holds none
  afterwards, every descriptor and SSL object it opened closed again; or it leaves one
  established session, attached to the one descriptor it opened, which runs with the
  client's context and verifies the configured host name, and resets the back-off.
\<close>

theorem tlsConnect_all_or_nothing:
  assumes "socket_fresh api" and "tc_inv c" and "tc_ssl c = None" and "tlsConnect api c w = (ok, c', w')"
  shows "if ok
    then tc_inv c' \<and> tc_state c' = Connected \<and> tc_reconnect_delay_ms c' = reconnect_base_ms (tc_config c)
      \<and> (\<exists>s. tc_ssl c' = Some s \<and> ssl_established s \<and> Some (ssl_of_ctx s) = tc_ssl_ctx c
            \<and> ssl_verify_host s = cfg_host (tc_config c) \<and> ssl_fd s = Some (tc_sockfd c') \<and> ssl_out s = [])
    else tc_inv c' \<and> tc_ssl c' = None \<and> os_fds (tc_os c') = [] \<and> os_ssl_live (tc_os c') = 0
      \<and> tc_reconnect_delay_ms c' = tc_reconnect_delay_ms c"
proof -
  have "os_wf (tc_os c)" using assms(2) by (simp add: os_wf_def tc_inv_def)
  with assms(1) show ?thesis
    using assms(3,4)
  proof (cases rule: tlsConnect_cases)
    case (failed n fd)
    then show ?thesis using assms(2,3) by (simp add: tc_inv_def)
  next
    case (connected fd ctx s)
    then show ?thesis using assms(2,3) by (simp add: tc_inv_def ssl_ready_def os_open_def)
  qed
qed

lemma demo_client_inv: "tc_inv demo_client" "tc_ssl demo_client = None"
  using tc_inv_new [of demo_config] by (simp_all add: demo_client_def tc_inv_def TlsClient_new_def)

lemma demo_connect:
  "tlsConnect demo_api demo_client w = (True, demo_client\<lparr>tc_ssl := Some demo_session, tc_sockfd := 3,
     tc_state := Connected, tc_os := (tc_os demo_client)\<lparr>os_fds := [3], os_ssl_live := 1\<rparr>\<rparr>, w)"
  by (simp add: tlsConnect_def Let_def createTcpConnection_def demo_client_def demo_config_def
      TlsClient_new_def default_TlsConfig_def os_open_def os_set_nonblock_def demo_session_def)
    (simp add: demo_api_def os_open_def os_set_nonblock_def)

theorem tlsConnect_all_or_nothing_witness:
  "\<exists>c'. tlsConnect demo_api demo_client 0 = (True, c', 0) \<and> tc_inv c' \<and> tc_state c' = Connected"
  using tlsConnect_all_or_nothing [OF demo_api_fresh demo_client_inv demo_connect [of 0]] demo_connect [of 0] by auto

lemma tlsDisconnect_inv:
  assumes "tc_inv c"
  shows "tc_inv (tlsDisconnect c)" "tc_ssl (tlsDisconnect c) = None" "tc_sockfd (tlsDisconnect c) < 0"
    "tc_state (tlsDisconnect c) = Disconnected" "os_fds (tc_os (tlsDisconnect c)) = []"
    "os_ssl_live (tc_os (tlsDisconnect c)) = 0"
  using assms
  by (auto simp: tlsDisconnect_def Let_def tc_inv_def os_close_def os_ssl_free_def split: option.splits)

text \<open>
  Disconnecting, which the destructor and the end of the network thread also do, closes
  whatever the client has open, and doing it again changes nothing.
\<close>

lemma tlsDisconnect_closes:
  assumes "tc_inv c"
  shows "tc_inv (tlsDisconnect c) \<and> tc_ssl (tlsDisconnect c) = None \<and> tc_sockfd (tlsDisconnect c) < 0
    \<and> tc_state (tlsDisconnect c) = Disconnected \<and> os_fds (tc_os (tlsDisconnect c)) = []
    \<and> os_ssl_live (tc_os (tlsDisconnect c)) = 0 \<and> tlsDisconnect (tlsDisconnect c) = tlsDisconnect c"
  using tlsDisconnect_inv [OF assms]
  by (simp add: tlsDisconnect_def [of "tlsDisconnect c"] Let_def)

lemma tlsDisconnect_closes_example: "os_fds (tc_os (tlsDisconnect demo_client)) = []"
  using tlsDisconnect_closes [OF demo_client_inv(1)] by simp

section \<open>Initialisation\<close>

text \<open>Documented behaviour: the call accepts every version that the library supports.\<close>

definition tls12_supported :: "'w tls_api \<Rightarrow> bool" where
  "tls12_supported api \<longleftrightarrow> (\<forall>w. fst (SSL_CTX_set_min_proto_version api w TLS1_2_VERSION))"

lemma initialize_result:
  assumes "tc_ssl_ctx c = None" and "initialize api c w = (ok, c', w')"
  shows "if ok
    then cfg_host (tc_config c) \<notin> {None, Some []} \<and> cfg_port (tc_config c) \<noteq> 0
      \<and> (\<exists>ctx. c' = c\<lparr>tc_ssl_ctx := Some ctx\<rparr> \<and> (tls12_supported api \<longrightarrow> ctx_min_proto ctx = TLS1_2_VERSION) \<and> ctx_verify_peer ctx
            \<and> ctx_verify_depth ctx = 4
            \<and> ctx_ca_file ctx = (if cfg_ca_path (tc_config c) = Some [] then None else cfg_ca_path (tc_config c)))
    else c' = c"
proof (cases "cfg_host (tc_config c) \<in> {None, Some []} \<or> cfg_port (tc_config c) = 0")
  case True
  then show ?thesis using assms(2) by (auto simp: initialize_def)
next
  case False
  then have i: "createSslContext api c w = (ok, c', w')" using assms(2) by (auto simp: initialize_def)
  let ?ca = "cfg_ca_path (tc_config c)"
  let ?ciphers = "''ECDHE+AESGCM:DHE+AESGCM:ECDHE+CHACHA20:DHE+CHACHA20''"
  obtain ok1 w0 where c1: "SSL_CTX_new api w = (ok1, w0)" by (cases "SSL_CTX_new api w")
  obtain ok0 w1 where c0: "SSL_CTX_set_min_proto_version api w0 TLS1_2_VERSION = (ok0, w1)"
    by (cases "SSL_CTX_set_min_proto_version api w0 TLS1_2_VERSION")
  then have proto: "tls12_supported api \<Longrightarrow> ok0" unfolding tls12_supported_def by (metis fst_conv)
  obtain ok2 w2 where c2: "(if ?ca \<noteq> None \<and> the ?ca \<noteq> [] then SSL_CTX_load_verify_locations api w1 (the ?ca) else (True, w1)) = (ok2, w2)"
    by (cases "if ?ca \<noteq> None \<and> the ?ca \<noteq> [] then SSL_CTX_load_verify_locations api w1 (the ?ca) else (True, w1)")
  obtain ok3 w3 where c3: "SSL_CTX_set_cipher_list api w2 ?ciphers = (ok3, w3)"
    by (cases "SSL_CTX_set_cipher_list api w2 ?ciphers")
  have ca: "(if ?ca \<noteq> None \<and> the ?ca \<noteq> [] then ?ca else None) = (if ?ca = Some [] then None else ?ca)"
    by (cases ?ca) auto
  note r = i [unfolded createSslContext_def Let_def c1 c0 prod.case, unfolded c2 c3 prod.case]
  show ?thesis
  proof (cases "ok1 \<and> ok2")
    case False
    then show ?thesis using r assms(1) by (auto split: if_splits)
  next
    case True
    then show ?thesis using r \<open>\<not> (cfg_host _ \<in> _ \<or> _)\<close> ca proto by (auto split: if_splits)
  qed
qed

text \<open>
  C33. A client that initialises has a host and a port, and a context that refuses protocols
  before TLS 1.2 (if the library supports it: the code ignores the result of the call), verifies the peer's certificate to depth 4 and trusts the configured CA
  file, if one is given; a client that does not initialise has no new context.
\<close>

theorem initialize_secure:
  assumes "tc_ssl_ctx c = None" and "initialize api c w = (ok, c', w')"
  shows "if ok
    then cfg_host (tc_config c) \<notin> {None, Some []} \<and> cfg_port (tc_config c) \<noteq> 0
      \<and> (\<exists>ctx. c' = c\<lparr>tc_ssl_ctx := Some ctx\<rparr> \<and> (tls12_supported api \<longrightarrow> ctx_min_proto ctx = TLS1_2_VERSION) \<and> ctx_verify_peer ctx
            \<and> ctx_verify_depth ctx = 4
            \<and> ctx_ca_file ctx = (if cfg_ca_path (tc_config c) = Some [] then None else cfg_ca_path (tc_config c)))
    else c' = c"
  by (rule initialize_result [OF assms])

lemma demo_initialize: "initialize demo_api (TlsClient_new demo_config) w = (True, demo_client, w)"
  by (simp add: initialize_def createSslContext_def demo_api_def demo_client_def demo_config_def
      default_TlsConfig_def TlsClient_new_def demo_ctx_def Let_def)

theorem initialize_secure_witness:
  "\<exists>ctx. initialize demo_api (TlsClient_new demo_config) 0 = (True, (TlsClient_new demo_config)\<lparr>tc_ssl_ctx := Some ctx\<rparr>, 0)
     \<and> ctx_verify_peer ctx"
proof -
  have "tc_ssl_ctx (TlsClient_new demo_config) = None" by (simp add: TlsClient_new_def)
  from initialize_secure [OF this demo_initialize [of 0]] show ?thesis using demo_initialize [of 0] by auto
qed

section \<open>Exponential back-off\<close>

definition f32_two :: float32 where "f32_two = \<lparr> f_man = 1, f_exp = 1 \<rparr>"

definition backoff_ok :: "TlsConfig \<Rightarrow> bool" where
  "backoff_ok cfg \<longleftrightarrow> reconnect_multiplier cfg = f32_two \<and> reconnect_base_ms cfg \<le> reconnect_max_ms cfg
     \<and> unat (reconnect_max_ms cfg) < 2 ^ 24"

text \<open>Within 24 bits, single precision doubles a delay exactly.\<close>

lemma next_delay_doubles:
  assumes "backoff_ok cfg" and "d \<le> reconnect_max_ms cfg"
  shows "next_delay cfg d = Some (of_nat (min (2 * unat d) (unat (reconnect_max_ms cfg))))"
proof -
  have d: "unat d < 2 ^ 24" using assms by (auto simp: backoff_ok_def word_le_nat_alt)
  then have "f32_to_u32 (f32_mult (f32_of_u32 d) f32_two) = Some (of_nat (2 * unat d))"
    by (simp add: f32_of_u32_def f32_round_def f32_mult_def f32_two_def f32_to_u32_def mult.commute)
  moreover have "unat (of_nat (2 * unat d) :: u32) = 2 * unat d"
    using d by (intro unat_of_nat_small) simp
  ultimately show ?thesis
    using assms(1) by (simp add: next_delay_def backoff_ok_def word_less_nat_alt unat_of_nat_self min_def)
qed

fun backoff_delays :: "TlsConfig \<Rightarrow> nat \<Rightarrow> u32 \<Rightarrow> u32 option" where
  "backoff_delays cfg 0 d = Some d"
| "backoff_delays cfg (Suc n) d = do { d' \<leftarrow> next_delay cfg d; backoff_delays cfg n d' }"

lemma min_times_cap: "min (min a m * 2 ^ n) m = min (a * 2 ^ n) (m :: nat)"
proof -
  have "m \<le> m * 2 ^ n" by simp
  then show ?thesis by (simp add: nat_mult_min_left min.assoc min_absorb2)
qed

lemma backoff_delays_from:
  assumes "backoff_ok cfg" and "d \<le> reconnect_max_ms cfg"
  shows "backoff_delays cfg n d = Some (of_nat (min (unat d * 2 ^ n) (unat (reconnect_max_ms cfg))))"
  using assms(2)
proof (induction n arbitrary: d)
  case 0
  then show ?case by (simp add: word_le_nat_alt unat_of_nat_self)
next
  case (Suc n)
  define d' :: u32 where "d' = of_nat (min (2 * unat d) (unat (reconnect_max_ms cfg)))"
  have "min (2 * unat d) (unat (reconnect_max_ms cfg)) < 2 ^ LENGTH(32)"
    using unat_less_pow [of "reconnect_max_ms cfg"] by (simp add: min_def)
  then have u: "unat d' = min (2 * unat d) (unat (reconnect_max_ms cfg))"
    unfolding d'_def by (rule unat_of_nat_small)
  then have "d' \<le> reconnect_max_ms cfg" by (simp add: word_le_nat_alt)
  moreover have "min (unat d' * 2 ^ n) (unat (reconnect_max_ms cfg)) = min (unat d * 2 ^ Suc n) (unat (reconnect_max_ms cfg))"
    by (simp add: u min_times_cap mult.assoc mult.left_commute)
  ultimately show ?case
    using Suc next_delay_doubles [OF assms(1), of d] by (simp add: d'_def)
qed

text \<open>
  C31. The wait before the next attempt doubles with every failure in a row and is capped:
  after \<open>n\<close> failures it is the smaller of \<open>base * 2 ^ n\<close> and the maximum, computed without
  rounding or overflow although the code multiplies in single precision.
\<close>

theorem backoff_exponential:
  assumes "reconnect_multiplier cfg = f32_two" and "reconnect_base_ms cfg \<le> reconnect_max_ms cfg"
    and "unat (reconnect_max_ms cfg) < 2 ^ 24"
  shows "backoff_delays cfg n (reconnect_base_ms cfg)
    = Some (of_nat (min (unat (reconnect_base_ms cfg) * 2 ^ n) (unat (reconnect_max_ms cfg))))"
  using backoff_delays_from [of cfg "reconnect_base_ms cfg" n] assms by (simp add: backoff_ok_def)

theorem backoff_exponential_witness:
  "backoff_delays default_TlsConfig 3 1000 = Some 8000 \<and> backoff_delays default_TlsConfig 7 1000 = Some 30000"
  using backoff_exponential [of default_TlsConfig 3] backoff_exponential [of default_TlsConfig 7]
  by (simp add: default_TlsConfig_def f32_two_def min_def)

end
