(* ===== verification/Tls_Client_Runs.thy ===== *)
theory Tls_Client_Runs
  imports Tls_Client
begin

text \<open>
  The network thread of \<open>TlsClient::networkLoop\<close> beside the threads that share the queue: one
  turn of the loop and the whole loop. The bytes every connection carried are whole frames
  followed by at most one frame cut short, the counters agree with them, no slot of the queue
  stays held between turns, and nothing stays open when the thread ends.
\<close>

section \<open>Interference by the other threads\<close>

text \<open>
  What the capture thread and the main thread do to the queue while the network thread is
  busy elsewhere: they push frames or shut the queue down, so they keep the invariant, the
  set of held slots and every packet handed out.
\<close>

definition producer_step :: "ring_queue \<Rightarrow> ring_queue \<Rightarrow> bool" where
  "producer_step q q' \<longleftrightarrow> (rq_inv q \<and> \<not> mutex_locked q \<longrightarrow>
     rq_inv q' \<and> \<not> mutex_locked q' \<and> rq_held q' = rq_held q \<and> max_frame_size q' = max_frame_size q
     \<and> (\<forall>pkt. packet_live q pkt \<longrightarrow> packet_live q' pkt \<and> packet_frame q' pkt = packet_frame q pkt))"

definition producers_only :: "'w tls_api \<Rightarrow> bool" where
  "producers_only api \<longleftrightarrow>
     (\<forall>w q. producer_step q (fst (other_threads api w q)))
   \<and> (\<forall>w q. producer_step q (fst (cond_wait (queue_env api) w q)))
   \<and> (\<forall>w ts q. producer_step q (fst (snd (cond_timedwait (queue_env api) w ts q))))"

lemma producer_step_refl [simp]: "producer_step q q"
  by (simp add: producer_step_def)

lemma producer_step_push:
  "length (fr_payload f) < 2 ^ 32 \<Longrightarrow> push_frame f q = Some (ok, q') \<Longrightarrow> producer_step q q'"
  using push_frame_keeps [of q f ok q'] push_frame_limit [of q f ok q'] by (auto simp: producer_step_def)

lemma producer_step_shutdown: "producer_step q (rq_shutdown q)"
  by (simp add: producer_step_def rq_held_eq) (simp add: rq_shutdown_def Let_def)

lemma producer_waits:
  assumes "producers_only api"
  shows "wait_keeps (\<lambda>q. rq_inv q \<and> rq_held q = H \<and> max_frame_size q = B) (queue_env api)"
proof -
  have "rq_inv q' \<and> rq_held q' = H \<and> max_frame_size q' = B"
    if "rq_inv q" "rq_held q = H" "max_frame_size q = B" "producer_step (mutex_unlock q) q'" for q q'
    using that by (simp add: producer_step_def)
  then show ?thesis
    using assms unfolding wait_keeps_def producers_only_def by simp blast
qed

lemma pop_result:
  assumes "producers_only api" and "rq_inv q" and "pop (queue_env api) t w q = Some (r, q', w')"
  shows "rq_inv q' \<and> \<not> mutex_locked q' \<and> max_frame_size q' = max_frame_size q
    \<and> (case r of None \<Rightarrow> rq_held q' = rq_held q
       | Some pkt \<Rightarrow> packet_live q' pkt \<and> rq_held q' = insert (pkt_slot_idx pkt) (rq_held q)
           \<and> pkt_slot_idx pkt \<notin> rq_held q)"
proof -
  have "mmap_base q \<noteq> None" using assms(2) by (simp add: rq_inv_def rq_geometry_def)
  moreover have "rq_inv (mutex_lock q) \<and> rq_held (mutex_lock q) = rq_held q
      \<and> max_frame_size (mutex_lock q) = max_frame_size q"
    using assms(2) by simp
  ultimately obtain q1 w1 where q1: "rq_inv q1" "rq_held q1 = rq_held q" "max_frame_size q1 = max_frame_size q"
    and f: "(r = None \<and> q' = mutex_unlock q1) \<or> pop_finish (queue_env api) w1 q1 = (r, q', w')"
    using pop_critical_section [OF assms(3) _ producer_waits [OF assms(1)]] by metis
  from f show ?thesis
  proof
    assume "r = None \<and> q' = mutex_unlock q1"
    then show ?thesis using q1 by simp
  next
    assume p: "pop_finish (queue_env api) w1 q1 = (r, q', w')"
    show ?thesis
      using pop_finish_result [OF q1(1) p [symmetric]] pop_finish_keeps [OF q1(1) p] pop_finish_limit [OF p] q1(2,3)
      by (cases r) auto
  qed
qed

section \<open>What a connection carries\<close>

text \<open>
  The account of the client's transmissions: \<open>past\<close> lists the whole frames of every SSL
  object freed so far, \<open>cur\<close> those of the present one, and the counters add them up.
\<close>

definition tc_account :: "tls_client \<Rightarrow> frame list list \<Rightarrow> frame list \<Rightarrow> bool" where
  "tc_account c past cur \<longleftrightarrow>
     list_all2 cut_stream past (os_streams (tc_os c))
   \<and> (case tc_ssl c of None \<Rightarrow> cur = [] | Some s \<Rightarrow> ssl_out s = stream cur)
   \<and> tc_frames_sent c = of_nat (length (concat past @ cur))
   \<and> tc_bytes_sent c = of_nat (length (stream (concat past @ cur)))"

lemma tc_account_new: "tc_account (TlsClient_new cfg) [] []"
  by (simp add: tc_account_def TlsClient_new_def)

lemma list_all2_snoc: "list_all2 R xs ys \<Longrightarrow> R x y \<Longrightarrow> list_all2 R (xs @ [x]) (ys @ [y])"
  by (simp add: list_all2_appendI)

text \<open>
  Disconnecting with the present stream at \<open>stream cur @ rest\<close> files it among the past
  ones; nothing else of the account changes.
\<close>

lemma tlsDisconnect_account:
  assumes "list_all2 cut_stream past (os_streams (tc_os c))" and "tc_ssl c = Some s"
    and "cut_stream cur (ssl_out s)"
    and "tc_frames_sent c = of_nat (length (concat past @ cur))"
    and "tc_bytes_sent c = of_nat (length (stream (concat past @ cur)))"
  shows "tc_account (tlsDisconnect c) (past @ [cur]) []"
  using assms list_all2_snoc [OF assms(1,3)]
  by (simp add: tc_account_def tlsDisconnect_def Let_def os_ssl_free_def os_close_def)

lemma tlsDisconnect_idle_account:
  assumes "tc_account c past cur" and "tc_ssl c = None"
  shows "tc_account (tlsDisconnect c) past []"
  using assms by (simp add: tc_account_def tlsDisconnect_def Let_def os_close_def)

section \<open>Sending one packet\<close>

definition net_api_ok :: "'w tls_api \<Rightarrow> bool" where
  "net_api_ok api \<longleftrightarrow> ssl_write_bounded api \<and> socket_fresh api \<and> producers_only api"

lemma packet_payload_length:
  assumes "rq_inv q" and "packet_live q pkt"
  shows "length (fr_payload (packet_frame q pkt)) = unat (pkt_len pkt)"
proof -
  have i: "pkt_slot_idx pkt < capacity q" using assms(2) by (simp add: packet_live_def rq_held_eq)
  have "pkt_data pkt + unat (pkt_len pkt) \<le> pkt_slot_idx pkt * slot_stride q + slot_stride q"
    using assms by (simp add: packet_live_def slotData_def rq_inv_def rq_geometry_def)
  also have "\<dots> \<le> length (rq_mem q)"
    using slot_bounds [OF i, of "slot_stride q"] assms(1) by (simp add: rq_inv_def rq_geometry_def)
  finally show ?thesis by (simp add: packet_frame_def mem_read_def)
qed

lemma packet_wire:
  assumes "rq_inv q" and "packet_live q pkt"
  shows "frame_wire (packet_frame q pkt) =
    header_bytes bo (initFrameHeader bo (pkt_seq pkt) (pkt_timestamp_ns pkt) (pkt_len pkt)
      (pkt_pixel_format pkt) (pkt_width pkt) (pkt_height pkt)) @ fr_payload (packet_frame q pkt)"
  using packet_payload_length [OF assms]
  by (simp add: frame_wire_def header_bytes_init unat_of_nat_self) (simp add: packet_frame_def)

lemma free_packet:
  assumes "rq_inv q" and "packet_live q pkt"
  shows "rq_inv (frame_packet_free (Some pkt) q)" "rq_held (frame_packet_free (Some pkt) q) = rq_held q - {pkt_slot_idx pkt}"
    "mutex_locked (frame_packet_free (Some pkt) q) = mutex_locked q"
    "max_frame_size (frame_packet_free (Some pkt) q) = max_frame_size q"
  using assms(2) releaseSlot_inv [OF assms(1)]
  by (simp_all add: frame_packet_free_def FramePacket_delete_def packet_live_def)

lemma producer_keeps:
  assumes "net_api_ok api" and "rq_inv q" and "\<not> mutex_locked q" and "other_threads api w q = (q', w')"
  shows "rq_inv q' \<and> \<not> mutex_locked q' \<and> rq_held q' = rq_held q \<and> max_frame_size q' = max_frame_size q
     \<and> (\<forall>pkt. packet_live q pkt \<longrightarrow> packet_live q' pkt \<and> packet_frame q' pkt = packet_frame q pkt)"
  using assms unfolding net_api_ok_def producers_only_def producer_step_def by (metis fst_conv)

text \<open>What the turn does with the packet, given how many bytes the two writes moved.\<close>

lemma tc_inv_out: "tc_ssl c = Some s \<Longrightarrow> tc_inv (c\<lparr>tc_ssl := Some (s\<lparr>ssl_out := bs\<rparr>)\<rparr>) = tc_inv c"
  by (simp add: tc_inv_def)

lemma send_fails_account:
  assumes "tc_inv c" and "tc_account c past cur" and "tc_ssl c = Some s" and "strict_prefix rest (frame_wire f)"
    and "length (fr_payload f) < 2 ^ 32"
  shows "tc_account (tlsDisconnect (c\<lparr>tc_ssl := Some (s\<lparr>ssl_out := ssl_out s @ rest\<rparr>)\<rparr>)) (past @ [cur]) []"
proof -
  have "cut_stream cur (ssl_out s @ rest)"
    using assms(2,3,4,5) unfolding cut_stream_def tc_account_def by auto
  then show ?thesis using assms(2,3) by (intro tlsDisconnect_account [where s = "s\<lparr>ssl_out := ssl_out s @ rest\<rparr>"]) (simp_all add: tc_account_def)
qed

definition sent_result :: "tls_client \<Rightarrow> frame list list \<Rightarrow> frame list \<Rightarrow> frame \<Rightarrow> bool" where
  "sent_result c past cur f \<longleftrightarrow> tc_inv c \<and>
     (if tc_ssl c = None then tc_account c (past @ [cur]) [] else tc_account c past (cur @ [f]))"

lemma send_fails:
  assumes "tc_inv c" and "tc_account c past cur" and "tc_ssl c = Some s" and "strict_prefix rest (frame_wire f)"
    and "length (fr_payload f) < 2 ^ 32"
  shows "sent_result (tlsDisconnect (c\<lparr>tc_ssl := Some (s\<lparr>ssl_out := ssl_out s @ rest\<rparr>)\<rparr>)) past cur f"
proof -
  have "tc_inv (c\<lparr>tc_ssl := Some (s\<lparr>ssl_out := ssl_out s @ rest\<rparr>)\<rparr>)"
    using assms(1,3) by (simp add: tc_inv_out)
  then show ?thesis
    using send_fails_account [OF assms] by (simp add: sent_result_def tlsDisconnect_inv)
qed

lemma send_completes:
  assumes "tc_inv c" and "tc_account c past cur" and "tc_ssl c = Some s"
  shows "sent_result (c\<lparr>tc_ssl := Some (s\<lparr>ssl_out := ssl_out s @ frame_wire f\<rparr>), tc_frames_sent := tc_frames_sent c + 1,
      tc_bytes_sent := tc_bytes_sent c + of_nat (length (frame_wire f))\<rparr>) past cur f"
  using assms by (simp add: sent_result_def tc_account_def tc_inv_def)

text \<open>
  After the header: \<open>s\<close> is the session before it, so its stream is \<open>stream cur\<close>. The packet is
  freed in a state \<open>q2\<close> of the queue in which it is still live.
\<close>

definition freed_after :: "ring_queue \<Rightarrow> FramePacket \<Rightarrow> ring_queue \<Rightarrow> bool" where
  "freed_after q pkt q' \<longleftrightarrow> (\<exists>q2. rq_inv q2 \<and> \<not> mutex_locked q2 \<and> rq_held q2 = rq_held q
      \<and> max_frame_size q2 = max_frame_size q \<and> packet_live q2 pkt \<and> q' = frame_packet_free (Some pkt) q2)"

lemma send_payload_result:
  assumes "net_api_ok api" and "tc_inv c" and "tc_account c past cur" and "tc_ssl c = Some s"
    and "rq_inv q" and "\<not> mutex_locked q" and "packet_live q pkt"
    and wire: "frame_wire (packet_frame q pkt) = hdr @ fr_payload (packet_frame q pkt)" "length hdr = 36"
    and "send_payload api pkt (c\<lparr>tc_ssl := Some (s\<lparr>ssl_out := ssl_out s @ hdr\<rparr>)\<rparr>) q w = Some (c', q', w')"
  shows "sent_result c' past cur (packet_frame q pkt) \<and> freed_after q pkt q'"
proof -
  have fl: "length (fr_payload (packet_frame q pkt)) < 2 ^ 32"
    using packet_payload_length [OF assms(5,7)] unat_less_pow [of "pkt_len pkt"] by simp
  let ?f = "packet_frame q pkt" and ?s = "s\<lparr>ssl_out := ssl_out s @ hdr\<rparr>"
  let ?c = "c\<lparr>tc_ssl := Some ?s\<rparr>"
  let ?data = "mem_read (rq_mem q) (pkt_data pkt) (unat (pkt_len pkt))"
  have data: "?data = fr_payload ?f" by (simp add: packet_frame_def)
  have dlen: "length ?data = unat (pkt_len pkt)" using packet_payload_length [OF assms(5,7)] data by simp
  obtain ok c1 w1 where s1: "sslWriteAll api ?data (unat (pkt_len pkt)) ?c w = Some (ok, c1, w1)"
    using assms(10) unfolding send_payload_def Let_def by (auto simp: bind_eq_Some_conv)
  obtain q1 w2 where o1: "other_threads api w1 q = (q1, w2)" by (cases "other_threads api w1 q")
  note q1 = producer_keeps [OF assms(1,5,6) o1]
  have b: "ssl_write_bounded api" using assms(1) by (simp add: net_api_ok_def)
  have "tc_ssl ?c = Some ?s" "unat (pkt_len pkt) < 2 ^ 64"
    using unat_less_pow [of "pkt_len pkt"] by simp_all
  from sslWriteAll_result [OF b this s1] obtain n where n: "n \<le> unat (pkt_len pkt)" "ok \<longleftrightarrow> n = unat (pkt_len pkt)"
    and "c1 = ?c\<lparr>tc_ssl := Some (?s\<lparr>ssl_out := ssl_out ?s @ take n ?data\<rparr>)\<rparr>" .
  then have c1: "c1 = c\<lparr>tc_ssl := Some (s\<lparr>ssl_out := ssl_out s @ (hdr @ take n ?data)\<rparr>)\<rparr>" by simp
  show ?thesis
  proof (cases ok)
    case False
    then have "c' = tlsDisconnect c1" "q' = frame_packet_free (Some pkt) q1"
      using assms(10) s1 o1 by (auto simp: send_payload_def Let_def)
    moreover have "strict_prefix (hdr @ take n ?data) (frame_wire ?f)"
      using n False dlen strict_prefix_take [of n ?data] by (simp add: wire data strict_prefix_append_same)
    ultimately show ?thesis
      using send_fails [OF assms(2,3,4), of "hdr @ take n ?data" ?f] fl c1 q1 assms(7) by (auto simp: freed_after_def)
  next
    case True
    have "of_nat (length (frame_wire ?f)) = (of_nat FRAME_HEADER_SIZE + ucast (pkt_len pkt) :: u64)"
      using dlen data by (simp add: wire of_nat_unat)
    moreover have "frame_wire ?f = hdr @ take n ?data" using True n dlen by (simp add: wire data)
    ultimately show ?thesis
      using assms(7,10) s1 o1 True q1 send_completes [OF assms(2,3,4), of ?f] c1
      by (auto simp: send_payload_def Let_def freed_after_def)
  qed
qed

lemma send_packet_result:
  assumes "net_api_ok api" and "tc_inv c" and "tc_account c past cur" and "tc_ssl c = Some s"
    and "rq_inv q" and "\<not> mutex_locked q" and "packet_live q pkt"
    and "send_packet api bo pkt c q w = Some (c', q', w')"
  shows "sent_result c' past cur (packet_frame q pkt) \<and> freed_after q pkt q'"
proof -
  have fl: "length (fr_payload (packet_frame q pkt)) < 2 ^ 32"
    using packet_payload_length [OF assms(5,7)] unat_less_pow [of "pkt_len pkt"] by simp
  let ?f = "packet_frame q pkt"
  let ?hdr = "header_bytes bo (initFrameHeader bo (pkt_seq pkt) (pkt_timestamp_ns pkt) (pkt_len pkt)
      (pkt_pixel_format pkt) (pkt_width pkt) (pkt_height pkt))"
  have b: "ssl_write_bounded api" using assms(1) by (simp add: net_api_ok_def)
  have len: "length ?hdr = 36" by (simp add: header_bytes_init)
  have wire: "frame_wire ?f = ?hdr @ fr_payload ?f" by (rule packet_wire [OF assms(5,7)])
  obtain ok c1 w1 where s1: "sslWriteAll api ?hdr FRAME_HEADER_SIZE c w = Some (ok, c1, w1)"
    using assms(8) unfolding send_packet_def Let_def by (auto simp: bind_eq_Some_conv)
  obtain q1 w2 where o1: "other_threads api w1 q = (q1, w2)" by (cases "other_threads api w1 q")
  note q1 = producer_keeps [OF assms(1,5,6) o1]
  have live1: "packet_live q1 pkt" "packet_frame q1 pkt = ?f" using q1 assms(7) by auto
  obtain n where n: "n \<le> 36" "ok \<longleftrightarrow> n = 36" "c1 = c\<lparr>tc_ssl := Some (s\<lparr>ssl_out := ssl_out s @ take n ?hdr\<rparr>)\<rparr>"
    using sslWriteAll_result [OF b assms(4) _ s1, unfolded FRAME_HEADER_SIZE_eq] by auto
  show ?thesis
  proof (cases ok)
    case False
    then have "c' = tlsDisconnect c1" "q' = frame_packet_free (Some pkt) q1"
      using assms(8) s1 o1 by (auto simp: send_packet_def Let_def)
    moreover have "strict_prefix (take n ?hdr) (frame_wire ?f)"
      using n False len strict_prefix_take [of n "frame_wire ?f"] by (simp add: wire)
    ultimately show ?thesis
      using send_fails [OF assms(2,3,4), of "take n ?hdr" ?f] fl n(3) q1 live1 by (auto simp: freed_after_def)
  next
    case True
    then have "send_payload api pkt (c\<lparr>tc_ssl := Some (s\<lparr>ssl_out := ssl_out s @ ?hdr\<rparr>)\<rparr>) q1 w2 = Some (c', q', w')"
      using assms(8) s1 o1 n len by (auto simp: send_packet_def Let_def)
    from send_payload_result [OF assms(1-4) _ _ live1(1) _ len this] show ?thesis
      using q1 live1 wire by (simp add: freed_after_def)
  qed
qed

section \<open>One turn of the network thread\<close>

lemma ensure_connected_result:
  assumes "socket_fresh api" and "tc_inv c" and "tc_account c past cur"
    and "ensure_connected api c w = Some (go, c', w')"
  obtains n where "tc_inv c'" "tc_account c' (past @ replicate n []) cur" "go \<longleftrightarrow> tc_ssl c' \<noteq> None"
proof (cases "tc_ssl c")
  case None
  then have st: "tc_state c \<noteq> Connected" using assms(2) by (simp add: tc_inv_def)
  let ?c = "c\<lparr>tc_state := Connecting\<rparr>"
  obtain ok c1 w1 where t: "tlsConnect api ?c w = (ok, c1, w1)" by (cases "tlsConnect api ?c w") auto
  have inv: "tc_inv ?c" "tc_ssl ?c = None" using assms(2) None by (simp_all add: tc_inv_def)
  then have wf: "os_wf (tc_os ?c)" by (simp add: os_wf_def tc_inv_def)
  have cur: "cur = []" using assms(3) None by (simp add: tc_account_def)
  have acc: "list_all2 cut_stream past (os_streams (tc_os c))" using assms(3) by (simp add: tc_account_def)
  from assms(1) wf inv(2) t show thesis
  proof (cases rule: tlsConnect_cases)
    case (failed n fd)
    have "list_all2 cut_stream (past @ replicate n []) (os_streams (tc_os c) @ replicate n [])"
      using acc by (intro list_all2_appendI) (simp_all add: list_all2_conv_all_nth)
    then show thesis
      using that [of n] assms(3,4) st t failed inv cur
      by (auto simp: ensure_connected_def Let_def bind_eq_Some_conv tc_inv_def tc_account_def)
  next
    case (connected fd ctx s)
    then show thesis
      using that [of 0] assms(3,4) st t inv cur
      by (auto simp: ensure_connected_def Let_def tc_inv_def tc_account_def ssl_ready_def os_open_def)
  qed
next
  case (Some s)
  then have "go" "c' = c" using assms(2,4) by (auto simp: ensure_connected_def tc_inv_def)
  then show thesis using that [of 0] assms(2,3) Some by simp
qed

lemma sent_result_extends:
  assumes "sent_result c past cur f" and "length (fr_payload f) \<le> B"
  shows "tc_inv c \<and> (\<exists>past' cur' fs. tc_account c past' cur' \<and> concat past' @ cur' = concat past @ cur @ fs \<and> length fs \<le> 1
      \<and> (\<forall>f\<in>set fs. length (fr_payload f) \<le> B))"
proof (cases "tc_ssl c")
  case None
  then have "tc_account c (past @ [cur]) []" "concat (past @ [cur]) @ [] = concat past @ cur @ []" "length ([] :: frame list) \<le> 1"
    using assms by (simp_all add: sent_result_def)
  then show ?thesis using assms unfolding sent_result_def by (metis empty_iff list.set(1) list.set_intros(1) set_ConsD)
next
  case (Some s)
  then have "tc_account c past (cur @ [f])" "concat past @ (cur @ [f]) = concat past @ cur @ [f]" "length [f] \<le> 1"
    using assms by (simp_all add: sent_result_def)
  then show ?thesis using assms unfolding sent_result_def by (metis empty_iff list.set(1) list.set_intros(1) set_ConsD)
qed

lemma network_body_result:
  assumes "net_api_ok api" and "tc_inv c" and "tc_account c past cur"
    and "rq_inv q" and "\<not> mutex_locked q" and "network_body api bo c q w = Some (c', q', w')"
  shows "tc_inv c' \<and> rq_inv q' \<and> \<not> mutex_locked q' \<and> rq_held q' = rq_held q \<and> max_frame_size q' = max_frame_size q
    \<and> (\<exists>past' cur' fs. tc_account c' past' cur' \<and> concat past' @ cur' = concat past @ cur @ fs \<and> length fs \<le> 1
      \<and> (\<forall>f\<in>set fs. length (fr_payload f) \<le> max_frame_size q))"
proof -
  obtain go c1 w1 where e: "ensure_connected api c w = Some (go, c1, w1)"
    using assms(6) by (auto simp: network_body_def bind_eq_Some_conv)
  obtain q1 w2 where o: "other_threads api w1 q = (q1, w2)" by (cases "other_threads api w1 q")
  note q1 = producer_keeps [OF assms(1,4,5) o]
  obtain n where c1: "tc_inv c1" "tc_account c1 (past @ replicate n []) cur" "go \<longleftrightarrow> tc_ssl c1 \<noteq> None"
    by (rule ensure_connected_result [OF _ assms(2,3) e]) (use assms(1) in \<open>simp add: net_api_ok_def\<close>)
  have same: "concat (past @ replicate n []) @ cur = concat past @ cur @ []" by simp
  have idle: ?thesis if "c' = c1" "rq_inv q' \<and> \<not> mutex_locked q' \<and> rq_held q' = rq_held q \<and> max_frame_size q' = max_frame_size q"
  proof -
    have "\<forall>f\<in>set []. length (fr_payload f) \<le> max_frame_size q" "length ([] :: frame list) \<le> 1" by simp_all
    then show ?thesis using c1(1,2) same that by blast
  qed
  show ?thesis
  proof (cases go)
    case False
    then show ?thesis using assms(6) e o q1 by (intro idle) (auto simp: network_body_def)
  next
    case True
    then obtain r q2 w3 where p: "pop (queue_env api) QUEUE_TIMEOUT_MS w2 q1 = Some (r, q2, w3)"
      and rest: "(case r of None \<Rightarrow> Some (c1, q2, w3) | Some pkt \<Rightarrow> send_packet api bo pkt c1 q2 w3) = Some (c', q', w')"
      using assms(6) e o by (auto simp: network_body_def bind_eq_Some_conv)
    have "producers_only api" using assms(1) by (simp add: net_api_ok_def)
    from pop_result [OF this _ p] have q2: "rq_inv q2 \<and> \<not> mutex_locked q2 \<and> max_frame_size q2 = max_frame_size q
        \<and> (case r of None \<Rightarrow> rq_held q2 = rq_held q
         | Some pkt \<Rightarrow> packet_live q2 pkt \<and> rq_held q2 = insert (pkt_slot_idx pkt) (rq_held q) \<and> pkt_slot_idx pkt \<notin> rq_held q)"
      using q1 by (simp split: option.splits)
    show ?thesis
    proof (cases r)
      case None
      then show ?thesis using rest q2 by (intro idle) auto
    next
      case (Some pkt)
      obtain s where s: "tc_ssl c1 = Some s" using True c1(3) by auto
      have sp: "send_packet api bo pkt c1 q2 w3 = Some (c', q', w')" using rest Some by simp
      have r: "sent_result c' (past @ replicate n []) cur (packet_frame q2 pkt)" and "freed_after q2 pkt q'"
        using send_packet_result [OF assms(1) c1(1,2) s _ _ _ sp] q2 Some by auto
      then have "rq_inv q' \<and> \<not> mutex_locked q' \<and> rq_held q' = rq_held q \<and> max_frame_size q' = max_frame_size q"
        using free_packet q2 Some by (auto simp: freed_after_def)
      moreover have "length (fr_payload (packet_frame q2 pkt)) \<le> max_frame_size q"
        using packet_payload_length [of q2 pkt] q2 Some by (simp add: packet_live_def)
      ultimately show ?thesis using sent_result_extends [OF r] by simp
    qed
  qed
qed

text \<open>
  One turn of the network thread, whatever the server, the network and the other threads
  do: the client's resources stay accounted for, the queue keeps its invariant and the set
  of held slots is what it was, every connection so far carries whole frames and at most one
  frame cut short at its end, \<open>frames_sent\<close> and \<open>bytes_sent\<close> count exactly the whole frames,
  and at most one frame was added to them.
\<close>

lemma network_turn_correct:
  assumes "net_api_ok api" and "tc_inv c" and "tc_account c past cur"
    and "rq_inv q" and "\<not> mutex_locked q" and "network_body api bo c q w = Some (c', q', w')"
  shows "tc_inv c' \<and> rq_inv q' \<and> \<not> mutex_locked q' \<and> rq_held q' = rq_held q \<and> max_frame_size q' = max_frame_size q
    \<and> (\<exists>past' cur' fs. tc_account c' past' cur' \<and> concat past' @ cur' = concat past @ cur @ fs \<and> length fs \<le> 1
      \<and> (\<forall>f\<in>set fs. length (fr_payload f) \<le> max_frame_size q))"
  by (rule network_body_result [OF assms])

section \<open>The whole thread\<close>

definition net_state_ok :: "tls_client \<Rightarrow> ring_queue \<Rightarrow> nat set \<Rightarrow> nat \<Rightarrow> bool" where
  "net_state_ok c q H B \<longleftrightarrow> tc_inv c \<and> rq_inv q \<and> \<not> mutex_locked q \<and> rq_held q = H \<and> max_frame_size q = B
     \<and> (\<exists>past cur. tc_account c past cur \<and> (\<forall>f\<in>set (concat past @ cur). length (fr_payload f) \<le> B))"

lemma network_body_keeps:
  assumes "net_api_ok api" and "net_state_ok c q H B" and "network_body api bo c q w = Some (c', q', w')"
  shows "net_state_ok c' q' H B"
proof -
  obtain past cur where a: "tc_account c past cur" and l: "\<forall>f\<in>set (concat past @ cur). length (fr_payload f) \<le> B"
    using assms(2) unfolding net_state_ok_def by blast
  have q: "tc_inv c" "rq_inv q" "\<not> mutex_locked q" "rq_held q = H" "max_frame_size q = B"
    using assms(2) by (simp_all add: net_state_ok_def)
  from network_body_result [OF assms(1) q(1) a q(2,3) assms(3)] obtain past' cur' fs where
    r: "tc_inv c' \<and> rq_inv q' \<and> \<not> mutex_locked q' \<and> rq_held q' = H \<and> max_frame_size q' = B"
    and a': "tc_account c' past' cur'" and e: "concat past' @ cur' = concat past @ cur @ fs"
    and f: "\<forall>f\<in>set fs. length (fr_payload f) \<le> B" using q by auto
  have "set (concat past' @ cur') = set (concat past @ cur) \<union> set fs" unfolding e by auto
  then have "\<forall>f\<in>set (concat past' @ cur'). length (fr_payload f) \<le> B" using l f by blast
  then show ?thesis using r a' unfolding net_state_ok_def by blast
qed

lemma networkLoop_keeps:
  assumes "net_api_ok api" and "networkLoop api bo c q w = Some r" and "net_state_ok c q H B"
  shows "\<exists>c1. net_state_ok c1 (fst (snd r)) H B \<and> fst r = tlsDisconnect c1"
proof -
  let ?P = "\<lambda>c q r. net_state_ok c q H B \<longrightarrow> (\<exists>c1. net_state_ok c1 (fst (snd r)) H B \<and> fst r = tlsDisconnect c1)"
  have "api = api \<and> bo = bo \<longrightarrow> ?P c q r"
  proof (rule networkLoop.raw_induct [where P = "\<lambda>api' bo' c q w r. api' = api \<and> bo' = bo \<longrightarrow> ?P c q r",
        OF _ assms(2)], intro impI)
    fix f api' bo' c q w r
    assume IH: "\<And>api' bo' c q w r. f api' bo' c q w = Some r \<Longrightarrow> api' = api \<and> bo' = bo \<longrightarrow> ?P c q r"
      and eq: "(case running api' w of (go, w) \<Rightarrow>
        if go then do { (c, q, w) \<leftarrow> network_body api' bo' c q w; f api' bo' c q w }
        else Some (tlsDisconnect c, q, w)) = Some r"
      and e: "api' = api \<and> bo' = bo" and ok: "net_state_ok c q H B"
    obtain go w1 where g: "running api w = (go, w1)" by (cases "running api w")
    show "\<exists>c1. net_state_ok c1 (fst (snd r)) H B \<and> fst r = tlsDisconnect c1"
    proof (cases go)
      case True
      then obtain c2 q2 w2 where "network_body api bo c q w1 = Some (c2, q2, w2)" "f api bo c2 q2 w2 = Some r"
        using eq e g by (auto simp: bind_eq_Some_conv)
      then show ?thesis
        using IH [of api bo c2 q2 w2 r] network_body_keeps [OF assms(1) ok] by blast
    next
      case False
      then show ?thesis using eq e g ok by auto
    qed
  qed
  then show ?thesis using assms(3) by simp
qed

lemma tlsDisconnect_accounted:
  assumes "tc_account c past cur"
  shows "\<exists>past'. tc_account (tlsDisconnect c) past' [] \<and> concat past' = concat past @ cur"
proof (cases "tc_ssl c")
  case None
  then show ?thesis using tlsDisconnect_idle_account [OF assms] assms by (auto simp: tc_account_def)
next
  case (Some s)
  have "tc_account (tlsDisconnect c) (past @ [cur]) []"
    by (rule tlsDisconnect_account [OF _ Some]) (use assms Some in \<open>simp_all add: tc_account_def\<close>)
  then show ?thesis by force
qed

lemma initialized_client:
  assumes "initialize api (TlsClient_new cfg) w0 = (True, c, w)"
  obtains ctx where "c = (TlsClient_new cfg)\<lparr>tc_ssl_ctx := Some ctx\<rparr>"
  using initialize_result [OF _ assms] by (auto simp: TlsClient_new_def)

lemma initialized_ok:
  assumes "initialize api (TlsClient_new cfg) w0 = (True, c, w)" and "rq_inv q" and "\<not> mutex_locked q"
  shows "net_state_ok c q (rq_held q) (max_frame_size q)"
proof -
  obtain ctx where c: "c = (TlsClient_new cfg)\<lparr>tc_ssl_ctx := Some ctx\<rparr>" by (rule initialized_client [OF assms(1)])
  have "tc_account c [] []" using tc_account_new [of cfg] by (simp add: c tc_account_def)
  moreover have "\<forall>f\<in>set (concat [] @ []). length (fr_payload f) \<le> max_frame_size q" by simp
  moreover have "tc_inv c" using tc_inv_new [of cfg] by (simp add: c tc_inv_def TlsClient_new_def)
  ultimately show ?thesis using assms(2,3) unfolding net_state_ok_def by blast
qed

lemma networkLoop_result:
  assumes "net_api_ok api" and "initialize api (TlsClient_new cfg) w0 = (True, c, w)"
    and "rq_inv q" and "\<not> mutex_locked q" and "networkLoop api bo c q w = Some (c', q', w')"
  shows "tc_state c' = Disconnected \<and> os_fds (tc_os c') = [] \<and> os_ssl_live (tc_os c') = 0
    \<and> rq_inv q' \<and> rq_held q' = rq_held q
    \<and> (\<exists>sent. list_all2 cut_stream sent (os_streams (tc_os c'))
          \<and> tc_frames_sent c' = of_nat (length (concat sent))
          \<and> tc_bytes_sent c' = of_nat (length (stream (concat sent)))
          \<and> (\<forall>f\<in>set (concat sent). length (fr_payload f) \<le> max_frame_size q))"
proof -
  note this = initialized_ok [OF assms(2-4)]
  from networkLoop_keeps [OF assms(1,5) this] obtain c1 where
    ok: "net_state_ok c1 q' (rq_held q) (max_frame_size q)" and c': "c' = tlsDisconnect c1" by auto
  then have i: "tc_inv c1" by (simp add: net_state_ok_def)
  obtain past cur where a: "tc_account c1 past cur" and l: "\<forall>f\<in>set (concat past @ cur). length (fr_payload f) \<le> max_frame_size q"
    using ok unfolding net_state_ok_def by blast
  obtain past' where p: "tc_account c' past' []" "concat past' = concat past @ cur"
    using tlsDisconnect_accounted [OF a] c' by blast
  have "list_all2 cut_stream past' (os_streams (tc_os c'))
          \<and> tc_frames_sent c' = of_nat (length (concat past'))
          \<and> tc_bytes_sent c' = of_nat (length (stream (concat past')))
          \<and> (\<forall>f\<in>set (concat past'). length (fr_payload f) \<le> max_frame_size q)"
    using p l by (simp add: tc_account_def)
  then show ?thesis using ok tlsDisconnect_inv [OF i] unfolding c' net_state_ok_def by blast
qed

text \<open>
  C28. The network thread of a freshly initialised client: when it ends, whatever happened on
  the network, it is disconnected with no descriptor and no SSL object left open, no slot of
  the queue is held that was not held before, every SSL object it ever used carried whole
  frames and at most one cut short, and the two counters it reports are the number of whole
  frames and the number of bytes they took on the wire. No frame exceeds the queue's limit.
\<close>

theorem network_thread_correct:
  assumes "net_api_ok api" and "initialize api (TlsClient_new cfg) w0 = (True, c, w)"
    and "rq_inv q" and "\<not> mutex_locked q" and "networkLoop api bo c q w = Some (c', q', w')"
  shows "tc_state c' = Disconnected \<and> os_fds (tc_os c') = [] \<and> os_ssl_live (tc_os c') = 0
    \<and> rq_inv q' \<and> rq_held q' = rq_held q
    \<and> (\<exists>sent. list_all2 cut_stream sent (os_streams (tc_os c'))
          \<and> tc_frames_sent c' = of_nat (length (concat sent))
          \<and> tc_bytes_sent c' = of_nat (length (stream (concat sent)))
          \<and> (\<forall>f\<in>set (concat sent). length (fr_payload f) \<le> max_frame_size q))"
  by (rule networkLoop_result [OF assms])

section \<open>The thread does not hang\<close>

definition delay_ok :: "tls_client \<Rightarrow> bool" where
  "delay_ok c \<longleftrightarrow> backoff_ok (tc_config c) \<and> reconnect_base_ms (tc_config c) \<le> tc_reconnect_delay_ms c
     \<and> tc_reconnect_delay_ms c \<le> reconnect_max_ms (tc_config c)"

lemma tlsDisconnect_delay [simp]: "delay_ok (tlsDisconnect c) = delay_ok c"
  by (simp add: delay_ok_def tlsDisconnect_def Let_def split: option.split)

lemma sslWriteAll_fields:
  assumes "sslWriteAll api data len c w = Some (ok, c', w')"
  shows "delay_ok c' = delay_ok c \<and> (\<exists>s. tc_ssl c' = Some s)"
  using assms by (auto simp: sslWriteAll_def bind_eq_Some_conv delay_ok_def split: option.splits)

lemma next_delay_ok:
  assumes "delay_ok c"
  shows "\<exists>d. next_delay (tc_config c) (tc_reconnect_delay_ms c) = Some d \<and> delay_ok (c\<lparr>tc_reconnect_delay_ms := d\<rparr>)"
proof -
  let ?d = "tc_reconnect_delay_ms c" and ?m = "reconnect_max_ms (tc_config c)"
  have "min (2 * unat ?d) (unat ?m) < 2 ^ LENGTH(32)"
    using unat_less_pow [of ?m] by (simp add: min_def)
  then have "unat (of_nat (min (2 * unat ?d) (unat ?m)) :: u32) = min (2 * unat ?d) (unat ?m)"
    by (rule unat_of_nat_small)
  then show ?thesis
    using assms next_delay_doubles [of "tc_config c" ?d]
    by (auto simp: delay_ok_def backoff_ok_def word_le_nat_alt)
qed

lemma ensure_connected_returns:
  assumes "net_api_ok api" and "tc_inv c" and "delay_ok c"
  shows "\<exists>go c' w'. ensure_connected api c w = Some (go, c', w') \<and> delay_ok c' \<and> (go \<longrightarrow> tc_ssl c' \<noteq> None)"
proof (cases "tc_ssl c")
  case None
  then have st: "tc_state c \<noteq> Connected" using assms(2) by (simp add: tc_inv_def)
  let ?c = "c\<lparr>tc_state := Connecting\<rparr>"
  obtain ok c1 w1 where t: "tlsConnect api ?c w = (ok, c1, w1)" by (cases "tlsConnect api ?c w") auto
  have wf: "os_wf (tc_os ?c)" "tc_ssl ?c = None" and fresh: "socket_fresh api"
    using assms(1,2) None by (simp_all add: os_wf_def tc_inv_def net_api_ok_def)
  from fresh wf t show ?thesis
  proof (cases rule: tlsConnect_cases)
    case (failed n fd)
    then have "delay_ok c1" using assms(3) by (simp add: delay_ok_def)
    then show ?thesis using next_delay_ok [of c1] t st failed(1) by (auto simp: ensure_connected_def Let_def)
  next
    case (connected fd ctx s)
    then have "delay_ok c1" "tc_ssl c1 \<noteq> None" using assms(3) by (simp_all add: delay_ok_def backoff_ok_def)
    then show ?thesis using t st connected(1) by (auto simp: ensure_connected_def Let_def)
  qed
next
  case (Some s)
  then show ?thesis using assms(2,3) by (auto simp: ensure_connected_def tc_inv_def)
qed

lemma send_payload_returns:
  assumes "ssl_write_bounded api" and "ssl_write_progress m api" and "tc_ssl c = Some s" and "delay_ok c"
  shows "\<exists>c' q' w'. send_payload api pkt c q w = Some (c', q', w') \<and> delay_ok c'"
proof -
  let ?data = "mem_read (rq_mem q) (pkt_data pkt) (unat (pkt_len pkt))"
  have "unat (pkt_len pkt) < 2 ^ 64" using unat_less_pow [of "pkt_len pkt"] by simp
  then obtain ok c1 w1 where w: "sslWriteAll api ?data (unat (pkt_len pkt)) c w = Some (ok, c1, w1)"
    using sslWriteAll_returns [OF assms(1-3)] by (metis prod_cases3)
  have "delay_ok c1" using sslWriteAll_fields [OF w] assms(4) by simp
  moreover from this have "delay_ok (c1\<lparr>tc_frames_sent := a, tc_bytes_sent := b\<rparr>)" for a b
    by (simp add: delay_ok_def)
  ultimately show ?thesis by (cases "other_threads api w1 q") (auto simp: send_payload_def w Let_def)
qed

lemma send_packet_returns:
  assumes "ssl_write_bounded api" and "ssl_write_progress m api" and "tc_ssl c = Some s" and "delay_ok c"
  shows "\<exists>c' q' w'. send_packet api bo pkt c q w = Some (c', q', w') \<and> delay_ok c'"
proof -
  let ?hdr = "header_bytes bo (initFrameHeader bo (pkt_seq pkt) (pkt_timestamp_ns pkt) (pkt_len pkt)
      (pkt_pixel_format pkt) (pkt_width pkt) (pkt_height pkt))"
  have "FRAME_HEADER_SIZE < 2 ^ 64" by simp
  then obtain ok c1 w1 where w: "sslWriteAll api ?hdr FRAME_HEADER_SIZE c w = Some (ok, c1, w1)"
    using sslWriteAll_returns [OF assms(1-3)] by (metis prod_cases3)
  obtain q1 w2 where o: "other_threads api w1 q = (q1, w2)" by (cases "other_threads api w1 q")
  have c1: "delay_ok c1" "\<exists>s. tc_ssl c1 = Some s" using sslWriteAll_fields [OF w] assms(4) by simp_all
  then show ?thesis
    using send_payload_returns [OF assms(1,2) _ c1(1)] w o by (cases ok) (auto simp: send_packet_def Let_def)
qed

lemma network_body_returns:
  assumes "net_api_ok api" and "ssl_write_progress m api" and "timedwait_progress m' (queue_env api)"
    and "tc_inv c" and "delay_ok c"
  shows "\<exists>c' q' w'. network_body api bo c q w = Some (c', q', w') \<and> delay_ok c'"
proof -
  obtain go c1 w1 where e: "ensure_connected api c w = Some (go, c1, w1)" "delay_ok c1" "go \<longrightarrow> tc_ssl c1 \<noteq> None"
    using ensure_connected_returns [OF assms(1,4,5)] by blast
  obtain q1 w2 where o: "other_threads api w1 q = (q1, w2)" by (cases "other_threads api w1 q")
  obtain r q2 w3 where p: "pop (queue_env api) QUEUE_TIMEOUT_MS w2 q1 = Some (r, q2, w3)"
    using pop_timed_returns [OF assms(3), of QUEUE_TIMEOUT_MS w2 q1] by (metis QUEUE_TIMEOUT_MS_def prod_cases3 zero_le_numeral)
  have b: "ssl_write_bounded api" using assms(1) by (simp add: net_api_ok_def)
  show ?thesis
  proof (cases "go \<and> r \<noteq> None")
    case True
    then show ?thesis
      using e o p send_packet_returns [OF b assms(2) _ e(2)] by (auto simp: network_body_def)
  next
    case False
    then show ?thesis using e o p by (auto simp: network_body_def)
  qed
qed

text \<open>
  No turn of the network thread hangs: as long as TLS writes and condition waits do not
  ask to be retried for ever, the turn comes to its end, and the next reconnect delay is a
  proper value between the configured base and maximum.
\<close>

lemma network_turn_returns:
  assumes "net_api_ok api" and "ssl_write_progress m api" and "timedwait_progress m' (queue_env api)"
    and "tc_inv c" and "delay_ok c"
  shows "\<exists>c' q' w'. network_body api bo c q w = Some (c', q', w')
    \<and> reconnect_base_ms (tc_config c') \<le> tc_reconnect_delay_ms c'
    \<and> tc_reconnect_delay_ms c' \<le> reconnect_max_ms (tc_config c')"
  using network_body_returns [OF assms, of bo q w] by (auto simp: delay_ok_def)

text \<open>The flag is cleared after finitely many turns: a turn that starts with it set lowers \<open>k\<close>.\<close>

definition flag_cleared :: "('w \<Rightarrow> nat) \<Rightarrow> byte_order \<Rightarrow> 'w tls_api \<Rightarrow> bool" where
  "flag_cleared k bo api \<longleftrightarrow>
     (\<forall>w w1 c q c' q' w'. running api w = (True, w1) \<longrightarrow> network_body api bo c q w1 = Some (c', q', w') \<longrightarrow> k w' < k w)"

lemma networkLoop_returns:
  assumes "net_api_ok api" and "ssl_write_progress m api" and "timedwait_progress m' (queue_env api)"
    and "flag_cleared k bo api"
  shows "net_state_ok c q H B \<Longrightarrow> delay_ok c \<Longrightarrow> \<exists>r. networkLoop api bo c q w = Some r"
proof (induction "k w" arbitrary: c q w rule: less_induct)
  case less
  obtain go w1 where g: "running api w = (go, w1)" by (cases "running api w")
  have "tc_inv c" using less.prems(1) by (simp add: net_state_ok_def)
  from network_body_returns [OF assms(1-3) this less.prems(2), of bo q w1] obtain c' q' w' where
    b: "network_body api bo c q w1 = Some (c', q', w')" "delay_ok c'" by blast
  show ?case
  proof (cases go)
    case True
    then have "k w' < k w" using assms(4) g b(1) unfolding flag_cleared_def by (metis (full_types))
    then show ?thesis
      using less.hyps [of w' c' q'] network_body_keeps [OF assms(1) less.prems(1) b(1)] b True g
      by (subst networkLoop.simps) simp
  next
    case False
    then show ?thesis using g by (subst networkLoop.simps) simp
  qed
qed

text \<open>
  C32. The network thread ends once the running flag is cleared: no failure of the server or
  the network keeps it in its loop.
\<close>

theorem network_thread_returns:
  assumes "net_api_ok api" and "ssl_write_progress m api" and "timedwait_progress m' (queue_env api)"
    and "flag_cleared k bo api" and "initialize api (TlsClient_new cfg) w0 = (True, c, w)" and "backoff_ok cfg"
    and "rq_inv q" and "\<not> mutex_locked q"
  shows "\<exists>r. networkLoop api bo c q w = Some r"
proof (rule networkLoop_returns [OF assms(1-4) initialized_ok [OF assms(5,7,8)]])
  obtain ctx where "c = (TlsClient_new cfg)\<lparr>tc_ssl_ctx := Some ctx\<rparr>" by (rule initialized_client [OF assms(5)])
  then show "delay_ok c" using assms(6) by (simp add: delay_ok_def backoff_ok_def TlsClient_new_def)
qed

section \<open>A concrete environment\<close>

lemma demo_api_ok:
  "net_api_ok demo_api" "ssl_write_progress (\<lambda>_. 0) demo_api" "timedwait_progress (\<lambda>_. 0) (queue_env demo_api)"
proof -
  have "producer_step q (fst (other_threads demo_api w q))" for w q
    using producer_step_push [of demo_frame q]
    by (cases "push_frame demo_frame q") (auto simp: demo_api_def demo_frame_def)
  then show "net_api_ok demo_api"
    by (simp add: net_api_ok_def demo_api_bounds demo_api_fresh producers_only_def) (simp add: demo_api_def nowait_env_def)
  show "ssl_write_progress (\<lambda>_. 0) demo_api" by (rule demo_api_bounds)
  show "timedwait_progress (\<lambda>_. 0) (queue_env demo_api)"
    by (simp add: demo_api_def timedwait_progress_def nowait_env_def)
qed

text \<open>The first turn of the concrete client: it connects and finds a frame to send.\<close>

lemma demo_client_account: "tc_account demo_client [] []"
  using tc_account_new [of demo_config] by (simp add: demo_client_def tc_account_def TlsClient_new_def)

lemma demo_backoff: "backoff_ok demo_config"
  by (simp add: backoff_ok_def demo_config_def default_TlsConfig_def f32_two_def)

lemma demo_delay: "delay_ok demo_client"
  using demo_backoff by (simp add: delay_ok_def demo_client_def TlsClient_new_def backoff_ok_def)

lemma demo_turn: "\<exists>c' q' w'. network_body demo_api bo demo_client demo_queue w = Some (c', q', w')"
  using network_body_returns [OF demo_api_ok demo_client_inv(1) demo_delay] by blast

lemma network_turn_correct_example:
  "\<exists>c' q' w'. network_body demo_api LittleEndian demo_client demo_queue 0 = Some (c', q', w') \<and> tc_inv c' \<and> rq_inv q'
     \<and> rq_held q' = {}"
proof -
  obtain c' q' w' where t: "network_body demo_api LittleEndian demo_client demo_queue 0 = Some (c', q', w')"
    using demo_turn by blast
  from network_turn_correct [OF demo_api_ok(1) demo_client_inv(1) demo_client_account demo_queue_inv(1) demo_queue_unlocked t]
  show ?thesis using t demo_queue_inv(5) by simp
qed

text \<open>The concrete environment counts down only when the flag is read.\<close>

lemma demo_api_sel:
  "SSL_new demo_api w = (True, w)" "SSL_set_tlsext_host_name demo_api w = (True, w)"
  "X509_VERIFY_PARAM_set1_host demo_api w = (True, w)" "SSL_set_fd demo_api w = (True, w)"
  "SSL_connect demo_api w s = (1, w)" "getaddrinfo demo_api w h p = (Inr [0], w)"
  "sys_socket demo_api w fds rp = (if 3 \<in> set fds then -1 else 3, w)" "sys_connect demo_api w fd rp = (0, 0, w)"
  "nanosleep demo_api w t = w" "snd (other_threads demo_api w q) = w" "queue_env demo_api = nowait_env"
  by (simp_all add: demo_api_def)

lemma demo_world_tls: "snd (snd (tlsConnect demo_api c w)) = w"
  by (cases "tc_ssl_ctx c"; cases "3 \<in> set (os_fds (tc_os c))")
    (simp_all add: tlsConnect_def createTcpConnection_def demo_api_sel Let_def)

lemma demo_world_connect:
  assumes "ensure_connected demo_api c w = Some (go, c', w')"
  shows "w' = w"
proof -
  obtain ok c1 w1 where t: "tlsConnect demo_api (c\<lparr>tc_state := Connecting\<rparr>) w = (ok, c1, w1)"
    by (cases "tlsConnect demo_api (c\<lparr>tc_state := Connecting\<rparr>) w") auto
  then have "w1 = w" using demo_world_tls [of "c\<lparr>tc_state := Connecting\<rparr>" w] by simp
  then show ?thesis
    using assms t by (auto simp: ensure_connected_def Let_def sleepMs_def demo_api_sel bind_eq_Some_conv split: if_splits)
qed

lemma demo_world_write:
  assumes "sslWriteAll demo_api data len c w = Some (ok, c', w')" and "len < 2 ^ 64"
  shows "w' = w"
proof -
  obtain n s s' where r: "(case (s, w) of (s, w) \<Rightarrow> ssl_write_loop demo_api data 0 len s w) = Some (ok, n, s', w')"
    using assms(1) by (auto simp: sslWriteAll_def bind_eq_Some_conv split: option.splits)
  have "snd (s', w') = w \<and> 0 \<le> n \<and> n \<le> 0 + len \<and> (ok \<longleftrightarrow> n = 0 + len)"
  proof (rule ssl_write.loop_keeps [where R = "\<lambda>_ v. snd v = w", OF _ _ r])
    show "k \<le> rem" if "ssl_write_call demo_api data ptr rem v = (Advance k, v')" for ptr rem v k v'
      using ssl_write_call_bounds [OF demo_api_bounds(1) that] by simp
    show "snd v' = w" if "snd v = w" "ssl_write_call demo_api data ptr rem v = (out, v')" for ptr rem v out v'
      using that by (auto simp: ssl_write_call_def ssl_object_write_def demo_api_def)
  qed (use assms(2) in simp_all)
  then show ?thesis by simp
qed

text \<open>Its connections come about and take whatever is written to them.\<close>

lemma demo_writes:
  assumes "tc_ssl c = Some s" and "length data < 2 ^ 31"
  shows "\<exists>w'. sslWriteAll demo_api data (length data) c w
    = Some (True, c\<lparr>tc_ssl := Some (s\<lparr>ssl_out := ssl_out s @ data\<rparr>)\<rparr>, w')"
proof -
  have l: "length data < 2 ^ 64" using assms(2) by simp
  obtain ok c' w' where r: "sslWriteAll demo_api data (length data) c w = Some (ok, c', w')"
    using sslWriteAll_returns [OF demo_api_bounds(1) demo_api_bounds(2) [of "\<lambda>_. 0"] assms(1) l] by (metis prod_cases3)
  obtain n where n: "ok \<longleftrightarrow> n = length data" "c' = c\<lparr>tc_ssl := Some (s\<lparr>ssl_out := ssl_out s @ take n data\<rparr>)\<rparr>"
    by (rule sslWriteAll_result [OF demo_api_bounds(1) assms(1) l r])
  have "ok"
  proof (rule ccontr)
    assume "\<not> ok"
    then obtain k s' where x: "(case (s, w) of (s, w) \<Rightarrow> ssl_write_loop demo_api data 0 (length data) s w) = Some (False, k, s', w')"
      using r assms(1) by (auto simp: sslWriteAll_def bind_eq_Some_conv)
    show False
    proof (rule ssl_write.loop_stopped [where S = "\<lambda>_. False", OF _ _ x l])
      show "k \<le> rem" if "ssl_write_call demo_api data ptr rem v = (Advance k, v')" for ptr rem v k v'
        using ssl_write_call_bounds [OF demo_api_bounds(1) that] by simp
      show False if "0 < rem" "rem \<le> length data" "ssl_write_call demo_api data ptr rem v = (Stop, v')" for ptr rem v v'
        using that assms(2) by (auto simp: ssl_write_call_def ssl_object_write_def demo_api_def int_of_size_eq split: if_splits)
    qed
  qed
  then show ?thesis using r n by simp
qed

lemma demo_connects:
  assumes "tc_state c \<noteq> Connected" and "tc_ssl_ctx c = Some ctx" and "os_fds (tc_os c) = []"
  shows "\<exists>t s. ensure_connected demo_api c w = Some (True, t, w) \<and> tc_ssl t = Some s \<and> ssl_out s = []
    \<and> os_streams (tc_os t) = os_streams (tc_os c) \<and> tc_frames_sent t = tc_frames_sent c"
  using assms
  by (simp add: ensure_connected_def tlsConnect_def createTcpConnection_def demo_api_sel Let_def os_open_def os_set_nonblock_def)

lemma disconnect_ends_stream:
  "tc_ssl c = Some s \<Longrightarrow> os_streams (tc_os (tlsDisconnect c)) = os_streams (tc_os c) @ [ssl_out s]"
  by (simp add: tlsDisconnect_def Let_def os_ssl_free_def os_close_def)

lemma disconnect_frames_sent: "tc_frames_sent (tlsDisconnect c) = tc_frames_sent c"
  by (simp add: tlsDisconnect_def Let_def split: option.split)

lemma nowait_pop_timedwait:
  "pop_timedwait nowait_env ts w q
     = Some (rq_count q = 0 \<and> \<not> shutdown_flag q,
         if rq_count q = 0 \<and> \<not> shutdown_flag q then mutex_lock (mutex_unlock q) else q, w)"
  by (subst pop_timedwait.simps) (simp add: nowait_env_def)

lemma demo_world_pop: "pop (queue_env demo_api) QUEUE_TIMEOUT_MS w q = Some (r, q', w') \<Longrightarrow> w' = w"
  by (auto simp: pop_def Let_def demo_api_sel nowait_pop_timedwait QUEUE_TIMEOUT_MS_def pop_finish_def
      split: if_splits prod.splits) (auto simp: nowait_env_def)

lemma demo_world_payload:
  assumes "send_payload demo_api pkt c q w = Some (c', q', w')"
  shows "w' = w"
proof -
  let ?data = "mem_read (rq_mem q) (pkt_data pkt) (unat (pkt_len pkt))"
  obtain ok c1 w1 where w: "sslWriteAll demo_api ?data (unat (pkt_len pkt)) c w = Some (ok, c1, w1)"
    using assms by (auto simp: send_payload_def bind_eq_Some_conv)
  obtain q1 w2 where o: "other_threads demo_api w1 q = (q1, w2)" by (cases "other_threads demo_api w1 q")
  have "w1 = w" using demo_world_write [OF w] unat_less_pow [of "pkt_len pkt"] by simp
  then show ?thesis
    using assms w o demo_api_sel(10) [of w1 q] by (auto simp: send_payload_def Let_def split: if_splits)
qed

lemma demo_world_send:
  assumes "send_packet demo_api bo pkt c q w = Some (c', q', w')"
  shows "w' = w"
proof -
  let ?hdr = "header_bytes bo (initFrameHeader bo (pkt_seq pkt) (pkt_timestamp_ns pkt) (pkt_len pkt)
      (pkt_pixel_format pkt) (pkt_width pkt) (pkt_height pkt))"
  obtain ok c1 w1 where w: "sslWriteAll demo_api ?hdr FRAME_HEADER_SIZE c w = Some (ok, c1, w1)"
    using assms by (auto simp: send_packet_def Let_def bind_eq_Some_conv)
  obtain q1 w2 where o: "other_threads demo_api w1 q = (q1, w2)" by (cases "other_threads demo_api w1 q")
  have "w2 = w" using demo_world_write [OF w] demo_api_sel(10) [of w1 q] o by simp
  then show ?thesis
    using assms w o demo_world_payload by (auto simp: send_packet_def Let_def split: if_splits)
qed

lemma demo_world_body:
  assumes "network_body demo_api bo c q w = Some (c', q', w')"
  shows "w' = w"
proof -
  obtain go c1 w1 where e: "ensure_connected demo_api c w = Some (go, c1, w1)"
    using assms by (auto simp: network_body_def bind_eq_Some_conv)
  obtain q1 w2 where o: "other_threads demo_api w1 q = (q1, w2)" by (cases "other_threads demo_api w1 q")
  have w2: "w2 = w" using demo_world_connect [OF e] demo_api_sel(10) [of w1 q] o by simp
  show ?thesis
  proof (cases go)
    case True
    then obtain r q2 w3 where p: "pop (queue_env demo_api) QUEUE_TIMEOUT_MS w2 q1 = Some (r, q2, w3)"
      using assms e o by (auto simp: network_body_def bind_eq_Some_conv)
    then show ?thesis
      using assms e o True w2 demo_world_pop [OF p] demo_world_send by (cases r) (auto simp: network_body_def)
  next
    case False
    then show ?thesis using assms e o w2 by (auto simp: network_body_def)
  qed
qed

lemma demo_flag: "flag_cleared (\<lambda>w. w) bo demo_api"
proof -
  have "w' < w" if "running demo_api w = (True, w1)" "network_body demo_api bo c q w1 = Some (c', q', w')"
    for w w1 c q c' q' w'
  proof -
    have "w1 < w" using that(1) by (auto simp: demo_api_def)
    then show ?thesis using demo_world_body [OF that(2)] by simp
  qed
  then show ?thesis by (auto simp: flag_cleared_def)
qed

lemma network_turn_returns_example:
  "\<exists>c' q' w'. network_body demo_api LittleEndian demo_client demo_queue 0 = Some (c', q', w')
     \<and> tc_reconnect_delay_ms c' \<le> reconnect_max_ms (tc_config c')"
  using network_turn_returns [OF demo_api_ok demo_client_inv(1) demo_delay, of LittleEndian demo_queue 0] by blast

theorem network_thread_returns_witness: "\<exists>r. networkLoop demo_api LittleEndian demo_client demo_queue 5 = Some r"
  by (rule network_thread_returns [OF demo_api_ok demo_flag demo_initialize demo_backoff
        demo_queue_inv(1) demo_queue_unlocked])

theorem network_thread_correct_witness:
  "\<exists>c' q' w'. networkLoop demo_api LittleEndian demo_client demo_queue 5 = Some (c', q', w')
     \<and> tc_state c' = Disconnected \<and> os_fds (tc_os c') = [] \<and> rq_held q' = {}"
proof -
  from networkLoop_returns [OF demo_api_ok demo_flag initialized_ok [OF demo_initialize demo_queue_inv(1) demo_queue_unlocked]
      demo_delay, where w = 5] obtain c' q' w' where
    r: "networkLoop demo_api LittleEndian demo_client demo_queue 5 = Some (c', q', w')" by (metis prod_cases3)
  from network_thread_correct [OF demo_api_ok(1) demo_initialize demo_queue_inv(1) demo_queue_unlocked r]
  show ?thesis using r demo_queue_inv(5) by simp
qed

end
