(* ===== verification/Client_Main.thy ===== *)
theory Client_Main
  imports Getopt Log_Message Camera_Capture Tls_Client_Runs
begin

text \<open>
  The start-up of the client program in \<open>src/main.cpp\<close>: the configuration and its defaults, the
  command line, and the part of \<open>main\<close> that builds the queue, the camera and the TLS client
  before the two threads exist. The threads and the shut-down are in \<open>Streamer\<close>.
\<close>

section \<open>Configuration\<close>

definition DEFAULT_DEVICE :: string where "DEFAULT_DEVICE = ''0''"
definition DEFAULT_WIDTH :: u16 where "DEFAULT_WIDTH = 1280"
definition DEFAULT_HEIGHT :: u16 where "DEFAULT_HEIGHT = 720"
definition DEFAULT_FPS :: u32 where "DEFAULT_FPS = 30"
definition DEFAULT_PORT :: u16 where "DEFAULT_PORT = 4433"
definition DEFAULT_QUEUE_SIZE :: u64 where "DEFAULT_QUEUE_SIZE = 128"
definition DEFAULT_JPEG_QUALITY :: int where "DEFAULT_JPEG_QUALITY = 85"

record client_config =
  cl_device :: string
  cl_width :: u16
  cl_height :: u16
  cl_fps :: u32
  cl_use_jpeg :: bool
  cl_jpeg_quality :: int
  cl_host :: "string option"
  cl_port :: u16
  cl_ca_path :: "string option"
  cl_queue_size :: u64
  cl_verbose :: bool

definition default_client_config :: client_config where
  "default_client_config =
     \<lparr> cl_device = DEFAULT_DEVICE, cl_width = DEFAULT_WIDTH, cl_height = DEFAULT_HEIGHT, cl_fps = DEFAULT_FPS,
       cl_use_jpeg = True, cl_jpeg_quality = DEFAULT_JPEG_QUALITY, cl_host = None, cl_port = DEFAULT_PORT,
       cl_ca_path = None, cl_queue_size = DEFAULT_QUEUE_SIZE, cl_verbose = False \<rparr>"

section \<open>Command line\<close>

definition cl_long_options :: "long_option list" where
  "cl_long_options =
     [(''device'', required_argument, CHR ''d''), (''width'', required_argument, CHR ''W''),
      (''height'', required_argument, CHR ''H''), (''fps'', required_argument, CHR ''f''),
      (''no-jpeg'', no_argument, CHR ''J''), (''jpeg-quality'', required_argument, CHR ''Q''),
      (''host'', required_argument, CHR ''h''), (''port'', required_argument, CHR ''p''),
      (''ca'', required_argument, CHR ''c''), (''queue-size'', required_argument, CHR ''q''),
      (''verbose'', no_argument, CHR ''v''), (''help'', no_argument, CHR ''?'')]"

definition cl_optstring :: string where
  "cl_optstring = ''d:W:H:f:JQ:h:p:c:q:v?''"

text \<open>The messages with which the command line is refused.\<close>

datatype cl_error =
  ShowUsage | BadJpegQuality | HostRequired | InvalidDimensions | InvalidFps | QueueTooSmall

definition cl_option :: "opt_result \<Rightarrow> client_config \<Rightarrow> cl_error + client_config" where
  "cl_option r config =
     (case r of (opt, optarg) \<Rightarrow>
        if opt = CHR ''d'' then Inr (config\<lparr>cl_device := optarg\<rparr>)
        else if opt = CHR ''W'' then Inr (config\<lparr>cl_width := word_of_int (atoi optarg)\<rparr>)
        else if opt = CHR ''H'' then Inr (config\<lparr>cl_height := word_of_int (atoi optarg)\<rparr>)
        else if opt = CHR ''f'' then Inr (config\<lparr>cl_fps := word_of_int (atoi optarg)\<rparr>)
        else if opt = CHR ''J'' then Inr (config\<lparr>cl_use_jpeg := False\<rparr>)
        else if opt = CHR ''Q'' then
          (let config = config\<lparr>cl_jpeg_quality := atoi optarg\<rparr> in
           if cl_jpeg_quality config < 1 \<or> cl_jpeg_quality config > 100 then Inl BadJpegQuality else Inr config)
        else if opt = CHR ''h'' then Inr (config\<lparr>cl_host := Some optarg\<rparr>)
        else if opt = CHR ''p'' then Inr (config\<lparr>cl_port := word_of_int (atoi optarg)\<rparr>)
        else if opt = CHR ''c'' then Inr (config\<lparr>cl_ca_path := Some optarg\<rparr>)
        else if opt = CHR ''q'' then Inr (config\<lparr>cl_queue_size := word_of_int (atoi optarg)\<rparr>)
        else if opt = CHR ''v'' then Inr (config\<lparr>cl_verbose := True\<rparr>)
        else Inl ShowUsage)"

definition cl_validate :: "client_config \<Rightarrow> cl_error + client_config" where
  "cl_validate config =
     (if cl_host config = None \<or> cl_host config = Some [] then Inl HostRequired
      else if cl_width config = 0 \<or> cl_height config = 0 then Inl InvalidDimensions
      else if cl_fps config = 0 then Inl InvalidFps
      else if cl_queue_size config < 2 then Inl QueueTooSmall
      else Inr config)"

definition cl_parseArgs :: "string list \<Rightarrow> client_config \<Rightarrow> cl_error + client_config" where
  "cl_parseArgs args config =
     (case fold_options cl_option (getopt_long cl_optstring cl_long_options args) config of
        Inl e \<Rightarrow> Inl e
      | Inr config \<Rightarrow> cl_validate config)"

section \<open>Start-up\<close>

text \<open>The objects on the heap while \<open>main\<close> runs; an exit that leaves one in place leaks it.\<close>

record client_objects =
  ob_queue :: "ring_queue option"
  ob_capture :: "camera_capture option"
  ob_tls :: "tls_client option"

record ('m, 'w) client_env =
  env_mmap_ok :: "u64 \<Rightarrow> bool"
  env_malloc_ok :: "u64 \<Rightarrow> bool"
  env_cam :: "('m, 'w) cam_api"
  env_tls :: "'w tls_api"

definition camera_config_of :: "client_config \<Rightarrow> CameraConfig" where
  "camera_config_of config =
     default_CameraConfig\<lparr>cam_device := cl_device config, cam_width := cl_width config,
       cam_height := cl_height config, cam_fps := cl_fps config, cam_use_jpeg := cl_use_jpeg config,
       cam_jpeg_quality := cl_jpeg_quality config\<rparr>"

definition tls_config_of :: "client_config \<Rightarrow> camera_capture \<Rightarrow> TlsConfig" where
  "tls_config_of config capture =
     default_TlsConfig\<lparr>cfg_host := cl_host config, cfg_port := cl_port config, cfg_ca_path := cl_ca_path config,
       cfg_frame_width := actualWidth capture, cfg_frame_height := actualHeight capture,
       cfg_pixel_format := pixelFormat capture\<rparr>"

text \<open>
  \<open>main\<close> up to the creation of the threads: \<open>Inl\<close> the exit status, or \<open>Inr\<close> the level of the
  logger when the program goes on; in both cases the objects that exist then.
\<close>

definition client_startup ::
  "('m, 'w) client_env \<Rightarrow> string list \<Rightarrow> 'w \<Rightarrow> ((exit_status + LogLevel) \<times> client_objects \<times> 'w) option" where
  "client_startup env args w =
     (let none = \<lparr>ob_queue = None, ob_capture = None, ob_tls = None\<rparr> in
      case cl_parseArgs args default_client_config of
        Inl e \<Rightarrow> Some (Inl EXIT_FAILURE, none, w)
      | Inr config \<Rightarrow>
          let level = (if cl_verbose config then LogDebug else g_log_level initial_logger);
              queue = RingQueue_new (env_mmap_ok env) (env_malloc_ok env) (cl_queue_size config) MAX_FRAME_SIZE in
          if \<not> isValid queue then Some (Inl EXIT_FAILURE, none, w)
          else do {
            let capture = CameraCapture_new (camera_config_of config);
            (opened, capture, w) \<leftarrow> camera_open (env_cam env) capture w;
            let objects = \<lparr>ob_queue = Some queue, ob_capture = Some capture, ob_tls = None\<rparr>;
            if \<not> opened then Some (Inl EXIT_FAILURE, objects, w)
            else
              let tls = TlsClient_new (tls_config_of config capture);
                  (initialized, tls, w) = initialize (env_tls env) tls w;
                  objects = objects\<lparr>ob_tls := Some tls\<rparr> in
              if \<not> initialized then Some (Inl EXIT_FAILURE, objects, w)
              else
                let (started, capture) = camera_start (env_cam env) capture w;
                    objects = objects\<lparr>ob_capture := Some capture\<rparr>
                in Some (if started then Inr level else Inl EXIT_FAILURE, objects, w)
          })"

section \<open>What the command line means\<close>

text \<open>The argument of the last occurrence of an option.\<close>

definition last_arg :: "char \<Rightarrow> opt_result list \<Rightarrow> string option" where
  "last_arg c rs =
     (let xs = filter (\<lambda>r. fst r = c) rs in if xs = [] then None else Some (snd (last xs)))"

definition arg_or :: "(string \<Rightarrow> 'a) \<Rightarrow> 'a \<Rightarrow> string option \<Rightarrow> 'a" where
  "arg_or f d a = (case a of None \<Rightarrow> d | Some s \<Rightarrow> f s)"

lemma last_arg_simps [simp]:
  "last_arg c [] = None"
  "last_arg c (rs @ [(o1, a)]) = (if o1 = c then Some a else last_arg c rs)"
  by (simp_all add: last_arg_def Let_def)

text \<open>The configuration that a list of options describes, starting from the defaults.\<close>

definition described_config :: "opt_result list \<Rightarrow> client_config" where
  "described_config rs =
     \<lparr> cl_device = arg_or (\<lambda>s. s) DEFAULT_DEVICE (last_arg (CHR ''d'') rs),
       cl_width = arg_or (word_of_int \<circ> atoi) DEFAULT_WIDTH (last_arg (CHR ''W'') rs),
       cl_height = arg_or (word_of_int \<circ> atoi) DEFAULT_HEIGHT (last_arg (CHR ''H'') rs),
       cl_fps = arg_or (word_of_int \<circ> atoi) DEFAULT_FPS (last_arg (CHR ''f'') rs),
       cl_use_jpeg = (last_arg (CHR ''J'') rs = None),
       cl_jpeg_quality = arg_or atoi DEFAULT_JPEG_QUALITY (last_arg (CHR ''Q'') rs),
       cl_host = last_arg (CHR ''h'') rs,
       cl_port = arg_or (word_of_int \<circ> atoi) DEFAULT_PORT (last_arg (CHR ''p'') rs),
       cl_ca_path = last_arg (CHR ''c'') rs,
       cl_queue_size = arg_or (word_of_int \<circ> atoi) DEFAULT_QUEUE_SIZE (last_arg (CHR ''q'') rs),
       cl_verbose = (last_arg (CHR ''v'') rs \<noteq> None) \<rparr>"

lemma fold_options_snoc:
  "fold_options f (rs @ [r]) cfg = (case fold_options f rs cfg of Inl e \<Rightarrow> Inl e | Inr cfg' \<Rightarrow> f r cfg')"
  by (induction rs arbitrary: cfg) (auto split: sum.splits)

lemma cl_fold_describes:
  "fold_options cl_option rs default_client_config = Inr cfg \<Longrightarrow>
   cfg = described_config rs \<and> list_all (\<lambda>r. fst r \<in> set ''dWHfJQhpcqv'') rs
   \<and> 1 \<le> cl_jpeg_quality cfg \<and> cl_jpeg_quality cfg \<le> 100"
proof (induction rs arbitrary: cfg rule: rev_induct)
  case Nil
  then show ?case
    by (auto simp: described_config_def default_client_config_def arg_or_def DEFAULT_JPEG_QUALITY_def)
next
  case (snoc r rs)
  obtain o1 a where r: "r = (o1, a)" by (cases r)
  from snoc.prems obtain cfg1 where c: "fold_options cl_option rs default_client_config = Inr cfg1" "cl_option r cfg1 = Inr cfg"
    by (auto simp: fold_options_snoc split: sum.splits)
  from snoc.IH [OF c(1)] c(2) show ?case
    unfolding r cl_option_def by (auto simp: described_config_def arg_or_def Let_def split: if_splits)
qed

lemma cl_parseArgs_accepts:
  assumes "cl_parseArgs args default_client_config = Inr cfg"
  shows "cfg = described_config (getopt_long cl_optstring cl_long_options args)
    \<and> list_all (\<lambda>r. fst r \<in> set ''dWHfJQhpcqv'') (getopt_long cl_optstring cl_long_options args)
    \<and> 1 \<le> cl_jpeg_quality cfg \<and> cl_jpeg_quality cfg \<le> 100
    \<and> cl_host cfg \<notin> {None, Some []} \<and> cl_width cfg \<noteq> 0 \<and> cl_height cfg \<noteq> 0 \<and> cl_fps cfg \<noteq> 0
    \<and> 2 \<le> unat (cl_queue_size cfg)"
proof -
  obtain cfg1 where f: "fold_options cl_option (getopt_long cl_optstring cl_long_options args) default_client_config = Inr cfg1"
    and v: "cl_validate cfg1 = Inr cfg"
    using assms by (auto simp: cl_parseArgs_def split: sum.splits)
  have eq: "cfg1 = cfg" and ok: "cl_host cfg \<notin> {None, Some []}" "cl_width cfg \<noteq> 0" "cl_height cfg \<noteq> 0"
    "cl_fps cfg \<noteq> 0" and "\<not> cl_queue_size cfg < 2"
    using v by (auto simp: cl_validate_def split: if_splits)
  then have "2 \<le> unat (cl_queue_size cfg)" by (simp add: word_less_nat_alt)
  with ok cl_fold_describes [OF f] show ?thesis unfolding eq by blast
qed

text \<open>
  C37. The client's command line: a configuration is accepted only when every option is known;
  each member is then the value of the last option that names it, or the default, numbers being
  converted with \<open>atoi\<close> and truncated to the member's type; the host is not empty, width,
  height and frame rate are not zero, the quality lies between 1 and 100 and the queue has at
  least two slots.
\<close>

theorem client_arguments:
  assumes "cl_parseArgs args default_client_config = Inr cfg"
  shows "cfg = described_config (getopt_long cl_optstring cl_long_options args)
    \<and> list_all (\<lambda>r. fst r \<in> set ''dWHfJQhpcqv'') (getopt_long cl_optstring cl_long_options args)
    \<and> 1 \<le> cl_jpeg_quality cfg \<and> cl_jpeg_quality cfg \<le> 100
    \<and> cl_host cfg \<notin> {None, Some []} \<and> cl_width cfg \<noteq> 0 \<and> cl_height cfg \<noteq> 0 \<and> cl_fps cfg \<noteq> 0
    \<and> 2 \<le> unat (cl_queue_size cfg)"
  by (rule cl_parseArgs_accepts [OF assms])

lemma cl_parse_host:
  assumes "h \<noteq> []"
  shows "cl_parseArgs [''--host'', h] default_client_config = Inr (default_client_config\<lparr>cl_host := Some h\<rparr>)"
proof -
  have "find_long cl_long_options ''host'' = Some (required_argument, CHR ''h'')"
    by (simp add: find_long_def cl_long_options_def)
  then have "getopt_long cl_optstring cl_long_options [''--host'', h] = [(CHR ''h'', h)]"
    by (simp add: getopt_long1_def Let_def)
  then show ?thesis using assms
    by (simp add: cl_parseArgs_def cl_option_def cl_validate_def default_client_config_def DEFAULT_WIDTH_def
        DEFAULT_HEIGHT_def DEFAULT_FPS_def DEFAULT_QUEUE_SIZE_def)
qed

theorem client_arguments_witness:
  "\<exists>cfg. cl_parseArgs [''--host'', ''cam''] default_client_config = Inr cfg
     \<and> cfg = described_config (getopt_long cl_optstring cl_long_options [''--host'', ''cam''])"
  using client_arguments [OF cl_parse_host [of "''cam''"]] cl_parse_host [of "''cam''"] by blast

text \<open>The usage text offers \<open>-h\<close> for help, but the option table makes it the host.\<close>

lemma client_h_is_host:
  assumes "h \<noteq> []"
  shows "cl_parseArgs [''-h'', h] default_client_config = Inr (default_client_config\<lparr>cl_host := Some h\<rparr>)"
proof -
  have "short_option cl_optstring (CHR ''h'') = Some required_argument" by (simp add: cl_optstring_def)
  then have "getopt_long cl_optstring cl_long_options [''-h'', h] = [(CHR ''h'', h)]" by simp
  then show ?thesis using assms
    by (simp add: cl_parseArgs_def cl_option_def cl_validate_def default_client_config_def DEFAULT_WIDTH_def
        DEFAULT_HEIGHT_def DEFAULT_FPS_def DEFAULT_QUEUE_SIZE_def)
qed

section \<open>What the start-up builds\<close>

text \<open>Documented behaviour of \<open>mmap\<close>: no request of half the address space or more is granted.\<close>

definition mmap_bounded :: "(u64 \<Rightarrow> bool) \<Rightarrow> bool" where
  "mmap_bounded mmap_ok \<longleftrightarrow> (\<forall>n. mmap_ok n \<longrightarrow> unat n < 2 ^ 63)"

text \<open>
  The objects a running client starts with: an empty queue in good order, a camera that streams
  from frame 0, and an unconnected TLS client with a verifying context.
\<close>

definition client_ready :: "client_config \<Rightarrow> ring_queue \<Rightarrow> camera_capture \<Rightarrow> tls_client \<Rightarrow> bool" where
  "client_ready config q c t \<longleftrightarrow>
     rq_inv q \<and> \<not> mutex_locked q \<and> rq_frames q = [] \<and> rq_held q = {}
   \<and> capacity q = unat (cl_queue_size config) \<and> max_frame_size q = 4194304
   \<and> frames_pushed q = 0 \<and> frames_dropped q = 0 \<and> frames_popped q = 0 \<and> \<not> shutdown_flag q
   \<and> streaming c \<and> frameCount c = 0
   \<and> pixelFormat c = pixel_format_code (if cl_use_jpeg config then JPEG else BGR24)
   \<and> (\<exists>ctx. t = (TlsClient_new (tls_config_of config c))\<lparr>tc_ssl_ctx := Some ctx\<rparr> \<and> ctx_verify_peer ctx)
   \<and> cfg_host (tc_config t) = cl_host config \<and> cfg_port (tc_config t) = cl_port config \<and> cl_port config \<noteq> 0"

lemma atoi_range: "INT_MIN \<le> atoi s \<and> atoi s \<le> INT_MAX"
  using sint_ge [of "word_of_int (fst (strtol s)) :: 32 word"] sint_lt [of "word_of_int (fst (strtol s)) :: 32 word"]
  by (simp add: atoi_def int32_of_def INT_MIN_def INT_MAX_def)

text \<open>
  A queue size that comes from a negative number makes the size of the region wrap to just below
  2 ^ 64, so the mapping fails.
\<close>

lemma negative_queue_size:
  assumes "v < 0" and "INT_MIN \<le> v" and "mmap_bounded mmap_ok"
  shows "\<not> isValid (RingQueue_new mmap_ok malloc_ok (word_of_int v) MAX_FRAME_SIZE)"
proof -
  let ?n = "nat (- v)"
  have n: "1 \<le> ?n" "?n \<le> 2 ^ 31" using assms(1,2) by (simp_all add: INT_MIN_def)
  have "unat (calcStride MAX_FRAME_SIZE) = 4194368"
    using unat_calcStride [of MAX_FRAME_SIZE] by (simp add: MAX_FRAME_SIZE_def)
  then have stride: "calcStride MAX_FRAME_SIZE = (4194368 :: u64)"
    by (metis unat_of_nat_self of_nat_numeral)
  have "(4194368 :: u64) * word_of_int v = word_of_int (2 ^ 64 + 4194368 * v)"
    by simp
  also have "uint (word_of_int (2 ^ 64 + 4194368 * v) :: u64) = (2 ^ 64 + 4194368 * v) mod 2 ^ 64"
    by (simp only: uint_word_of_int) simp
  also have "\<dots> = 2 ^ 64 + 4194368 * v"
    using assms(1,2) by (intro mod_pos_pos_trivial) (simp_all add: INT_MIN_def)
  finally have "uint (calcStride MAX_FRAME_SIZE * word_of_int v) = 2 ^ 64 + 4194368 * v" by (simp add: stride)
  moreover have "(2 ^ 63 :: int) \<le> 2 ^ 64 + 4194368 * v" using assms(2) by (simp add: INT_MIN_def)
  ultimately have "2 ^ 63 \<le> uint (calcStride MAX_FRAME_SIZE * word_of_int v)" by (simp only:)
  moreover have "\<not> unat x < 2 ^ 63" if "2 ^ 63 \<le> uint x" for x :: u64
  proof -
    have "\<not> int (unat x) < int (2 ^ 63)" using that by simp
    then show ?thesis by (simp only: of_nat_less_iff) simp
  qed
  ultimately have "\<not> unat (calcStride MAX_FRAME_SIZE * word_of_int v) < 2 ^ 63" by blast
  then have "\<not> mmap_ok (calcStride MAX_FRAME_SIZE * word_of_int v)"
    using assms(3) by (auto simp: mmap_bounded_def)
  then show ?thesis by (simp add: RingQueue_new_def isValid_def empty_queue_def Let_def)
qed

lemma accepted_queue_size:
  assumes "cl_parseArgs args default_client_config = Inr cfg"
  obtains v where "cl_queue_size cfg = word_of_int v" and "INT_MIN \<le> v" and "v \<le> INT_MAX"
proof -
  have "cl_queue_size cfg = arg_or (word_of_int \<circ> atoi) DEFAULT_QUEUE_SIZE
      (last_arg (CHR ''q'') (getopt_long cl_optstring cl_long_options args))"
    using cl_parseArgs_accepts [OF assms] by (simp add: described_config_def)
  then show thesis
    using that atoi_range
    by (cases "last_arg (CHR ''q'') (getopt_long cl_optstring cl_long_options args)")
      (auto simp: arg_or_def DEFAULT_QUEUE_SIZE_def INT_MIN_def INT_MAX_def
        intro: that [of 128])
qed

lemma client_queue:
  assumes "cl_parseArgs args default_client_config = Inr cfg" and "mmap_bounded mmap_ok"
    and valid: "isValid (RingQueue_new mmap_ok malloc_ok (cl_queue_size cfg) MAX_FRAME_SIZE)"
  shows "let q = RingQueue_new mmap_ok malloc_ok (cl_queue_size cfg) MAX_FRAME_SIZE in
    rq_inv q \<and> \<not> mutex_locked q \<and> rq_frames q = [] \<and> rq_held q = {}
    \<and> capacity q = unat (cl_queue_size cfg) \<and> max_frame_size q = 4194304"
proof -
  let ?q = "RingQueue_new mmap_ok malloc_ok (cl_queue_size cfg) MAX_FRAME_SIZE"
  obtain v where v: "cl_queue_size cfg = word_of_int v" "INT_MIN \<le> v" "v \<le> INT_MAX"
    by (rule accepted_queue_size [OF assms(1)])
  have "0 \<le> v"
    using negative_queue_size [OF _ v(2) assms(2), of malloc_ok] valid v(1) by (metis not_le)
  then have "unat (cl_queue_size cfg) = nat v"
    using v(1,3) unat_of_nat_small [of "nat v", where 'a = 64] by (simp add: INT_MAX_def)
  then have "unat (cl_queue_size cfg) < 2 ^ 31" using v(3) by (simp add: INT_MAX_def)
  then have "(unat MAX_FRAME_SIZE + 91) * unat (cl_queue_size cfg) < 2 ^ 64" by (simp add: MAX_FRAME_SIZE_def)
  note inv = RingQueue_new_inv [OF valid this]
  have "capacity ?q = unat (cl_queue_size cfg) \<and> max_frame_size ?q = 4194304 \<and> \<not> mutex_locked ?q"
    using valid by (auto simp: RingQueue_new_def isValid_def empty_queue_def MAX_FRAME_SIZE_def Let_def split: if_splits)
  with inv show ?thesis by (simp add: Let_def)
qed

lemma camera_open_keeps:
  assumes "camera_open api c w = Some (True, c', w')"
  shows "pixelFormat c' = pixel_format_code (if cam_use_jpeg (cc_config c) then JPEG else BGR24)
    \<and> cc_config c' = cc_config c"
  using assms by (auto simp: camera_open_def Let_def bind_eq_Some_conv split: prod.splits if_splits)

lemma client_startup_result:
  assumes "client_startup env args w = Some (r, ob, w')" and "mmap_bounded (env_mmap_ok env)"
  shows "case r of
      Inl status \<Rightarrow> status = EXIT_FAILURE
    | Inr level \<Rightarrow> \<exists>cfg q c t. cl_parseArgs args default_client_config = Inr cfg
        \<and> ob = \<lparr>ob_queue = Some q, ob_capture = Some c, ob_tls = Some t\<rparr>
        \<and> client_ready cfg q c t \<and> level = (if cl_verbose cfg then LogDebug else LogInfo)
        \<and> (tls12_supported (env_tls env) \<longrightarrow> map_option ctx_min_proto (tc_ssl_ctx t) = Some TLS1_2_VERSION)"
proof (cases "cl_parseArgs args default_client_config")
  case (Inl e)
  then show ?thesis using assms(1) by (auto simp: client_startup_def)
next
  case (Inr cfg)
  let ?q = "RingQueue_new (env_mmap_ok env) (env_malloc_ok env) (cl_queue_size cfg) MAX_FRAME_SIZE"
  let ?c = "CameraCapture_new (camera_config_of cfg)"
  show ?thesis
  proof (cases r)
    case (Inl status)
    then show ?thesis
      using assms(1) \<open>cl_parseArgs args default_client_config = Inr cfg\<close>
      by (auto simp: client_startup_def Let_def bind_eq_Some_conv split: prod.splits if_splits)
  next
    case (Inr level)
    from assms(1) \<open>cl_parseArgs args default_client_config = Inr cfg\<close> Inr
    have valid: "isValid ?q" by (auto simp: client_startup_def Let_def split: if_splits)
    obtain c1 w1 where o: "camera_open (env_cam env) ?c w = Some (True, c1, w1)"
      using assms(1) \<open>cl_parseArgs args default_client_config = Inr cfg\<close> Inr valid
      by (auto simp: client_startup_def Let_def bind_eq_Some_conv split: prod.splits if_splits)
    obtain ok t w2 where i: "initialize (env_tls env) (TlsClient_new (tls_config_of cfg c1)) w1 = (ok, t, w2)"
      by (cases "initialize (env_tls env) (TlsClient_new (tls_config_of cfg c1)) w1")
    have ok: "ok" and s: "cap_isOpened (env_cam env) w2"
      and ob: "ob = \<lparr>ob_queue = Some ?q, ob_capture = Some (c1\<lparr>streaming := True, frameCount := 0\<rparr>), ob_tls = Some t\<rparr>"
      and level: "level = (if cl_verbose cfg then LogDebug else LogInfo)"
      using assms(1) \<open>cl_parseArgs args default_client_config = Inr cfg\<close> Inr valid o i
      by (auto simp: client_startup_def Let_def camera_start_def initial_logger_def split: if_splits)
    let ?c1 = "c1\<lparr>streaming := True, frameCount := 0\<rparr>"
    have same: "tls_config_of cfg ?c1 = tls_config_of cfg c1" by (simp add: tls_config_of_def)
    have "client_ready cfg ?q ?c1 t"
      using client_queue [OF \<open>cl_parseArgs args default_client_config = Inr cfg\<close> assms(2) valid]
        camera_open_keeps [OF o] initialize_result [OF _ i] ok
      unfolding client_ready_def same
      by (auto simp: Let_def TlsClient_new_def tls_config_of_def camera_config_of_def CameraCapture_new_def)
    moreover have "tls12_supported (env_tls env) \<longrightarrow> map_option ctx_min_proto (tc_ssl_ctx t) = Some TLS1_2_VERSION"
      using initialize_result [OF _ i] ok by (auto simp: TlsClient_new_def)
    ultimately show ?thesis
      using ob level Inr \<open>cl_parseArgs args default_client_config = Inr cfg\<close> by auto
  qed
qed

text \<open>
  C36. The start-up of the client: it ends in a failure status or with all three objects ready: a
  queue of the accepted size for frames of up to 4 MB that satisfies its invariant and is empty,
  a camera that streams from frame 0 in the configured format, and a TLS client for the given
  host and port whose context verifies the peer and, where the library supports it, demands TLS 1.2. A queue size whose region
  would wrap around the address space never gets that far.
\<close>

theorem client_startup_correct:
  assumes "client_startup env args w = Some (r, ob, w')" and "mmap_bounded (env_mmap_ok env)"
  shows "case r of
      Inl status \<Rightarrow> status = EXIT_FAILURE
    | Inr level \<Rightarrow> \<exists>cfg q c t. cl_parseArgs args default_client_config = Inr cfg
        \<and> ob = \<lparr>ob_queue = Some q, ob_capture = Some c, ob_tls = Some t\<rparr>
        \<and> client_ready cfg q c t \<and> level = (if cl_verbose cfg then LogDebug else LogInfo)
        \<and> (tls12_supported (env_tls env) \<longrightarrow> map_option ctx_min_proto (tc_ssl_ctx t) = Some TLS1_2_VERSION)"
  by (rule client_startup_result [OF assms])

text \<open>A concrete start: the default configuration with a host.\<close>

definition demo_program :: "(byte list, nat) client_env" where
  "demo_program = \<lparr> env_mmap_ok = (\<lambda>n. n < 2 ^ 40), env_malloc_ok = (\<lambda>n. True), env_cam = demo_camera, env_tls = demo_api \<rparr>"

lemma demo_program_bounded: "mmap_bounded (env_mmap_ok demo_program)"
proof -
  have "unat n < 2 ^ 63" if "n < 2 ^ 40" for n :: u64
  proof -
    have "unat n < unat (2 ^ 40 :: u64)" using that by (simp add: word_less_nat_alt)
    then show ?thesis by simp
  qed
  then show ?thesis by (simp add: mmap_bounded_def demo_program_def)
qed

lemma demo_startup:
  "\<exists>ob. client_startup demo_program [''--host'', ''cam''] 5 = Some (Inr LogInfo, ob, 5)"
proof -
  have d: "device_number ''0'' = 0" by code_simp
  have q: "isValid (RingQueue_new (\<lambda>n. n < 2 ^ 40) (\<lambda>n. True) 128 MAX_FRAME_SIZE)"
    by (simp add: isValid_def RingQueue_new_def Let_def empty_queue_def MAX_FRAME_SIZE_def calcStride_def)
  show ?thesis
    using q cl_parse_host [of "''cam''"]
    by (simp add: client_startup_def Let_def demo_program_def default_client_config_def DEFAULT_QUEUE_SIZE_def
        camera_open_def open_device_def d demo_camera_def CameraCapture_new_def camera_config_of_def
        DEFAULT_DEVICE_def uint_of_double_def initialize_def createSslContext_def demo_api_def tls_config_of_def
        TlsClient_new_def default_TlsConfig_def DEFAULT_PORT_def camera_start_def initial_logger_def)
qed

theorem client_startup_correct_witness:
  "\<exists>ob cfg q c t. client_startup demo_program [''--host'', ''cam''] 5 = Some (Inr LogInfo, ob, 5)
     \<and> ob = \<lparr>ob_queue = Some q, ob_capture = Some c, ob_tls = Some t\<rparr> \<and> client_ready cfg q c t"
proof -
  obtain ob where o: "client_startup demo_program [''--host'', ''cam''] 5 = Some (Inr LogInfo, ob, 5)"
    using demo_startup by blast
  from client_startup_correct [OF o demo_program_bounded] show ?thesis using o by auto
qed

end
