(* ===== verification/Streamer.thy ===== *)
theory Streamer
  imports Client_Main
begin

text \<open>
  The running client of \<open>src/main.cpp\<close>: the main thread from the creation of the threads to the
  end, the capture thread and the network thread, interleaved in every possible way. A step is
  an access to what the threads share, the queue under its mutex or the running flag, with the
  thread's own computation around it, which is that of the component theories. The invariant,
  which every step keeps, says that the network thread holds at most one packet, what the present
  connection and the past ones have carried, that the captured frames are numbered without gaps,
  and where the threads can be.
\<close>

section \<open>State\<close>

text \<open>Where each thread is; the packets and arguments are the locals of the loop bodies.\<close>

datatype main_pc = CreateCapture | CreateNetwork | Streaming | ShutQueue exit_status
  | JoinCapture exit_status | JoinNetwork | Exited exit_status

datatype capture_pc = CapNotStarted | CapLoop | CapPush push_args | CapDone

datatype network_pc = NetNotStarted | NetLoop | NetPop | NetTaken FramePacket | NetHeader FramePacket
  | NetPayload FramePacket | NetAbort FramePacket | NetFree FramePacket | NetDone

text \<open>
  The queue comes with its ghost history: the frames offered and delivered and the packets that
  are out. \<open>sy_running\<close> is the flag \<open>g_running\<close>.
\<close>

record client_sys =
  sy_run :: rq_run
  sy_camera :: camera_capture
  sy_tls :: tls_client
  sy_running :: bool
  sy_main :: main_pc
  sy_capture :: capture_pc
  sy_network :: network_pc

abbreviation sy_queue :: "client_sys \<Rightarrow> ring_queue" where
  "sy_queue s \<equiv> rr_queue (sy_run s)"

definition start_sys :: "ring_queue \<Rightarrow> camera_capture \<Rightarrow> tls_client \<Rightarrow> client_sys" where
  "start_sys q c t =
     \<lparr> sy_run = \<lparr>rr_queue = q, rr_offered = [], rr_delivered = [], rr_live = []\<rparr>, sy_camera = c, sy_tls = t,
       sy_running = True, sy_main = CreateCapture, sy_capture = CapNotStarted, sy_network = NetNotStarted \<rparr>"

text \<open>The program with any command line that starts it.\<close>

definition sy_init :: "('m, 'w) client_env \<Rightarrow> client_sys \<Rightarrow> bool" where
  "sy_init env s \<longleftrightarrow>
     (\<exists>args w level ob w' q c t. client_startup env args w = Some (Inr level, ob, w')
        \<and> ob = \<lparr>ob_queue = Some q, ob_capture = Some c, ob_tls = Some t\<rparr> \<and> s = start_sys q c t)"

section \<open>Steps\<close>

definition run_push :: "push_args \<Rightarrow> ring_queue \<Rightarrow> rq_run \<Rightarrow> rq_run" where
  "run_push a q' r = r\<lparr>rr_queue := q', rr_offered := rr_offered r @ [args_frame a]\<rparr>"

definition run_pop :: "FramePacket \<Rightarrow> ring_queue \<Rightarrow> rq_run \<Rightarrow> rq_run" where
  "run_pop pkt q' r = r\<lparr>rr_queue := q', rr_delivered := rr_delivered r @ [packet_frame q' pkt],
                        rr_live := rr_live r @ [(pkt, packet_frame q' pkt)]\<rparr>"

definition run_free :: "FramePacket \<Rightarrow> rq_run \<Rightarrow> rq_run" where
  "run_free pkt r = r\<lparr>rr_queue := frame_packet_free (Some pkt) (rr_queue r),
                      rr_live := remove1 (pkt, packet_frame (rr_queue r) pkt) (rr_live r)\<rparr>"

definition run_shutdown :: "rq_run \<Rightarrow> rq_run" where
  "run_shutdown r = r\<lparr>rr_queue := rq_shutdown (rr_queue r)\<rparr>"

definition packet_header :: "byte_order \<Rightarrow> FramePacket \<Rightarrow> byte list" where
  "packet_header bo pkt =
     header_bytes bo (initFrameHeader bo (pkt_seq pkt) (pkt_timestamp_ns pkt) (pkt_len pkt)
       (pkt_pixel_format pkt) (pkt_width pkt) (pkt_height pkt))"

definition count_sent :: "FramePacket \<Rightarrow> tls_client \<Rightarrow> tls_client" where
  "count_sent pkt t = t\<lparr>tc_frames_sent := tc_frames_sent t + 1,
     tc_bytes_sent := tc_bytes_sent t + (of_nat FRAME_HEADER_SIZE + ucast (pkt_len pkt))\<rparr>"

text \<open>The handler of \<open>SIGINT\<close> and \<open>SIGTERM\<close>.\<close>

definition signalHandler :: "client_sys \<Rightarrow> client_sys" where
  "signalHandler s = s\<lparr>sy_running := False\<rparr>"

text \<open>
  The main thread, from the creation of the capture thread on. The periodic log of the queue's
  counters changes no state.
\<close>

inductive main_step :: "client_sys \<Rightarrow> client_sys \<Rightarrow> bool" where
  create_capture: "sy_main s = CreateCapture \<Longrightarrow>
    main_step s (s\<lparr>sy_capture := CapLoop, sy_main := CreateNetwork\<rparr>)"
| create_capture_fails: "sy_main s = CreateCapture \<Longrightarrow>
    main_step s (s\<lparr>sy_main := Exited EXIT_FAILURE\<rparr>)"
| create_network: "sy_main s = CreateNetwork \<Longrightarrow>
    main_step s (s\<lparr>sy_network := NetLoop, sy_main := Streaming\<rparr>)"
| create_network_fails: "sy_main s = CreateNetwork \<Longrightarrow>
    main_step s (s\<lparr>sy_running := False, sy_main := ShutQueue EXIT_FAILURE\<rparr>)"
| leave_loop: "sy_main s = Streaming \<Longrightarrow> \<not> sy_running s \<Longrightarrow>
    main_step s (s\<lparr>sy_main := ShutQueue EXIT_SUCCESS\<rparr>)"
| shut_queue: "sy_main s = ShutQueue status \<Longrightarrow>
    main_step s (s\<lparr>sy_run := run_shutdown (sy_run s), sy_main := JoinCapture status\<rparr>)"
| join_capture: "sy_main s = JoinCapture status \<Longrightarrow> sy_capture s = CapDone \<Longrightarrow>
    main_step s (s\<lparr>sy_main := (if status = EXIT_SUCCESS then JoinNetwork else Exited status)\<rparr>)"
| join_network: "sy_main s = JoinNetwork \<Longrightarrow> sy_network s = NetDone \<Longrightarrow>
    main_step s (s\<lparr>sy_main := Exited EXIT_SUCCESS\<rparr>)"
| signal: "main_step s (signalHandler s)"

text \<open>The capture thread.\<close>

inductive capture_step :: "('m, 'w) cam_api \<Rightarrow> client_sys \<Rightarrow> client_sys \<Rightarrow> bool"
  for cam :: "('m, 'w) cam_api" where
  capture_skips: "sy_capture s = CapLoop \<Longrightarrow> sy_running s \<Longrightarrow> streaming (sy_camera s) \<Longrightarrow>
    capture_grab cam (sy_camera s) w = (None, c, w') \<Longrightarrow> capture_step cam s (s\<lparr>sy_camera := c\<rparr>)"
| capture_grabs: "sy_capture s = CapLoop \<Longrightarrow> sy_running s \<Longrightarrow> streaming (sy_camera s) \<Longrightarrow>
    capture_grab cam (sy_camera s) w = (Some a, c, w') \<Longrightarrow>
    capture_step cam s (s\<lparr>sy_camera := c, sy_capture := CapPush a\<rparr>)"
| capture_pushes: "sy_capture s = CapPush a \<Longrightarrow> push_call a (sy_queue s) = Some (ok, q') \<Longrightarrow>
    capture_step cam s (s\<lparr>sy_run := run_push a q' (sy_run s), sy_capture := CapLoop\<rparr>)"
| capture_ends: "sy_capture s = CapLoop \<Longrightarrow> \<not> (sy_running s \<and> streaming (sy_camera s)) \<Longrightarrow>
    capture_step cam s (s\<lparr>sy_capture := CapDone\<rparr>)"

text \<open>
  The network thread. A \<open>pop\<close> that waits gives the mutex up meanwhile, so what the other threads
  do then is a step of theirs before it; when the wait times out \<open>pop\<close> gives up even if a frame has
  been pushed in between. The packet is allocated after the mutex is released, so other threads
  may see the slot taken before it turns out that there is no memory and the slot is released.
\<close>

inductive network_step :: "'w tls_api \<Rightarrow> byte_order \<Rightarrow> client_sys \<Rightarrow> client_sys \<Rightarrow> bool"
  for api :: "'w tls_api" and bo :: byte_order where
  network_connects: "sy_network s = NetLoop \<Longrightarrow> sy_running s \<Longrightarrow>
    ensure_connected api (sy_tls s) w = Some (go, t, w') \<Longrightarrow>
    network_step api bo s (s\<lparr>sy_tls := t, sy_network := (if go then NetPop else NetLoop)\<rparr>)"
| network_pops: "sy_network s = NetPop \<Longrightarrow> env_idle (renv :: 'w rq_env) \<Longrightarrow>
    pop renv QUEUE_TIMEOUT_MS w (sy_queue s) = Some (Some pkt, q', w') \<Longrightarrow>
    network_step api bo s (s\<lparr>sy_run := run_pop pkt q' (sy_run s), sy_network := NetTaken pkt\<rparr>)"
| network_allocates: "sy_network s = NetTaken pkt \<Longrightarrow>
    network_step api bo s (s\<lparr>sy_network := NetHeader pkt\<rparr>)"
| network_no_memory: "sy_network s = NetTaken pkt \<Longrightarrow>
    network_step api bo s (s\<lparr>sy_run := run_free pkt (sy_run s), sy_network := NetLoop\<rparr>)"
| network_times_out: "sy_network s = NetPop \<Longrightarrow>
    network_step api bo s (s\<lparr>sy_network := NetLoop\<rparr>)"
| network_pops_none: "sy_network s = NetPop \<Longrightarrow> env_idle (renv :: 'w rq_env) \<Longrightarrow>
    pop renv QUEUE_TIMEOUT_MS w (sy_queue s) = Some (None, q', w') \<Longrightarrow>
    network_step api bo s (s\<lparr>sy_run := (sy_run s)\<lparr>rr_queue := q'\<rparr>, sy_network := NetLoop\<rparr>)"
| network_header: "sy_network s = NetHeader pkt \<Longrightarrow>
    sslWriteAll api (packet_header bo pkt) FRAME_HEADER_SIZE (sy_tls s) w = Some (ok, t, w') \<Longrightarrow>
    network_step api bo s (s\<lparr>sy_tls := t, sy_network := (if ok then NetPayload pkt else NetAbort pkt)\<rparr>)"
| network_payload: "sy_network s = NetPayload pkt \<Longrightarrow>
    sslWriteAll api (mem_read (rq_mem (sy_queue s)) (pkt_data pkt) (unat (pkt_len pkt))) (unat (pkt_len pkt))
      (sy_tls s) w = Some (ok, t, w') \<Longrightarrow>
    network_step api bo s (if ok then s\<lparr>sy_tls := count_sent pkt t, sy_network := NetFree pkt\<rparr>
                           else s\<lparr>sy_tls := t, sy_network := NetAbort pkt\<rparr>)"
| network_aborts: "sy_network s = NetAbort pkt \<Longrightarrow>
    network_step api bo s (s\<lparr>sy_run := run_free pkt (sy_run s), sy_tls := tlsDisconnect (sy_tls s),
      sy_network := NetLoop\<rparr>)"
| network_frees: "sy_network s = NetFree pkt \<Longrightarrow>
    network_step api bo s (s\<lparr>sy_run := run_free pkt (sy_run s), sy_network := NetLoop\<rparr>)"
| network_ends: "sy_network s = NetLoop \<Longrightarrow> \<not> sy_running s \<Longrightarrow>
    network_step api bo s (s\<lparr>sy_tls := tlsDisconnect (sy_tls s), sy_network := NetDone\<rparr>)"

definition sy_step :: "('m, 'w) client_env \<Rightarrow> byte_order \<Rightarrow> client_sys \<Rightarrow> client_sys \<Rightarrow> bool" where
  "sy_step env bo s s' \<longleftrightarrow>
     main_step s s' \<or> capture_step (env_cam env) s s' \<or> network_step (env_tls env) bo s s'"

text \<open>What \<open>main\<close> deletes after it has joined both threads.\<close>

definition client_delete :: "('m, 'w) client_env \<Rightarrow> client_sys \<Rightarrow> 'w \<Rightarrow> tls_client \<times> camera_capture \<times> ring_queue \<times> 'w" where
  "client_delete env s w =
     (case CameraCapture_delete (env_cam env) (sy_camera s) w of (c, w) \<Rightarrow>
        (TlsClient_delete (sy_tls s), c, RingQueue_delete (sy_queue s), w))"

section \<open>The queue\<close>

definition held_packets :: "network_pc \<Rightarrow> FramePacket list" where
  "held_packets pc = (case pc of NetTaken p \<Rightarrow> [p] | NetHeader p \<Rightarrow> [p] | NetPayload p \<Rightarrow> [p] | NetAbort p \<Rightarrow> [p] | NetFree p \<Rightarrow> [p] | _ \<Rightarrow> [])"

text \<open>The network thread holds at most one packet, the one in its hands.\<close>

definition sy_queue_ok :: "client_sys \<Rightarrow> bool" where
  "sy_queue_ok s \<longleftrightarrow> rr_inv (sy_run s) \<and> max_frame_size (sy_queue s) = 4194304
     \<and> map fst (rr_live (sy_run s)) = held_packets (sy_network s)"

lemma queue_ok_held:
  assumes "sy_queue_ok s" and "p \<in> set (held_packets (sy_network s))"
  shows "packet_live (sy_queue s) p" and "(p, packet_frame (sy_queue s) p) \<in> set (rr_live (sy_run s))"
    and "rq_inv (sy_queue s)" and "\<not> mutex_locked (sy_queue s)"
proof -
  have "p \<in> set (map fst (rr_live (sy_run s)))" using assms by (simp only: sy_queue_ok_def)
  then obtain f where f: "(p, f) \<in> set (rr_live (sy_run s))" by auto
  have inv: "rr_inv (sy_run s)" using assms(1) by (simp add: sy_queue_ok_def)
  from rr_inv_live [OF inv f] f show "packet_live (sy_queue s) p"
    "(p, packet_frame (sy_queue s) p) \<in> set (rr_live (sy_run s))" by auto
  show "rq_inv (sy_queue s)" "\<not> mutex_locked (sy_queue s)" using inv by (simp_all add: rr_inv_def)
qed

lemma run_push_ok:
  assumes "rr_inv r" and "pa_data a = Some bs" and "unat (pa_len a) \<le> length bs"
    and "push_call a (rr_queue r) = Some (ok, q')"
  shows "rr_inv (run_push a q' r)" and "producer_step (rr_queue r) q'"
    and "max_frame_size q' = max_frame_size (rr_queue r)"
proof -
  note p = push_call_frame [OF assms(2,3)]
  have len: "length (fr_payload (args_frame a)) < 2 ^ 32" using p(2) unsigned_less [of "pa_len a", where 'a = nat] by simp
  have f: "push_frame (args_frame a) (rr_queue r) = Some (ok, q')" using p(1) assms(4) by simp
  show "rr_inv (run_push a q' r)" using rr_inv_push [OF assms(1) len f] by (simp add: run_push_def)
  show "producer_step (rr_queue r) q'" by (rule producer_step_push [OF len f])
  show "max_frame_size q' = max_frame_size (rr_queue r)"
    using push_frame_limit [OF _ _ len f] assms(1) by (simp add: rr_inv_def)
qed

lemma run_shutdown_ok:
  assumes "rr_inv r"
  shows "rr_inv (run_shutdown r)" and "producer_step (rr_queue r) (rq_shutdown (rr_queue r))"
    and "max_frame_size (rq_shutdown (rr_queue r)) = max_frame_size (rr_queue r)"
  using rq_shutdown_inv [OF assms] producer_step_shutdown
  by (simp_all add: run_shutdown_def)

lemma run_free_ok:
  assumes "sy_queue_ok s" and "held_packets (sy_network s) = [p]"
  shows "rr_inv (run_free p (sy_run s))" and "rr_live (run_free p (sy_run s)) = []"
    and "max_frame_size (rr_queue (run_free p (sy_run s))) = 4194304"
proof -
  have p: "p \<in> set (held_packets (sy_network s))" using assms(2) by simp
  note h = queue_ok_held [OF assms(1) p]
  show "rr_inv (run_free p (sy_run s))"
    using rr_inv_free [OF _ h(2)] assms(1) by (simp add: run_free_def sy_queue_ok_def)
  have "map fst (rr_live (sy_run s)) = [p]" using assms by (simp add: sy_queue_ok_def)
  then show "rr_live (run_free p (sy_run s)) = []" using h(2) by (auto simp: run_free_def)
  show "max_frame_size (rr_queue (run_free p (sy_run s))) = 4194304"
    using free_packet(4) [OF h(3,1)] assms(1) by (simp add: run_free_def sy_queue_ok_def)
qed

lemma pop_idle_limit:
  fixes renv :: "'w rq_env"
  assumes "pop renv t w q = Some (r, q', w')" and "env_idle renv" and "\<not> mutex_locked q"
  shows "max_frame_size q' = max_frame_size q"
  using pop_idle_cases [OF assms] by (auto simp: mutex_lock_def dest: pop_finish_limit)

lemma run_pop_ok:
  fixes renv :: "'w rq_env"
  assumes "rr_inv r" and "env_idle renv" and "pop renv t w (rr_queue r) = Some (Some p, q', w')"
  shows "rr_inv (run_pop p q' r)" and "max_frame_size q' = max_frame_size (rr_queue r)"
    and "rr_live (run_pop p q' r) = rr_live r @ [(p, packet_frame q' p)]"
  using rr_inv_pop [OF assms] pop_idle_limit [OF assms(3,2)] assms(1)
  by (simp_all add: run_pop_def rr_inv_def)

section \<open>The connection\<close>

definition sy_flight :: "client_sys \<Rightarrow> frame list" where
  "sy_flight s = (case sy_network s of NetTaken p \<Rightarrow> [packet_frame (sy_queue s) p] | NetHeader p \<Rightarrow> [packet_frame (sy_queue s) p]
     | NetPayload p \<Rightarrow> [packet_frame (sy_queue s) p] | _ \<Rightarrow> [])"

text \<open>The present session carries whole frames and the bytes \<open>rest\<close> of one on its way.\<close>

definition partial_account :: "byte list \<Rightarrow> tls_client \<Rightarrow> frame list list \<Rightarrow> frame list \<Rightarrow> bool" where
  "partial_account rest t past cur \<longleftrightarrow>
     (\<exists>sess. tc_ssl t = Some sess \<and> ssl_out sess = stream cur @ rest
        \<and> tc_account (t\<lparr>tc_ssl := Some (sess\<lparr>ssl_out := stream cur\<rparr>)\<rparr>) past cur)"

definition net_account :: "byte_order \<Rightarrow> client_sys \<Rightarrow> frame list list \<Rightarrow> frame list \<Rightarrow> bool" where
  "net_account bo s past cur \<longleftrightarrow>
     (case sy_network s of
        NetPayload p \<Rightarrow> partial_account (packet_header bo p) (sy_tls s) past cur
      | NetAbort p \<Rightarrow> (\<exists>rest. strict_prefix rest (frame_wire (packet_frame (sy_queue s) p))
          \<and> partial_account rest (sy_tls s) past cur)
      | _ \<Rightarrow> tc_account (sy_tls s) past cur)"

definition in_session :: "network_pc \<Rightarrow> bool" where
  "in_session pc \<longleftrightarrow> pc = NetPop \<or> held_packets pc \<noteq> []"

definition wire_frames_ok :: "frame list \<Rightarrow> bool" where
  "wire_frames_ok fs \<longleftrightarrow> list_all (\<lambda>f. length (fr_payload f) \<le> 4194304) fs"

definition sy_wire_ok :: "byte_order \<Rightarrow> client_sys \<Rightarrow> bool" where
  "sy_wire_ok bo s \<longleftrightarrow> tc_inv (sy_tls s) \<and> (in_session (sy_network s) \<longrightarrow> tc_ssl (sy_tls s) \<noteq> None)
     \<and> (\<exists>past cur. net_account bo s past cur \<and> wire_frames_ok (concat past @ cur)
          \<and> subseq (concat past @ cur @ sy_flight s) (rr_delivered (sy_run s)))"

lemma wire_okI:
  assumes "tc_inv (sy_tls s)" and "in_session (sy_network s) \<Longrightarrow> tc_ssl (sy_tls s) \<noteq> None"
    and "net_account bo s past cur" and "wire_frames_ok (concat past @ cur)"
    and "subseq (concat past @ cur @ sy_flight s) (rr_delivered (sy_run s))"
  shows "sy_wire_ok bo s"
  using assms unfolding sy_wire_ok_def by blast

text \<open>What the other threads do to the queue leaves the connection's account alone.\<close>

lemma wire_ok_producer:
  assumes "sy_queue_ok s" and "sy_wire_ok bo s" and "producer_step (sy_queue s) (sy_queue s')"
    and "sy_tls s' = sy_tls s" and "sy_network s' = sy_network s"
    and "rr_delivered (sy_run s') = rr_delivered (sy_run s)"
  shows "sy_wire_ok bo s'"
proof -
  have "packet_frame (sy_queue s') p = packet_frame (sy_queue s) p" if "p \<in> set (held_packets (sy_network s))" for p
    using queue_ok_held [OF assms(1) that] assms(3) by (simp add: producer_step_def)
  then have "sy_flight s' = sy_flight s" "net_account bo s' = net_account bo s"
    using assms(4,5) by (auto simp: sy_flight_def net_account_def held_packets_def fun_eq_iff split: network_pc.splits)
  then show ?thesis using assms(2,4-6) by (simp add: sy_wire_ok_def)
qed

section \<open>Frame numbers\<close>

definition pending_frames :: "capture_pc \<Rightarrow> frame list" where
  "pending_frames pc = (case pc of CapPush a \<Rightarrow> [args_frame a] | _ \<Rightarrow> [])"

text \<open>The frames offered so far, with the one about to be, are numbered from 0 in one format.\<close>

definition sy_camera_ok :: "client_sys \<Rightarrow> bool" where
  "sy_camera_ok s \<longleftrightarrow>
     (let fs = rr_offered (sy_run s) @ pending_frames (sy_capture s)
      in numbered_frames 0 (pixelFormat (sy_camera s)) fs \<and> frameCount (sy_camera s) = of_nat (length fs))
   \<and> (\<forall>a. sy_capture s = CapPush a \<longrightarrow> (\<exists>bs. pa_data a = Some bs \<and> unat (pa_len a) \<le> length bs))"

lemma numbered_frames_snoc:
  "numbered_frames n fmt (fs @ [f]) \<longleftrightarrow>
   numbered_frames n fmt fs \<and> fr_seq f = n + of_nat (length fs) \<and> fr_pixel_format f = fmt"
  by (auto simp: numbered_frames_def)

section \<open>Where the threads can be\<close>

definition sy_control_ok :: "client_sys \<Rightarrow> bool" where
  "sy_control_ok s \<longleftrightarrow>
     (case sy_main s of
        CreateCapture \<Rightarrow> sy_capture s = CapNotStarted \<and> sy_network s = NetNotStarted
      | CreateNetwork \<Rightarrow> sy_network s = NetNotStarted
      | Streaming \<Rightarrow> sy_network s \<noteq> NetNotStarted
      | ShutQueue status \<Rightarrow> (status = EXIT_SUCCESS \<longleftrightarrow> sy_network s \<noteq> NetNotStarted)
      | JoinCapture status \<Rightarrow> (status = EXIT_SUCCESS \<longleftrightarrow> sy_network s \<noteq> NetNotStarted)
      | JoinNetwork \<Rightarrow> sy_capture s = CapDone \<and> sy_network s \<noteq> NetNotStarted
      | Exited status \<Rightarrow>
          (if status = EXIT_SUCCESS then sy_capture s = CapDone \<and> sy_network s = NetDone
           else sy_capture s \<in> {CapNotStarted, CapDone} \<and> sy_network s = NetNotStarted))
   \<and> (sy_network s = NetDone \<longrightarrow> tc_ssl (sy_tls s) = None \<and> tc_state (sy_tls s) = Disconnected)"

definition sy_inv :: "byte_order \<Rightarrow> client_sys \<Rightarrow> bool" where
  "sy_inv bo s \<longleftrightarrow> sy_queue_ok s \<and> sy_wire_ok bo s \<and> sy_camera_ok s \<and> sy_control_ok s"

section \<open>Every step keeps the invariant\<close>

lemma same_queue_wire:
  assumes "sy_run s' = sy_run s" and "sy_tls s' = sy_tls s"
    and "sy_network s' = sy_network s \<or> (sy_network s = NetNotStarted \<and> sy_network s' = NetLoop)"
  shows "sy_queue_ok s \<Longrightarrow> sy_queue_ok s'" and "sy_wire_ok bo s \<Longrightarrow> sy_wire_ok bo s'"
proof -
  have "held_packets (sy_network s') = held_packets (sy_network s)" "sy_flight s' = sy_flight s"
    and "in_session (sy_network s') = in_session (sy_network s)"
    using assms(1,3) by (auto simp: held_packets_def sy_flight_def in_session_def split: network_pc.splits)
  moreover have "net_account bo s' past cur = net_account bo s past cur" for past cur
    using assms by (auto simp: net_account_def split: network_pc.splits)
  ultimately show "sy_queue_ok s \<Longrightarrow> sy_queue_ok s'" and "sy_wire_ok bo s \<Longrightarrow> sy_wire_ok bo s'"
    using assms(1,2) by (simp_all add: sy_queue_ok_def sy_wire_ok_def)
qed

lemma same_camera:
  assumes "sy_run s' = sy_run s" and "sy_camera s' = sy_camera s"
    and "sy_capture s' = sy_capture s \<or> pending_frames (sy_capture s) = [] \<and> sy_capture s' \<in> {CapLoop, CapDone}"
  shows "sy_camera_ok s \<Longrightarrow> sy_camera_ok s'"
  using assms by (auto simp: sy_camera_ok_def pending_frames_def)

lemma sy_inv_main:
  assumes inv: "sy_inv bo s" and step: "main_step s s'"
  shows "sy_inv bo s'"
proof -
  have parts: "sy_queue_ok s" "sy_wire_ok bo s" "sy_camera_ok s" "sy_control_ok s" using inv by (simp_all add: sy_inv_def)
  have rr: "rr_inv (sy_run s)" using parts(1) by (simp add: sy_queue_ok_def)
  have control: "sy_control_ok s'"
    using step parts(4)
    by (cases rule: main_step.cases) (auto simp: sy_control_ok_def signalHandler_def split: main_pc.splits if_splits)
  show ?thesis
  proof (cases "sy_run s' = sy_run s")
    case True
    have "sy_tls s' = sy_tls s \<and> sy_camera s' = sy_camera s
      \<and> (sy_network s' = sy_network s \<or> (sy_network s = NetNotStarted \<and> sy_network s' = NetLoop))
      \<and> (sy_capture s' = sy_capture s \<or> pending_frames (sy_capture s) = [] \<and> sy_capture s' \<in> {CapLoop, CapDone})"
      using step parts(4) by (cases rule: main_step.cases) (simp_all add: sy_control_ok_def pending_frames_def signalHandler_def)
    with True show ?thesis
      using same_queue_wire [OF True] same_camera [OF True] parts control by (simp add: sy_inv_def)
  next
    case False
    obtain status where s': "s' = s\<lparr>sy_run := run_shutdown (sy_run s), sy_main := JoinCapture status\<rparr>"
      using step False by (cases rule: main_step.cases) (auto simp: signalHandler_def)
    note r = run_shutdown_ok [OF rr]
    have "sy_wire_ok bo s'"
      by (rule wire_ok_producer [OF parts(1,2)]) (use r in \<open>simp_all add: s' run_shutdown_def\<close>)
    moreover have "sy_queue_ok s'" using parts(1) r by (simp add: s' sy_queue_ok_def) (simp add: run_shutdown_def)
    moreover have "sy_camera_ok s'" using parts(3) by (simp add: s' sy_camera_ok_def run_shutdown_def)
    ultimately show ?thesis using control by (simp add: sy_inv_def)
  qed
qed

lemma sy_inv_capture:
  assumes inv: "sy_inv bo s" and step: "capture_step cam s s'" and mats: "mats_ok cam"
  shows "sy_inv bo s'"
proof -
  have parts: "sy_queue_ok s" "sy_wire_ok bo s" "sy_camera_ok s" "sy_control_ok s" using inv by (simp_all add: sy_inv_def)
  have same: "sy_inv bo s'" if "sy_run s' = sy_run s" "sy_tls s' = sy_tls s" "sy_network s' = sy_network s"
    "sy_camera_ok s'" "sy_control_ok s'"
    using parts that same_queue_wire [of s' s] by (simp add: sy_inv_def)
  have control: "sy_control_ok s'" if "sy_main s' = sy_main s" "sy_tls s' = sy_tls s" "sy_network s' = sy_network s"
    "sy_capture s \<notin> {CapNotStarted, CapDone}"
    using parts(4) that by (auto simp: sy_control_ok_def split: main_pc.splits if_splits)
  show ?thesis
    using step
  proof cases
    case (capture_skips w c w')
    have "c = sy_camera s" using capture_grab_result [OF mats capture_skips(5)] by simp
    then have "s' = s" using capture_skips(1) by simp
    then show ?thesis using inv by simp
  next
    case (capture_grabs w a c w')
    note g = capture_grab_result [OF mats capture_grabs(5)]
    have "sy_camera_ok s'"
      using g parts(3) capture_grabs(1,2)
      by (auto simp: sy_camera_ok_def Let_def pending_frames_def numbered_frames_snoc args_frame_def)
    then show ?thesis using capture_grabs by (intro same control) simp_all
  next
    case (capture_pushes a ok q')
    obtain bs where a: "pa_data a = Some bs" "unat (pa_len a) \<le> length bs"
      using parts(3) capture_pushes(2) by (auto simp: sy_camera_ok_def)
    have rr: "rr_inv (sy_run s)" using parts(1) by (simp add: sy_queue_ok_def)
    note r = run_push_ok [OF rr a capture_pushes(3)]
    have "sy_wire_ok bo s'"
      by (rule wire_ok_producer [OF parts(1,2)]) (use r in \<open>simp_all add: capture_pushes(1) run_push_def\<close>)
    moreover have "sy_queue_ok s'" using parts(1) r by (simp add: capture_pushes(1) sy_queue_ok_def run_push_def)
    moreover have "sy_camera_ok s'"
      using parts(3) capture_pushes(2) by (simp add: capture_pushes(1) sy_camera_ok_def pending_frames_def run_push_def)
    moreover have "sy_control_ok s'" using capture_pushes by (intro control) simp_all
    ultimately show ?thesis by (simp add: sy_inv_def)
  next
    case capture_ends
    have "sy_camera_ok s'" using parts(3) capture_ends by (simp add: sy_camera_ok_def pending_frames_def)
    then show ?thesis using capture_ends by (intro same control) simp_all
  qed
qed

subsection \<open>Steps of the network thread\<close>

lemma network_control:
  assumes "sy_control_ok s" and "sy_main s' = sy_main s" and "sy_capture s' = sy_capture s"
    and "sy_network s \<notin> {NetNotStarted, NetDone}" and "sy_network s' \<noteq> NetNotStarted"
    and "sy_network s' = NetDone \<Longrightarrow> tc_ssl (sy_tls s') = None \<and> tc_state (sy_tls s') = Disconnected"
  shows "sy_control_ok s'"
  using assms by (auto simp: sy_control_ok_def split: main_pc.splits if_splits)

lemma network_camera:
  assumes "sy_camera_ok s" and "rr_offered (sy_run s') = rr_offered (sy_run s)"
    and "sy_camera s' = sy_camera s" and "sy_capture s' = sy_capture s"
  shows "sy_camera_ok s'"
  using assms by (simp add: sy_camera_ok_def)

lemma partial_account_write:
  assumes "tc_account t past cur" and "tc_ssl t = Some sess"
  shows "partial_account rest (t\<lparr>tc_ssl := Some (sess\<lparr>ssl_out := ssl_out sess @ rest\<rparr>)\<rparr>) past cur"
proof -
  have out: "ssl_out sess = stream cur" using assms by (simp add: tc_account_def)
  then have "t\<lparr>tc_ssl := Some (sess\<lparr>ssl_out := stream cur\<rparr>)\<rparr> = t" using assms(2) by simp
  then show ?thesis using assms(1) out by (simp add: partial_account_def)
qed

lemma partial_account_more:
  assumes "partial_account rest t past cur" and "tc_ssl t = Some sess"
  shows "partial_account (rest @ bs) (t\<lparr>tc_ssl := Some (sess\<lparr>ssl_out := ssl_out sess @ bs\<rparr>)\<rparr>) past cur"
  using assms by (simp add: partial_account_def)

text \<open>A packet in hand: its header and payload make up the wire form of the frame it shows.\<close>

lemma packet_in_hand:
  assumes "sy_queue_ok s" and "p \<in> set (held_packets (sy_network s))"
  shows "frame_wire (packet_frame (sy_queue s) p) = packet_header bo p @ fr_payload (packet_frame (sy_queue s) p)"
    and "length (packet_header bo p) = 36"
    and "length (fr_payload (packet_frame (sy_queue s) p)) = unat (pkt_len p)"
    and "unat (pkt_len p) \<le> 4194304"
    and "mem_read (rq_mem (sy_queue s)) (pkt_data p) (unat (pkt_len p)) = fr_payload (packet_frame (sy_queue s) p)"
proof -
  note h = queue_ok_held [OF assms]
  show "frame_wire (packet_frame (sy_queue s) p) = packet_header bo p @ fr_payload (packet_frame (sy_queue s) p)"
    unfolding packet_header_def by (rule packet_wire [OF h(3,1)])
  show "length (packet_header bo p) = 36" by (simp add: packet_header_def header_bytes_init)
  show "length (fr_payload (packet_frame (sy_queue s) p)) = unat (pkt_len p)"
    by (rule packet_payload_length [OF h(3,1)])
  show "unat (pkt_len p) \<le> 4194304"
    using h(1) assms(1) by (simp add: packet_live_def sy_queue_ok_def)
  show "mem_read (rq_mem (sy_queue s)) (pkt_data p) (unat (pkt_len p)) = fr_payload (packet_frame (sy_queue s) p)"
    by (simp add: packet_frame_def)
qed

lemma wire_connects:
  assumes "sy_wire_ok bo s" and "sy_network s = NetLoop" and "socket_fresh api"
    and "ensure_connected api (sy_tls s) w = Some (go, t, w')"
    and s': "s' = s\<lparr>sy_tls := t, sy_network := (if go then NetPop else NetLoop)\<rparr>"
  shows "sy_wire_ok bo s'"
proof -
  obtain past cur where a: "tc_inv (sy_tls s)" "tc_account (sy_tls s) past cur" "wire_frames_ok (concat past @ cur)"
    "subseq (concat past @ cur) (rr_delivered (sy_run s))"
    using assms(1,2) by (auto simp: sy_wire_ok_def net_account_def sy_flight_def)
  obtain n where t: "tc_inv t" "tc_account t (past @ replicate n []) cur" "go \<longleftrightarrow> tc_ssl t \<noteq> None"
    by (rule ensure_connected_result [OF assms(3) a(1,2) assms(4)])
  have "net_account bo s' (past @ replicate n []) cur" "sy_flight s' = []"
    using t(2) by (simp_all add: s' net_account_def sy_flight_def)
  moreover have "concat (past @ replicate n []) @ cur = concat past @ cur" by simp
  moreover have "in_session (sy_network s') \<longrightarrow> tc_ssl (sy_tls s') \<noteq> None"
    using t(3) by (simp add: s' in_session_def held_packets_def)
  ultimately show ?thesis using t(1) a(3,4) unfolding sy_wire_ok_def
    by (intro conjI exI [of _ "past @ replicate n []"] exI [of _ cur]) (simp_all add: s')
qed

lemma wire_header:
  assumes q: "sy_queue_ok s" and "sy_wire_ok bo s" and n: "sy_network s = NetHeader p" and "ssl_write_bounded api"
    and "sslWriteAll api (packet_header bo p) FRAME_HEADER_SIZE (sy_tls s) w = Some (ok, t, w')"
    and s': "s' = s\<lparr>sy_tls := t, sy_network := (if ok then NetPayload p else NetAbort p)\<rparr>"
  shows "sy_wire_ok bo s'"
proof -
  let ?f = "packet_frame (sy_queue s) p"
  have hand: "p \<in> set (held_packets (sy_network s))" using n by (simp add: held_packets_def)
  note p = packet_in_hand [OF q hand]
  obtain past cur where a: "tc_inv (sy_tls s)" "tc_account (sy_tls s) past cur" "wire_frames_ok (concat past @ cur)"
    "subseq (concat past @ cur @ [?f]) (rr_delivered (sy_run s))"
    using assms(2) n by (auto simp: sy_wire_ok_def net_account_def sy_flight_def)
  obtain sess where sess: "tc_ssl (sy_tls s) = Some sess"
    using assms(2) n by (auto simp: sy_wire_ok_def in_session_def held_packets_def)
  obtain k where k: "k \<le> 36" "ok \<longleftrightarrow> k = 36"
    and t: "t = (sy_tls s)\<lparr>tc_ssl := Some (sess\<lparr>ssl_out := ssl_out sess @ take k (packet_header bo p)\<rparr>)\<rparr>"
    using sslWriteAll_result [OF assms(4) sess _ assms(5), unfolded FRAME_HEADER_SIZE_eq] by auto
  note part = partial_account_write [OF a(2) sess, of "take k (packet_header bo p)", folded t]
  have acc: "net_account bo s' past cur"
  proof (cases ok)
    case True
    then show ?thesis using part k p(2) by (simp add: s' net_account_def)
  next
    case False
    then have "strict_prefix (take k (packet_header bo p)) (frame_wire ?f)"
      using k p(2) strict_prefix_take [of k "frame_wire ?f"] by (simp add: p(1) [of bo])
    then show ?thesis using False part by (auto simp: s' net_account_def)
  qed
  have "subseq ((concat past @ cur) @ [?f]) (rr_delivered (sy_run s))" using a(4) by simp
  then have "subseq (concat past @ cur @ sy_flight s') (rr_delivered (sy_run s))"
    using subseq_without_last [of "concat past @ cur" "[?f]"] by (simp add: s' sy_flight_def)
  moreover have "tc_inv t" "tc_ssl t \<noteq> None" using a(1) sess by (simp_all add: t tc_inv_out)
  ultimately show ?thesis using acc a(3) by (intro wire_okI [of _ _ past cur]) (simp_all add: s')
qed

lemma wire_payload:
  assumes q: "sy_queue_ok s" and "sy_wire_ok bo s" and n: "sy_network s = NetPayload p" and "ssl_write_bounded api"
    and "sslWriteAll api (mem_read (rq_mem (sy_queue s)) (pkt_data p) (unat (pkt_len p))) (unat (pkt_len p))
      (sy_tls s) w = Some (ok, t, w')"
    and s': "s' = (if ok then s\<lparr>sy_tls := count_sent p t, sy_network := NetFree p\<rparr>
                   else s\<lparr>sy_tls := t, sy_network := NetAbort p\<rparr>)"
  shows "sy_wire_ok bo s'"
proof -
  let ?f = "packet_frame (sy_queue s) p" and ?hdr = "packet_header bo p"
  have hand: "p \<in> set (held_packets (sy_network s))" using n by (simp add: held_packets_def)
  note p = packet_in_hand [OF q hand]
  obtain past cur where a: "tc_inv (sy_tls s)" "partial_account ?hdr (sy_tls s) past cur" "wire_frames_ok (concat past @ cur)"
    "subseq (concat past @ cur @ [?f]) (rr_delivered (sy_run s))"
    using assms(2) n by (auto simp: sy_wire_ok_def net_account_def sy_flight_def)
  obtain sess where sess: "tc_ssl (sy_tls s) = Some sess" "ssl_out sess = stream cur @ ?hdr"
    and base: "tc_account ((sy_tls s)\<lparr>tc_ssl := Some (sess\<lparr>ssl_out := stream cur\<rparr>)\<rparr>) past cur"
    using a(2) by (auto simp: partial_account_def)
  let ?t0 = "(sy_tls s)\<lparr>tc_ssl := Some (sess\<lparr>ssl_out := stream cur\<rparr>)\<rparr>"
  have "unat (pkt_len p) < 2 ^ 64" using unsigned_less [of "pkt_len p", where 'a = nat] by simp
  from sslWriteAll_result [OF assms(4) sess(1) this assms(5)] obtain k where
    k: "k \<le> unat (pkt_len p)" "ok \<longleftrightarrow> k = unat (pkt_len p)"
    and t: "t = (sy_tls s)\<lparr>tc_ssl := Some (sess\<lparr>ssl_out := ssl_out sess @ take k (fr_payload ?f)\<rparr>)\<rparr>"
    unfolding p(5) by blast
  have sub: "subseq ((concat past @ cur) @ [?f]) (rr_delivered (sy_run s))" using a(4) by simp
  show ?thesis
  proof (cases ok)
    case True
    have "t = ?t0\<lparr>tc_ssl := Some (sess\<lparr>ssl_out := stream cur @ frame_wire ?f\<rparr>)\<rparr>"
      using True k p(3) by (simp add: t sess(2) p(1) [of bo])
    moreover have "(of_nat FRAME_HEADER_SIZE + ucast (pkt_len p) :: u64) = of_nat (length (frame_wire ?f))"
      using p(2,3) by (simp add: p(1) [of bo] of_nat_unat)
    ultimately have c: "count_sent p t = ?t0\<lparr>tc_ssl := Some (sess\<lparr>ssl_out := stream cur @ frame_wire ?f\<rparr>),
        tc_frames_sent := tc_frames_sent ?t0 + 1,
        tc_bytes_sent := tc_bytes_sent ?t0 + of_nat (length (frame_wire ?f))\<rparr>"
      by (simp add: count_sent_def)
    have "tc_inv ?t0" using a(1) sess(1) by (simp add: tc_inv_out)
    from send_completes [OF this base, of "sess\<lparr>ssl_out := stream cur\<rparr>" ?f]
    have "tc_inv (count_sent p t)" "tc_account (count_sent p t) past (cur @ [?f])"
      unfolding c by (simp_all add: sent_result_def)
    moreover have "tc_ssl (count_sent p t) \<noteq> None" unfolding c by simp
    moreover have "wire_frames_ok (concat past @ cur @ [?f])" using a(3) p(3,4) by (simp add: wire_frames_ok_def)
    ultimately show ?thesis
      using True sub unfolding sy_wire_ok_def
      by (intro conjI exI [of _ past] exI [of _ "cur @ [?f]"]) (simp_all add: s' net_account_def sy_flight_def)
  next
    case False
    have "strict_prefix (?hdr @ take k (fr_payload ?f)) (frame_wire ?f)"
      using False k p(3) strict_prefix_take [of k "fr_payload ?f"] by (simp add: p(1) [of bo] strict_prefix_append_same)
    moreover have "partial_account (?hdr @ take k (fr_payload ?f)) t past cur"
      unfolding t by (rule partial_account_more [OF a(2) sess(1)])
    ultimately have "net_account bo s' past cur" using False by (auto simp: s' net_account_def)
    moreover have "tc_inv t" "tc_ssl t \<noteq> None" using a(1) sess by (simp_all add: t tc_inv_out)
    ultimately show ?thesis
      using False a(3) subseq_without_last [OF sub] unfolding sy_wire_ok_def
      by (intro conjI exI [of _ past] exI [of _ cur]) (simp_all add: s' sy_flight_def)
  qed
qed

lemma wire_aborts:
  assumes q: "sy_queue_ok s" and "sy_wire_ok bo s" and n: "sy_network s = NetAbort p"
    and s': "s' = s\<lparr>sy_run := run_free p (sy_run s), sy_tls := tlsDisconnect (sy_tls s), sy_network := NetLoop\<rparr>"
  shows "sy_wire_ok bo s'"
proof -
  let ?f = "packet_frame (sy_queue s) p"
  have hand: "p \<in> set (held_packets (sy_network s))" using n by (simp add: held_packets_def)
  note p = packet_in_hand [OF q hand]
  obtain past cur rest where a: "tc_inv (sy_tls s)" "strict_prefix rest (frame_wire ?f)" "partial_account rest (sy_tls s) past cur"
    "wire_frames_ok (concat past @ cur)" "subseq (concat past @ cur) (rr_delivered (sy_run s))"
    using assms(2) n by (auto simp: sy_wire_ok_def net_account_def sy_flight_def)
  obtain sess where sess: "tc_ssl (sy_tls s) = Some sess" "ssl_out sess = stream cur @ rest"
    and base: "tc_account ((sy_tls s)\<lparr>tc_ssl := Some (sess\<lparr>ssl_out := stream cur\<rparr>)\<rparr>) past cur"
    using a(3) by (auto simp: partial_account_def)
  let ?t0 = "(sy_tls s)\<lparr>tc_ssl := Some (sess\<lparr>ssl_out := stream cur\<rparr>)\<rparr>"
  have t: "?t0\<lparr>tc_ssl := Some (sess\<lparr>ssl_out := stream cur @ rest\<rparr>)\<rparr> = sy_tls s"
    using sess by (metis (no_types, lifting) tls_client.surjective tls_client.update_convs(3) ssl_obj.surjective ssl_obj.update_convs(7))
  have "length (fr_payload ?f) < 2 ^ 32" using p(3,4) by simp
  moreover have "tc_inv ?t0" using a(1) sess(1) by (simp add: tc_inv_out)
  ultimately have "sent_result (tlsDisconnect (sy_tls s)) past cur ?f"
    using send_fails [OF _ base, of "sess\<lparr>ssl_out := stream cur\<rparr>" rest ?f] a(2) t by simp
  then have "tc_account (tlsDisconnect (sy_tls s)) (past @ [cur]) []" "tc_inv (tlsDisconnect (sy_tls s))"
    using tlsDisconnect_inv(2) [OF a(1)] by (simp_all add: sent_result_def)
  then show ?thesis
    using a(4,5) unfolding sy_wire_ok_def
    by (intro conjI exI [of _ "past @ [cur]"] exI [of _ "[]"])
      (simp_all add: s' net_account_def sy_flight_def in_session_def held_packets_def run_free_def)
qed

lemma wire_ends:
  assumes "sy_wire_ok bo s" and n: "sy_network s = NetLoop"
    and s': "s' = s\<lparr>sy_tls := tlsDisconnect (sy_tls s), sy_network := NetDone\<rparr>"
  shows "sy_wire_ok bo s'"
proof -
  obtain past cur where a: "tc_inv (sy_tls s)" "tc_account (sy_tls s) past cur" "wire_frames_ok (concat past @ cur)"
    "subseq (concat past @ cur) (rr_delivered (sy_run s))"
    using assms(1) n by (auto simp: sy_wire_ok_def net_account_def sy_flight_def)
  obtain past' where p: "tc_account (tlsDisconnect (sy_tls s)) past' []" "concat past' = concat past @ cur"
    using tlsDisconnect_accounted [OF a(2)] by blast
  have "wire_frames_ok (concat past')" "subseq (concat past') (rr_delivered (sy_run s))"
    using a(3,4) p(2) by simp_all
  then show ?thesis
    using tlsDisconnect_inv(1) [OF a(1)] p(1) unfolding sy_wire_ok_def
    by (intro conjI exI [of _ past'] exI [of _ "[]"])
      (simp_all add: s' net_account_def sy_flight_def in_session_def held_packets_def)
qed

text \<open>Steps that change the queue's history but not what the connection carries.\<close>

lemma wire_delivers:
  assumes "sy_wire_ok bo s" and "sy_network s \<in> {NetPop, NetTaken p, NetFree p}"
    and "sy_tls s' = sy_tls s"
    and "sy_flight s = [] \<and> rr_delivered (sy_run s') = rr_delivered (sy_run s) @ sy_flight s'
      \<or> rr_delivered (sy_run s') = rr_delivered (sy_run s) \<and> sy_flight s' \<in> {[], sy_flight s}"
    and "sy_network s' = NetLoop \<or> (\<exists>pkt. sy_network s' = NetTaken pkt \<or> sy_network s' = NetHeader pkt)"
  shows "sy_wire_ok bo s'"
proof -
  obtain past cur where a: "tc_inv (sy_tls s)" "tc_ssl (sy_tls s) \<noteq> None" "tc_account (sy_tls s) past cur"
    "wire_frames_ok (concat past @ cur)" "subseq ((concat past @ cur) @ sy_flight s) (rr_delivered (sy_run s))"
    using assms(1,2) by (auto simp: sy_wire_ok_def net_account_def in_session_def held_packets_def)
  have "subseq ((concat past @ cur) @ sy_flight s') (rr_delivered (sy_run s'))"
    using assms(4) a(5) subseq_append_right [OF a(5)] subseq_without_last [OF a(5)] by auto
  moreover have "net_account bo s' past cur" using a(3) assms(3,5) by (auto simp: net_account_def)
  ultimately show ?thesis using a assms(3) by (intro wire_okI [of _ _ past cur]) simp_all
qed

lemma sy_inv_network:
  assumes inv: "sy_inv bo s" and step: "network_step api bo s s'"
    and api: "ssl_write_bounded api" "socket_fresh api"
  shows "sy_inv bo s'"
proof -
  have parts: "sy_queue_ok s" "sy_wire_ok bo s" "sy_camera_ok s" "sy_control_ok s" using inv by (simp_all add: sy_inv_def)
  have q: "rr_inv (sy_run s)" "max_frame_size (sy_queue s) = 4194304"
    "map fst (rr_live (sy_run s)) = held_packets (sy_network s)" "\<not> mutex_locked (sy_queue s)"
    using parts(1) by (simp_all add: sy_queue_ok_def rr_inv_def)
  have same: "sy_camera_ok s'"
    using step by (cases rule: network_step.cases)
      (use parts(3) in \<open>auto intro: network_camera simp: run_pop_def run_free_def\<close>)
  have control: "sy_control_ok s'"
  proof (rule network_control [OF parts(4)])
    show "tc_ssl (sy_tls s') = None \<and> tc_state (sy_tls s') = Disconnected" if "sy_network s' = NetDone"
      using step that parts(2) tlsDisconnect_inv [of "sy_tls s"]
      by (cases rule: network_step.cases) (auto simp: sy_wire_ok_def split: if_splits)
  qed (use step in \<open>cases rule: network_step.cases; auto\<close>)+
  have "sy_queue_ok s' \<and> sy_wire_ok bo s'"
    using step
  proof cases
    case (network_connects w go t w')
    then have "sy_queue_ok s'" using parts(1) by (simp add: sy_queue_ok_def held_packets_def)
    then show ?thesis using wire_connects [OF parts(2) network_connects(2) api(2) network_connects(4,1)] by simp
  next
    case (network_pops renv w pkt q' w')
    note r = run_pop_ok [OF q(1) network_pops(3,4)]
    have "sy_queue_ok s'" using q r network_pops(1,2) by (simp add: sy_queue_ok_def held_packets_def) (simp add: run_pop_def)
    moreover have "sy_wire_ok bo s'"
      by (rule wire_delivers [OF parts(2)]) (use network_pops(1,2) in \<open>simp_all add: sy_flight_def run_pop_def\<close>)
    ultimately show ?thesis by simp
  next
    case (network_allocates pkt)
    then have "sy_queue_ok s'" using parts(1) by (simp add: sy_queue_ok_def held_packets_def)
    moreover have "sy_wire_ok bo s'"
      by (rule wire_delivers [OF parts(2)]) (use network_allocates in \<open>simp_all add: sy_flight_def\<close>)
    ultimately show ?thesis by simp
  next
    case (network_no_memory pkt)
    then have "held_packets (sy_network s) = [pkt]" by (simp add: held_packets_def)
    from run_free_ok [OF parts(1) this] have "sy_queue_ok s'"
      by (simp add: network_no_memory(1) sy_queue_ok_def held_packets_def)
    moreover have "sy_wire_ok bo s'"
      by (rule wire_delivers [OF parts(2)]) (use network_no_memory in \<open>simp_all add: sy_flight_def run_free_def\<close>)
    ultimately show ?thesis by simp
  next
    case network_times_out
    then have "sy_queue_ok s'" using parts(1) by (simp add: sy_queue_ok_def held_packets_def)
    moreover have "sy_wire_ok bo s'"
      by (rule wire_delivers [OF parts(2)]) (use network_times_out in \<open>simp_all add: sy_flight_def\<close>)
    ultimately show ?thesis by simp
  next
    case (network_pops_none renv w q' w')
    have "sy_queue_ok s'"
      using rr_inv_pop_none [OF q(1) network_pops_none(3,4)] pop_idle_limit [OF network_pops_none(4,3) q(4)] q(2,3) network_pops_none(1,2)
      by (simp add: sy_queue_ok_def held_packets_def)
    moreover have "sy_wire_ok bo s'"
      by (rule wire_delivers [OF parts(2)]) (use network_pops_none(1,2) in \<open>simp_all add: sy_flight_def\<close>)
    ultimately show ?thesis by simp
  next
    case (network_header pkt w ok t w')
    then have "sy_queue_ok s'" using parts(1) by (simp add: sy_queue_ok_def held_packets_def)
    then show ?thesis using wire_header [OF parts(1,2) network_header(2) api(1) network_header(3,1)] by simp
  next
    case (network_payload pkt w ok t w')
    then have "sy_queue_ok s'" using parts(1) by (simp add: sy_queue_ok_def held_packets_def)
    then show ?thesis using wire_payload [OF parts(1,2) network_payload(2) api(1) network_payload(3,1)] by simp
  next
    case (network_aborts pkt)
    then have "held_packets (sy_network s) = [pkt]" by (simp add: held_packets_def)
    from run_free_ok [OF parts(1) this] have "sy_queue_ok s'"
      by (simp add: network_aborts(1) sy_queue_ok_def held_packets_def)
    then show ?thesis using wire_aborts [OF parts(1,2) network_aborts(2,1)] by simp
  next
    case (network_frees pkt)
    then have "held_packets (sy_network s) = [pkt]" by (simp add: held_packets_def)
    from run_free_ok [OF parts(1) this] have "sy_queue_ok s'"
      by (simp add: network_frees(1) sy_queue_ok_def held_packets_def)
    moreover have "sy_wire_ok bo s'"
      by (rule wire_delivers [OF parts(2)]) (use network_frees(1,2) in \<open>simp_all add: sy_flight_def run_free_def\<close>)
    ultimately show ?thesis by simp
  next
    case network_ends
    then have "sy_queue_ok s'" using parts(1) by (simp add: sy_queue_ok_def held_packets_def)
    then show ?thesis using wire_ends [OF parts(2) network_ends(2,1)] by simp
  qed
  then show ?thesis using same control by (simp add: sy_inv_def)
qed

text \<open>A thread that has ended takes no further step; \<open>main\<close> relies on it after joining.\<close>

inductive_simps capture_step_iff: "capture_step cam s s'"

inductive_simps network_step_iff: "network_step api bo s s'"

lemma ended_threads_stay:
  "sy_capture s \<in> {CapNotStarted, CapDone} \<Longrightarrow> \<not> capture_step cam s s'"
  "sy_network s \<in> {NetNotStarted, NetDone} \<Longrightarrow> \<not> network_step api bo s s'"
  by (auto simp: capture_step_iff network_step_iff)

end
