(* ===== verification/Ring_Queue_Counters.thy ===== *)
theory Ring_Queue_Counters
  imports Ring_Queue_Runs
begin

text \<open>
  The counters of \<open>src/ring_queue.cpp\<close> that the client reports as its statistics: as long as the
  queue is open and the frames offered to it are of an acceptable size, each of them is counted
  exactly once, as popped or as dropped, or is still queued.
\<close>

section \<open>One operation\<close>

text \<open>Popped, dropped and still queued.\<close>

definition rq_counted :: "ring_queue \<Rightarrow> u64" where
  "rq_counted q = frames_popped q + frames_dropped q + of_nat (rq_count q)"

lemma push_frame_counted:
  assumes "rq_inv q" and "frame_ok q f" and "\<not> shutdown_flag q" and "push_frame f q = Some (ok, q')"
  shows "rq_counted q' = rq_counted q + 1 \<and> \<not> shutdown_flag q'"
proof (cases "slot_in_use q ! head q")
  case True
  then have "head q \<in> rq_held q" using assms(1) by (simp add: rq_held_eq rq_inv_def)
  then have "rq_count q \<noteq> capacity q" using full_none_held [OF assms(1)] by auto
  then have "rq_room q = q" using assms(1) by (auto simp: rq_room_def rq_inv_def)
  then show ?thesis
    using push_frame_eq [OF assms(1-3)] assms(3,4) True by (auto simp: push_reject_def rq_counted_def)
next
  case False
  note a = push_accept [OF assms(1,2) False]
  let ?q = "mutex_unlock (cond_notify (push_commit
      (push_write (header_of_frame f) (fr_payload f) (mutex_lock (rq_room q)))))"
  have q': "q' = ?q" using push_frame_eq [OF assms(1-3)] assms(4) False by simp
  have "rq_count ?q = length (aq_push (capacity q) f (rq_frames q))" using arg_cong [OF a(2), of length] by simp
  then have "of_nat (rq_count ?q) + rq_evictions q = (of_nat (rq_count q) + 1 :: u64)"
    using assms(1) by (auto simp: aq_push_def rq_evictions_def rq_inv_def rq_geometry_def)
  then show ?thesis
    using a(5,6) assms(3) unfolding q' rq_counted_def by (simp add: algebra_simps)
qed

lemma pop_finish_counted:
  assumes "pop_finish env w q = (r, q', w')"
  shows "rq_counted q' = rq_counted q \<and> shutdown_flag q' = shutdown_flag q"
proof (cases "rq_count q")
  case 0
  then show ?thesis using assms by (auto simp: pop_finish_def rq_counted_def)
next
  case (Suc n)
  then have "q' = mutex_unlock (rq_pop_state q) \<or> q' = releaseSlot (tail q) (mutex_unlock (rq_pop_state q))"
    using assms by (auto simp: pop_finish_def pop_take_eq Let_def split: prod.splits if_splits)
  then show ?thesis using Suc by (auto simp: rq_counted_def rq_pop_state_def releaseSlot_def)
qed

lemma pop_idle_counted:
  fixes env :: "'w rq_env"
  assumes "pop env timeout w q = Some (r, q', w')" and "env_idle env" and "\<not> mutex_locked q"
  shows "rq_counted q' = rq_counted q \<and> shutdown_flag q' = shutdown_flag q \<and> max_frame_size q' = max_frame_size q"
proof -
  have "rq_counted (mutex_lock q) = rq_counted q" by (simp add: rq_counted_def)
  then show ?thesis
    using pop_idle_cases [OF assms] by (auto dest: pop_finish_counted pop_finish_limit)
qed

lemma free_counted:
  "rq_counted (frame_packet_free pkt q) = rq_counted q" "shutdown_flag (frame_packet_free pkt q) = shutdown_flag q"
  "max_frame_size (frame_packet_free pkt q) = max_frame_size q"
  by (simp_all add: frame_packet_free_def FramePacket_delete_def rq_counted_def split: option.split)
    (simp_all add: releaseSlot_def)

section \<open>A run\<close>

text \<open>Every offered frame is counted, as long as \<open>push\<close> refuses none.\<close>

definition rr_counted :: "rq_run \<Rightarrow> bool" where
  "rr_counted r \<longleftrightarrow> (\<not> shutdown_flag (rr_queue r) \<longrightarrow> list_all (frame_ok (rr_queue r)) (rr_offered r) \<longrightarrow>
     rq_counted (rr_queue r) = of_nat (length (rr_offered r)))"

lemma rr_counted_push:
  assumes inv: "rr_inv r" and c: "rr_counted r" and len: "length (fr_payload f) < 2 ^ 32"
    and p: "push_frame f (rr_queue r) = Some (ok, q')"
  shows "rr_counted (r\<lparr>rr_queue := q', rr_offered := rr_offered r @ [f]\<rparr>)"
proof -
  let ?q = "rr_queue r"
  have q: "rq_inv ?q" "\<not> mutex_locked ?q" using inv by (simp_all add: rr_inv_def)
  have ok: "frame_ok q' = frame_ok ?q"
    using push_frame_limit [OF q len p] by (simp add: frame_ok_def fun_eq_iff)
  show ?thesis
  proof (cases "frame_ok ?q f \<and> \<not> shutdown_flag ?q")
    case True
    then show ?thesis using c push_frame_counted [OF q(1) _ _ p] ok by (simp add: rr_counted_def)
  next
    case False
    then have "q' = ?q" using push_frame_refused [OF False q(2) len] p by simp
    then show ?thesis using False by (auto simp: rr_counted_def)
  qed
qed

lemma rr_counted_same:
  assumes "rr_counted r" and "rr_offered r' = rr_offered r"
    and "rq_counted (rr_queue r') = rq_counted (rr_queue r) \<and> shutdown_flag (rr_queue r') = shutdown_flag (rr_queue r)
      \<and> max_frame_size (rr_queue r') = max_frame_size (rr_queue r)"
  shows "rr_counted r'"
proof -
  have "frame_ok (rr_queue r') = frame_ok (rr_queue r)" using assms(3) by (simp add: frame_ok_def fun_eq_iff)
  then show ?thesis using assms by (simp add: rr_counted_def)
qed

lemma rr_counted_shutdown: "rr_counted (r\<lparr>rr_queue := rq_shutdown (rr_queue r)\<rparr>)"
  by (simp add: rr_counted_def)

end
