(* ===== verification/Streamer_Runs.thy ===== *)
theory Streamer_Runs
  imports Streamer Ring_Queue_Counters
begin

text \<open>
  What holds in every state that the client of \<open>Streamer\<close> reaches: the connections carry a
  subsequence of the captured frames, and \<open>main\<close> deletes its objects only when no thread uses
  them. The turns of the thread loops of \<open>Tls_Client\<close> and \<open>Camera_Capture\<close> are sequences of
  steps.
\<close>

section \<open>Every reachable state\<close>

text \<open>
  What the program relies on: the bounds that the documentation of \<open>mmap\<close>, OpenCV, OpenSSL and
  the sockets API give on their results.
\<close>

definition client_env_ok :: "('m, 'w) client_env \<Rightarrow> bool" where
  "client_env_ok env \<longleftrightarrow> mmap_bounded (env_mmap_ok env) \<and> mats_ok (env_cam env)
     \<and> ssl_write_bounded (env_tls env) \<and> socket_fresh (env_tls env)"

lemma ready_start:
  assumes "client_ready cfg q c t"
  shows "sy_inv bo (start_sys q c t)"
proof -
  have q: "rq_inv q" "\<not> mutex_locked q" "rq_frames q = []" "rq_held q = {}" "max_frame_size q = 4194304"
    and c: "frameCount c = 0" using assms by (simp_all add: client_ready_def)
  obtain ctx where t: "t = (TlsClient_new (tls_config_of cfg c))\<lparr>tc_ssl_ctx := Some ctx\<rparr>"
    using assms by (auto simp: client_ready_def)
  have "sy_queue_ok (start_sys q c t)"
    using q by (simp add: sy_queue_ok_def start_sys_def rr_inv_def live_slots_def held_packets_def)
  moreover have "sy_wire_ok bo (start_sys q c t)"
    using tc_account_new [of "tls_config_of cfg c"] tc_inv_new [of "tls_config_of cfg c"]
    by (intro wire_okI [of _ _ "[]" "[]"])
      (simp_all add: t start_sys_def tc_inv_def tc_account_def net_account_def in_session_def held_packets_def
        sy_flight_def wire_frames_ok_def TlsClient_new_def)
  moreover have "sy_camera_ok (start_sys q c t)"
    using c by (simp add: sy_camera_ok_def start_sys_def pending_frames_def numbered_frames_def)
  moreover have "sy_control_ok (start_sys q c t)" by (simp add: sy_control_ok_def start_sys_def)
  ultimately show ?thesis by (simp add: sy_inv_def)
qed

lemma sy_inv_init:
  assumes "mmap_bounded (env_mmap_ok env)" and "sy_init env s"
  shows "sy_inv bo s"
proof -
  obtain args w level ob w' q c t where st: "client_startup env args w = Some (Inr level, ob, w')"
    and ob: "ob = \<lparr>ob_queue = Some q, ob_capture = Some c, ob_tls = Some t\<rparr>" and s: "s = start_sys q c t"
    using assms(2) unfolding sy_init_def by blast
  from client_startup_result [OF st assms(1)] ob obtain cfg where "client_ready cfg q c t" by auto
  then show ?thesis unfolding s by (rule ready_start)
qed

interpretation client_runs: invariant_system
  "\<lambda>s. client_env_ok env \<and> sy_init env s" "\<lambda>s s'. client_env_ok env \<and> sy_step env bo s s'" "sy_inv bo" for env bo
proof unfold_locales
  show "sy_inv bo s" if "client_env_ok env \<and> sy_init env s" for s
    using that sy_inv_init by (auto simp: client_env_ok_def)
  show "sy_inv bo s'" if "sy_inv bo s" "client_env_ok env \<and> sy_step env bo s s'" for s s'
    using that sy_inv_main sy_inv_capture sy_inv_network unfolding client_env_ok_def sy_step_def by blast
qed

lemma client_reachable:
  assumes "client_env_ok env" and "reach (sy_init env) (sy_step env bo) s"
  shows "sy_inv bo s"
  using client_runs.inv_reach [of env bo s] assms by simp

section \<open>What the connections carried\<close>

lemma net_account_past:
  "net_account bo s past cur \<Longrightarrow> list_all2 cut_stream past (os_streams (tc_os (sy_tls s)))"
  by (auto simp: net_account_def partial_account_def tc_account_def split: network_pc.splits)

lemma past_streams:
  assumes "list_all2 cut_stream past bss" and "wire_frames_ok (concat past)"
  shows "map parse_stream bss = past"
  using assms
proof (induction past bss rule: list_all2_induct)
  case (Cons fs past bs bss)
  have "list_all frame_fits fs"
    using Cons.prems by (auto simp: wire_frames_ok_def frame_fits_def payload_limit_def list_all_iff intro: le_trans)
  then show ?case using Cons parse_cut_stream by (simp add: wire_frames_ok_def)
qed simp

lemma subseq_elements: "subseq xs ys \<Longrightarrow> x \<in> set xs \<Longrightarrow> x \<in> set ys"
  by (induction rule: list_emb.induct) auto

lemma sorted_wrt_subseq: "subseq xs ys \<Longrightarrow> sorted_wrt P ys \<Longrightarrow> sorted_wrt P xs"
  by (induction rule: list_emb.induct) (auto dest: subseq_elements)

lemma numbered_sorted:
  assumes "numbered_frames 0 fmt fs" and "length fs \<le> 2 ^ 64" and "subseq gs fs"
  shows "sorted_wrt (<) (map fr_seq gs)"
proof -
  have "sorted_wrt (<) (map (of_nat :: nat \<Rightarrow> u64) [0..<length fs])"
    using assms(2) by (auto simp: sorted_wrt_iff_nth_less word_less_nat_alt unat_of_nat_small)
  then have "sorted_wrt (<) (map fr_seq fs)" using assms(1) by (simp add: numbered_frames_def)
  then show ?thesis using sorted_wrt_subseq [OF subseq_map [OF assms(3), of fr_seq]] by blast
qed

text \<open>The frames that the finished connections carried, as the reference decoder reads them.\<close>

definition wire_frames :: "client_sys \<Rightarrow> frame list" where
  "wire_frames s = concat (map parse_stream (os_streams (tc_os (sy_tls s))))"

lemma reachable_wire:
  assumes "sy_inv bo s"
  shows "subseq (wire_frames s) (rr_offered (sy_run s))" and "wire_frames_ok (wire_frames s)"
    and "numbered_frames 0 (pixelFormat (sy_camera s)) (rr_offered (sy_run s))"
    and "sy_network s = NetDone \<Longrightarrow> tc_frames_sent (sy_tls s) = of_nat (length (wire_frames s))"
    and "sy_network s = NetDone \<Longrightarrow> tc_bytes_sent (sy_tls s) = of_nat (length (stream (wire_frames s)))"
    and "frameCount (sy_camera s) = of_nat (length (rr_offered (sy_run s)) + length (pending_frames (sy_capture s)))"
proof -
  obtain past cur where a: "net_account bo s past cur" "wire_frames_ok (concat past @ cur)"
    "subseq (concat past @ cur @ sy_flight s) (rr_delivered (sy_run s))"
    using assms by (auto simp: sy_inv_def sy_wire_ok_def)
  have past: "wire_frames s = concat past"
    using past_streams [OF net_account_past [OF a(1)]] a(2) by (simp add: wire_frames_def wire_frames_ok_def)
  have "subseq (rr_delivered (sy_run s)) (rr_offered (sy_run s))"
    using assms subseq_without_last by (auto simp: sy_inv_def sy_queue_ok_def rr_inv_def)
  then show "subseq (wire_frames s) (rr_offered (sy_run s))"
    unfolding past using subseq_without_last [OF a(3)] by (rule subseq_order.trans [rotated])
  show "wire_frames_ok (wire_frames s)" using a(2) by (simp add: past wire_frames_ok_def)
  show "numbered_frames 0 (pixelFormat (sy_camera s)) (rr_offered (sy_run s))"
    using assms by (auto simp: sy_inv_def sy_camera_ok_def Let_def numbered_frames_def map_eq_append_conv
        pending_frames_def split: capture_pc.splits)
  show "frameCount (sy_camera s) = of_nat (length (rr_offered (sy_run s)) + length (pending_frames (sy_capture s)))"
    using assms by (simp add: sy_inv_def sy_camera_ok_def Let_def)
  assume ended: "sy_network s = NetDone"
  then have "tc_ssl (sy_tls s) = None" using assms by (simp add: sy_inv_def sy_control_ok_def)
  then show "tc_frames_sent (sy_tls s) = of_nat (length (wire_frames s))"
    "tc_bytes_sent (sy_tls s) = of_nat (length (stream (wire_frames s)))"
    using a(1) ended by (simp_all add: past net_account_def tc_account_def)
qed

lemma inv_sends:
  assumes "sy_inv bo s" and "length (rr_offered (sy_run s)) \<le> 2 ^ 64"
  shows "subseq (wire_frames s) (rr_offered (sy_run s))
    \<and> sorted_wrt (<) (map fr_seq (wire_frames s))
    \<and> list_all (\<lambda>f. length (fr_payload f) \<le> 4194304) (wire_frames s)"
proof -
  note r = reachable_wire [OF assms(1)]
  then show ?thesis using numbered_sorted [OF r(3) assms(2) r(1)] by (simp add: wire_frames_ok_def)
qed

text \<open>What is left when \<open>main\<close> comes to its end.\<close>

lemma exit_state:
  assumes "sy_inv bo s" and "sy_main s = Exited EXIT_SUCCESS"
  shows "sy_capture s = CapDone" and "sy_network s = NetDone" and "rr_live (sy_run s) = []"
    and "rq_held (sy_queue s) = {}" and "\<not> mutex_locked (sy_queue s)" and "tc_state (sy_tls s) = Disconnected"
    and "os_fds (tc_os (sy_tls s)) = []" and "os_ssl_live (tc_os (sy_tls s)) = 0"
proof -
  show c: "sy_capture s = CapDone" "sy_network s = NetDone" "tc_state (sy_tls s) = Disconnected"
    using assms by (simp_all add: sy_inv_def sy_control_ok_def)
  show live: "rr_live (sy_run s) = []"
    using assms(1) c(2) by (simp add: sy_inv_def sy_queue_ok_def held_packets_def)
  have "rr_inv (sy_run s)" using assms(1) by (simp add: sy_inv_def sy_queue_ok_def)
  then show "rq_held (sy_queue s) = {}" "\<not> mutex_locked (sy_queue s)"
    using live by (simp_all add: rr_inv_def live_slots_def)
  have "tc_ssl (sy_tls s) = None" using assms by (simp add: sy_inv_def sy_control_ok_def)
  then show "os_fds (tc_os (sy_tls s)) = []" "os_ssl_live (tc_os (sy_tls s)) = 0"
    using assms(1) by (simp_all add: sy_inv_def sy_wire_ok_def tc_inv_def)
qed

text \<open>
  C2. End to end through the client, in every interleaving of its threads and whatever the
  camera, the network and the signals do: the frames that the connections carried are a
  subsequence of the frames that the camera captured, none reordered, repeated, altered or made
  up; their sequence numbers increase, and no payload exceeds 4 MB.
\<close>

theorem client_sends_captured_frames:
  assumes "client_env_ok env" and "reach (sy_init env) (sy_step env bo) s"
    and "length (rr_offered (sy_run s)) \<le> 2 ^ 64"
  shows "subseq (wire_frames s) (rr_offered (sy_run s))
    \<and> sorted_wrt (<) (map fr_seq (wire_frames s))
    \<and> list_all (\<lambda>f. length (fr_payload f) \<le> 4194304) (wire_frames s)"
  by (rule inv_sends [OF client_reachable [OF assms(1,2)] assms(3)])

text \<open>
  C22. An orderly end: when \<open>main\<close> reaches the point where it deletes its objects after a run,
  both threads have ended, no packet is out and no slot is marked in use, the queue is unlocked,
  the client is disconnected with no descriptor and no SSL object open, and \<open>frames_sent\<close> is the number of whole frames the connections carried.
\<close>

theorem client_exit_clean:
  assumes "client_env_ok env" and "reach (sy_init env) (sy_step env bo) s" and "sy_main s = Exited EXIT_SUCCESS"
  shows "(\<forall>s'. \<not> capture_step (env_cam env) s s' \<and> \<not> network_step (env_tls env) bo s s')
    \<and> rr_live (sy_run s) = [] \<and> rq_held (sy_queue s) = {} \<and> \<not> mutex_locked (sy_queue s)
    \<and> tc_state (sy_tls s) = Disconnected \<and> os_fds (tc_os (sy_tls s)) = [] \<and> os_ssl_live (tc_os (sy_tls s)) = 0
    \<and> tc_frames_sent (sy_tls s) = of_nat (length (wire_frames s))"
proof -
  note inv = client_reachable [OF assms(1,2)]
  note e = exit_state [OF inv assms(3)]
  have "\<not> capture_step (env_cam env) s s' \<and> \<not> network_step (env_tls env) bo s s'" for s'
    using ended_threads_stay e(1,2) by blast
  then show ?thesis using e reachable_wire(4) [OF inv e(2)] by simp
qed

text \<open>Deleting the objects then unmaps the region, frees the context and releases the camera.\<close>

lemma client_delete_result:
  assumes "client_delete env s w = (t, c, q, w')"
  shows "tc_ssl t = None \<and> tc_ssl_ctx t = None \<and> \<not> streaming c \<and> \<not> isValid q"
proof -
  have "t = TlsClient_delete (sy_tls s)" "c = camera_stop (sy_camera s)" "q = RingQueue_delete (sy_queue s)"
    using assms by (auto simp: client_delete_def CameraCapture_delete_def)
  then show ?thesis
    by (simp add: TlsClient_delete_def tlsDisconnect_def camera_stop_def RingQueue_delete_def isValid_def Let_def
        split: option.split)
qed

section \<open>Turns as steps\<close>

text \<open>An environment in which the other threads do nothing to the queue.\<close>

definition alone :: "'w tls_api \<Rightarrow> bool" where
  "alone api \<longleftrightarrow> env_idle (queue_env api) \<and> (\<forall>w q. fst (other_threads api w q) = q)"

lemma alone_others: "alone api \<Longrightarrow> other_threads api w q = (q', w') \<Longrightarrow> q' = q"
  by (auto simp: alone_def dest!: spec [of _ w] spec [of _ q])

text \<open>Where the network thread is after it has sent a packet, or failed to.\<close>

lemma send_packet_steps:
  assumes "alone api" and "sy_network s = NetHeader pkt"
    and "send_packet api bo pkt (sy_tls s) (sy_queue s) w = Some (t', q', w')"
  shows "\<exists>s'. (network_step api bo)\<^sup>*\<^sup>* s s' \<and> sy_network s' = NetLoop \<and> sy_tls s' = t' \<and> sy_queue s' = q'
    \<and> sy_running s' = sy_running s"
proof -
  let ?data = "mem_read (rq_mem (sy_queue s)) (pkt_data pkt) (unat (pkt_len pkt))"
  obtain ok t w1 where h: "sslWriteAll api (packet_header bo pkt) FRAME_HEADER_SIZE (sy_tls s) w = Some (ok, t, w1)"
    using assms(3) by (auto simp: send_packet_def packet_header_def Let_def bind_eq_Some_conv)
  obtain w2 where o: "other_threads api w1 (sy_queue s) = (sy_queue s, w2)"
    using alone_others [OF assms(1)] by (metis surj_pair)
  let ?s1 = "s\<lparr>sy_tls := t, sy_network := (if ok then NetPayload pkt else NetAbort pkt)\<rparr>"
  have s1: "network_step api bo s ?s1" by (rule network_header [OF assms(2) h])
  have abort: "\<exists>s'. (network_step api bo)\<^sup>*\<^sup>* r s' \<and> sy_network s' = NetLoop \<and> sy_tls s' = tlsDisconnect (sy_tls r)
      \<and> sy_queue s' = frame_packet_free (Some pkt) (sy_queue r) \<and> sy_running s' = sy_running r"
    if "sy_network r = NetAbort pkt" for r
    using network_aborts [OF that, of api bo] by (intro exI conjI, rule r_into_rtranclp) (simp_all add: run_free_def)
  show ?thesis
  proof (cases ok)
    case False
    then have "t' = tlsDisconnect t" "q' = frame_packet_free (Some pkt) (sy_queue s)"
      using assms(3) h o by (auto simp: send_packet_def packet_header_def Let_def)
    then show ?thesis
      using abort [of ?s1] s1 False by (auto intro: converse_rtranclp_into_rtranclp)
  next
    case True
    then have p: "send_payload api pkt t (sy_queue s) w2 = Some (t', q', w')"
      using assms(3) h o by (simp add: send_packet_def packet_header_def Let_def)
    obtain ok2 t2 w3 where d: "sslWriteAll api ?data (unat (pkt_len pkt)) t w2 = Some (ok2, t2, w3)"
      using p by (auto simp: send_payload_def Let_def bind_eq_Some_conv)
    obtain w4 where o2: "other_threads api w3 (sy_queue s) = (sy_queue s, w4)"
      using alone_others [OF assms(1)] by (metis surj_pair)
    let ?s2 = "if ok2 then ?s1\<lparr>sy_tls := count_sent pkt t2, sy_network := NetFree pkt\<rparr>
               else ?s1\<lparr>sy_tls := t2, sy_network := NetAbort pkt\<rparr>"
    have s2: "network_step api bo ?s1 ?s2" by (rule network_payload) (use True d in simp_all)
    then have s02: "(network_step api bo)\<^sup>*\<^sup>* s ?s2" using s1 by (simp add: converse_rtranclp_into_rtranclp)
    show ?thesis
    proof (cases ok2)
      case False
      then have "t' = tlsDisconnect t2" "q' = frame_packet_free (Some pkt) (sy_queue s)"
        using p d o2 by (auto simp: send_payload_def Let_def)
      then show ?thesis
        using abort [of ?s2] s02 False True by (auto intro: rtranclp_trans)
    next
      case True
      then have "t' = count_sent pkt t2" "q' = frame_packet_free (Some pkt) (sy_queue s)"
        using p d o2 by (auto simp: send_payload_def count_sent_def Let_def)
      moreover have "network_step api bo ?s2 (?s2\<lparr>sy_run := run_free pkt (sy_run ?s2), sy_network := NetLoop\<rparr>)"
        (is "network_step _ _ _ ?s3") using True by (intro network_frees) simp
      then have "(network_step api bo)\<^sup>*\<^sup>* s ?s3" using s02 by (rule rtranclp.rtrancl_into_rtrancl [rotated])
      ultimately show ?thesis using True by (intro exI [of _ ?s3]) (simp add: run_free_def)
    qed
  qed
qed

text \<open>The part of the turn after the connection is there.\<close>

lemma packet_turn_steps:
  assumes "alone api" and "sy_network s = NetPop" and t: "sy_tls s = t"
    and p: "pop (queue_env api) QUEUE_TIMEOUT_MS w (sy_queue s) = Some (r, q, w1)"
    and rest: "(case r of None \<Rightarrow> Some (t, q, w1) | Some pkt \<Rightarrow> send_packet api bo pkt t q w1)
      = Some (t', q', w')"
  shows "\<exists>s'. (network_step api bo)\<^sup>*\<^sup>* s s' \<and> sy_network s' = NetLoop \<and> sy_tls s' = t' \<and> sy_queue s' = q'
    \<and> sy_running s' = sy_running s"
proof -
  have idle: "env_idle (queue_env api)" using assms(1) by (simp add: alone_def)
  show ?thesis
  proof (cases r)
    case None
    let ?s2 = "s\<lparr>sy_run := (sy_run s)\<lparr>rr_queue := q\<rparr>, sy_network := NetLoop\<rparr>"
    have "network_step api bo s ?s2" by (rule network_pops_none [OF assms(2) idle]) (use p None in simp)
    then have "(network_step api bo)\<^sup>*\<^sup>* s ?s2" by (rule r_into_rtranclp)
    then show ?thesis using rest None t by (intro exI [of _ ?s2]) simp
  next
    case (Some pkt)
    let ?s1 = "s\<lparr>sy_run := run_pop pkt q (sy_run s), sy_network := NetTaken pkt\<rparr>"
    let ?s2 = "s\<lparr>sy_run := run_pop pkt q (sy_run s), sy_network := NetHeader pkt\<rparr>"
    have "network_step api bo s ?s1" by (rule network_pops [OF assms(2) idle]) (use p Some in simp)
    moreover have "network_step api bo ?s1 ?s2" using network_allocates [of ?s1 pkt api bo] by simp
    ultimately have step: "(network_step api bo)\<^sup>*\<^sup>* s ?s2" by (simp add: converse_rtranclp_into_rtranclp)
    have "send_packet api bo pkt (sy_tls ?s2) (sy_queue ?s2) w1 = Some (t', q', w')"
      using rest Some t by (simp add: run_pop_def)
    from send_packet_steps [OF assms(1) _ this] obtain s' where
      "(network_step api bo)\<^sup>*\<^sup>* ?s2 s'" "sy_network s' = NetLoop" "sy_tls s' = t'" "sy_queue s' = q'"
      "sy_running s' = sy_running ?s2" by auto
    then show ?thesis using step by (intro exI [of _ s']) (auto intro: rtranclp_trans)
  qed
qed

text \<open>
  The step relation and the functions agree: a whole turn of \<open>networkLoop\<close> in which the other threads do
  nothing is a sequence of steps of the network thread that ends at the loop test with the same
  client and the same queue.
\<close>

lemma network_turn_is_steps:
  assumes "alone api" and "sy_network s = NetLoop" and "sy_running s"
    and "network_body api bo (sy_tls s) (sy_queue s) w = Some (t', q', w')"
  shows "\<exists>s'. (network_step api bo)\<^sup>*\<^sup>* s s' \<and> sy_network s' = NetLoop \<and> sy_tls s' = t' \<and> sy_queue s' = q'
    \<and> sy_running s'"
proof -
  obtain go t w1 where e: "ensure_connected api (sy_tls s) w = Some (go, t, w1)"
    using assms(4) by (auto simp: network_body_def bind_eq_Some_conv)
  obtain w2 where o: "other_threads api w1 (sy_queue s) = (sy_queue s, w2)"
    using alone_others [OF assms(1)] by (metis surj_pair)
  let ?s1 = "s\<lparr>sy_tls := t, sy_network := (if go then NetPop else NetLoop)\<rparr>"
  have s1: "network_step api bo s ?s1" by (rule network_connects [OF assms(2,3) e])
  show ?thesis
  proof (cases go)
    case False
    then have "t' = t" "q' = sy_queue s" using assms(4) e o by (auto simp: network_body_def)
    then show ?thesis using s1 False assms(3) by (intro exI [of _ ?s1]) auto
  next
    case True
    then obtain r q2 w3 where p: "pop (queue_env api) QUEUE_TIMEOUT_MS w2 (sy_queue s) = Some (r, q2, w3)"
      "(case r of None \<Rightarrow> Some (t, q2, w3) | Some pkt \<Rightarrow> send_packet api bo pkt t q2 w3) = Some (t', q', w')"
      using assms(4) e o by (auto simp: network_body_def bind_eq_Some_conv)
    from packet_turn_steps [OF assms(1), of ?s1 t, OF _ _ _ p(2)] p(1) True obtain s' where
      "(network_step api bo)\<^sup>*\<^sup>* ?s1 s'" "sy_network s' = NetLoop" "sy_tls s' = t'" "sy_queue s' = q'"
      "sy_running s' = sy_running ?s1" by auto
    then show ?thesis using s1 assms(3) by (intro exI [of _ s']) (auto intro: converse_rtranclp_into_rtranclp)
  qed
qed

text \<open>The same for a turn of the capture thread.\<close>

lemma capture_turn_is_steps:
  assumes "\<And>w q. fst (cam_others cam w q) = q" and "sy_capture s = CapLoop" and "sy_running s" and "streaming (sy_camera s)"
    and "capture_turn cam (sy_camera s) (sy_queue s) w = Some (c', q', w')"
  shows "\<exists>s'. (capture_step cam)\<^sup>*\<^sup>* s s' \<and> sy_capture s' = CapLoop \<and> sy_camera s' = c' \<and> sy_queue s' = q'"
proof -
  obtain r c1 w1 where g: "capture_grab cam (sy_camera s) w = (r, c1, w1)" by (cases "capture_grab cam (sy_camera s) w")
  obtain w2 where o: "cam_others cam w1 (sy_queue s) = (sy_queue s, w2)"
    using assms(1) [of w1 "sy_queue s"] by (metis prod.collapse)
  show ?thesis
  proof (cases r)
    case None
    have "capture_step cam s (s\<lparr>sy_camera := c1\<rparr>)"
      by (rule capture_skips [OF assms(2-4)]) (use g None in simp)
    then show ?thesis using assms(2,5) g o None by (intro exI [of _ "s\<lparr>sy_camera := c1\<rparr>"]) (auto simp: capture_turn_def)
  next
    case (Some a)
    let ?s1 = "s\<lparr>sy_camera := c1, sy_capture := CapPush a\<rparr>"
    have s1: "capture_step cam s ?s1" by (rule capture_grabs [OF assms(2-4)]) (use g Some in simp)
    obtain ok where p: "push_call a (sy_queue s) = Some (ok, q')" and "c' = c1"
      using assms(5) g o Some by (auto simp: capture_turn_def bind_eq_Some_conv)
    let ?s2 = "?s1\<lparr>sy_run := run_push a q' (sy_run ?s1), sy_capture := CapLoop\<rparr>"
    have "capture_step cam ?s1 ?s2" by (rule capture_pushes [of _ _ ok]) (use p in simp_all)
    then have "(capture_step cam)\<^sup>*\<^sup>* s ?s2" using s1 by (meson converse_rtranclp_into_rtranclp r_into_rtranclp)
    then show ?thesis using \<open>c' = c1\<close> by (intro exI [of _ ?s2]) (simp add: run_push_def)
  qed
qed

section \<open>A concrete run\<close>

lemma reach_main: "reach (sy_init env) (sy_step env bo) s \<Longrightarrow> main_step s s' \<Longrightarrow> reach (sy_init env) (sy_step env bo) s'"
  by (erule reach_step) (simp add: sy_step_def)

lemma reach_capture:
  "reach (sy_init env) (sy_step env bo) s \<Longrightarrow> capture_step (env_cam env) s s' \<Longrightarrow> reach (sy_init env) (sy_step env bo) s'"
  by (erule reach_step) (simp add: sy_step_def)

lemma reach_network:
  "reach (sy_init env) (sy_step env bo) s \<Longrightarrow> network_step (env_tls env) bo s s' \<Longrightarrow> reach (sy_init env) (sy_step env bo) s'"
  by (erule reach_step) (simp add: sy_step_def)

lemma demo_program_ok: "client_env_ok demo_program"
  using demo_program_bounded demo_camera_ok demo_api_bounds demo_api_fresh
  by (simp add: client_env_ok_def) (simp add: demo_program_def)

text \<open>The client starts; its camera has a frame.\<close>

lemma demo_start:
  obtains q c t a c' w' bs where "sy_init demo_program (start_sys q c t)"
    and "rq_inv q" "\<not> mutex_locked q" "streaming c" "\<not> shutdown_flag q" "max_frame_size q = 4194304"
    and "rq_frames q = []" "rq_held q = {}" and "\<exists>cfg ctx. t = (TlsClient_new cfg)\<lparr>tc_ssl_ctx := Some ctx\<rparr>"
    and "capture_grab demo_camera c 1 = (Some a, c', w')" "pa_data a = Some bs" "unat (pa_len a) \<le> length bs"
    and "0 < length (fr_payload (args_frame a))" "length (fr_payload (args_frame a)) \<le> 4"
proof -
  obtain ob where st: "client_startup demo_program [''--host'', ''cam''] 5 = Some (Inr LogInfo, ob, 5)"
    using demo_startup by blast
  from client_startup_result [OF st demo_program_bounded] obtain cfg q c t where
    ob: "ob = \<lparr>ob_queue = Some q, ob_capture = Some c, ob_tls = Some t\<rparr>" and ready: "client_ready cfg q c t" by auto
  have i: "sy_init demo_program (start_sys q c t)" using st ob unfolding sy_init_def by blast
  obtain a c' w' where g: "capture_grab demo_camera c 1 = (Some a, c', w')" and l: "pa_len a = 3 \<or> pa_len a = 4"
    by (cases "cam_use_jpeg (cc_config c)") (simp_all add: capture_grab_def demo_camera_def encodeJpeg_def Let_def)
  obtain bs where a: "pa_data a = Some bs" "unat (pa_len a) \<le> length bs"
    using capture_grab_result [OF demo_camera_ok(1) g] by auto
  have "0 < length (fr_payload (args_frame a))" "length (fr_payload (args_frame a)) \<le> 4"
    using push_call_frame(2) [OF a] l by auto
  moreover have "\<exists>cfg ctx. t = (TlsClient_new cfg)\<lparr>tc_ssl_ctx := Some ctx\<rparr>"
    using ready by (auto simp: client_ready_def)
  ultimately show thesis using that [OF i _ _ _ _ _ _ _ _ g a] ready by (simp add: client_ready_def)
qed

text \<open>It captures a frame.\<close>

lemma demo_streaming:
  "\<exists>s f ctx. reach (sy_init demo_program) (sy_step demo_program bo) s \<and> sy_main s = Streaming \<and> sy_capture s = CapLoop
     \<and> sy_network s = NetLoop \<and> sy_running s \<and> rr_offered (sy_run s) = [f] \<and> rq_frames (sy_queue s) = [f]
     \<and> \<not> shutdown_flag (sy_queue s) \<and> 0 < length (fr_payload f) \<and> length (fr_payload f) \<le> 4
     \<and> tc_ssl_ctx (sy_tls s) = Some ctx \<and> tc_state (sy_tls s) \<noteq> Connected \<and> os_fds (tc_os (sy_tls s)) = []
     \<and> os_streams (tc_os (sy_tls s)) = [] \<and> tc_frames_sent (sy_tls s) = 0"
proof -
  let ?R = "reach (sy_init demo_program) (sy_step demo_program bo)"
  obtain q c t a c' w' bs ctx cfg where i: "sy_init demo_program (start_sys q c t)"
    and q: "rq_inv q" "\<not> mutex_locked q" "streaming c" "\<not> shutdown_flag q" "max_frame_size q = 4194304"
      "rq_frames q = []" "rq_held q = {}"
    and g: "capture_grab demo_camera c 1 = (Some a, c', w')" and a: "pa_data a = Some bs" "unat (pa_len a) \<le> length bs"
    and len: "0 < length (fr_payload (args_frame a))" "length (fr_payload (args_frame a)) \<le> 4"
    and t: "t = (TlsClient_new cfg)\<lparr>tc_ssl_ctx := Some ctx\<rparr>"
    using demo_start by metis
  let ?s0 = "start_sys q c t"
  have "?R ?s0" using i by (rule reach_init)
  then have r1: "?R (?s0\<lparr>sy_capture := CapLoop, sy_main := CreateNetwork\<rparr>)" (is "reach _ _ ?s1")
    by (rule reach_main) (rule create_capture; simp add: start_sys_def)
  have r2: "?R (?s1\<lparr>sy_camera := c', sy_capture := CapPush a\<rparr>)" (is "reach _ _ ?s2")
    by (rule reach_capture [OF r1], rule capture_grabs [of _ _ 1 _ _ w'])
      (use g q(3) in \<open>simp_all add: start_sys_def demo_program_def\<close>)
  have f: "frame_ok q (args_frame a)" using q(5) len by (simp add: frame_ok_def)
  from push_frame_result [OF q(1) f q(4)] obtain ok q' where p: "push_call a q = Some (ok, q')" "ok"
    and q': "rq_frames q' = [args_frame a]"
    using push_call_frame(1) [OF a] q(6,7) length_rq_frames [of q] by (auto simp: aq_push_def)
  have open': "\<not> shutdown_flag q'"
    using push_frame_counted [OF q(1) f q(4)] p push_call_frame(1) [OF a] by simp
  have r3: "?R (?s2\<lparr>sy_run := run_push a q' (sy_run ?s2), sy_capture := CapLoop\<rparr>)" (is "reach _ _ ?s3")
    by (rule reach_capture [OF r2], rule capture_pushes [of _ _ ok]) (use p in \<open>simp_all add: start_sys_def\<close>)
  have r4: "?R (?s3\<lparr>sy_network := NetLoop, sy_main := Streaming\<rparr>)" (is "reach _ _ ?s4")
    by (rule reach_main [OF r3], rule create_network) (simp add: start_sys_def)
  then show ?thesis
    by (intro exI [of _ ?s4] exI [of _ "args_frame a"] exI [of _ ctx] conjI)
      (use open' len q' in \<open>simp_all add: run_push_def start_sys_def t TlsClient_new_def\<close>)
qed

text \<open>A frame in the queue goes through a new connection, from the loop test back to the loop test.\<close>

lemma demo_transfer:
  assumes r: "reach (sy_init demo_program) (sy_step demo_program bo) s" and n: "sy_network s = NetLoop" "sy_running s"
    and q: "rq_frames (sy_queue s) = [f]" "\<not> shutdown_flag (sy_queue s)"
    and t: "tc_ssl_ctx (sy_tls s) = Some ctx" "tc_state (sy_tls s) \<noteq> Connected" "os_fds (tc_os (sy_tls s)) = []"
      "os_streams (tc_os (sy_tls s)) = []" "tc_frames_sent (sy_tls s) = 0"
    and len: "length (fr_payload f) \<le> 4"
  shows "\<exists>rn t'. reach (sy_init demo_program) (sy_step demo_program bo) (s\<lparr>sy_run := rn, sy_tls := t'\<rparr>)
    \<and> rr_offered rn = rr_offered (sy_run s) \<and> os_streams (tc_os (tlsDisconnect t')) = [frame_wire f]
    \<and> tc_frames_sent (tlsDisconnect t') = 1"
proof -
  let ?R = "reach (sy_init demo_program) (sy_step demo_program bo)"
  have go: "?R v'" if "?R v" "network_step demo_api bo v v'" for v v'
    using reach_network [OF that(1)] that(2) by (simp add: demo_program_def)
  have inv: "rq_inv (sy_queue s)" "\<not> mutex_locked (sy_queue s)"
    using client_reachable [OF demo_program_ok r] by (simp_all add: sy_inv_def sy_queue_ok_def rr_inv_def)
  obtain t1 ssl where t1: "ensure_connected demo_api (sy_tls s) 0 = Some (True, t1, 0)" "tc_ssl t1 = Some ssl" "ssl_out ssl = []"
    "os_streams (tc_os t1) = []" "tc_frames_sent t1 = 0" using demo_connects [OF t(2,1,3), of 0] t(4,5) by auto
  from go [OF r network_connects [OF n t1(1)]] have r1: "?R (s\<lparr>sy_tls := t1, sy_network := NetPop\<rparr>)" (is "reach _ _ ?s1") by simp
  have c: "0 < rq_count (sy_queue s)" using arg_cong [OF q(1), of length] by simp
  have malloc: "fst (malloc_packet nowait_env w)" for w :: nat by (simp add: nowait_env_def)
  obtain pkt q2 w2 where p: "pop nowait_env QUEUE_TIMEOUT_MS (0 :: nat) (sy_queue s) = Some (Some pkt, q2, w2)"
    and inv2: "rq_inv q2" and fs: "rq_frames (sy_queue s) = packet_frame q2 pkt # rq_frames q2" and live: "packet_live q2 pkt"
    using pop_gives_oldest [OF inv(1) c _ malloc, of QUEUE_TIMEOUT_MS 0] q(2) by blast
  have f: "packet_frame q2 pkt = f" using fs q(1) by simp
  from go [OF r1 network_pops [OF _ nowait_env_idle, of _ 0 pkt q2 w2]] p
  have "?R (?s1\<lparr>sy_run := run_pop pkt q2 (sy_run s), sy_network := NetTaken pkt\<rparr>)" by simp
  from go [OF this network_allocates [of _ pkt]]
  have r2: "?R (?s1\<lparr>sy_run := run_pop pkt q2 (sy_run s), sy_network := NetHeader pkt\<rparr>)" (is "reach _ _ ?s2") by simp
  let ?h = "packet_header bo pkt" and ?d = "mem_read (rq_mem q2) (pkt_data pkt) (unat (pkt_len pkt))"
  have h: "length ?h = 36" by (simp add: packet_header_def header_bytes_init)
  have d: "?d = fr_payload f" using arg_cong [OF f, of fr_payload] by (simp add: packet_frame_def)
  have dl: "length ?d = unat (pkt_len pkt)" using packet_payload_length [OF inv2 live] by (simp add: packet_frame_def)
  let ?t2 = "t1\<lparr>tc_ssl := Some (ssl\<lparr>ssl_out := ?h\<rparr>)\<rparr>"
  obtain w3 where w3: "sslWriteAll demo_api ?h FRAME_HEADER_SIZE (sy_tls ?s2) 0 = Some (True, ?t2, w3)"
    using demo_writes [OF t1(2), of ?h 0] h t1(3) by auto
  from go [OF r2 network_header [of _ pkt, OF _ w3]]
  have r3: "?R (?s2\<lparr>sy_tls := ?t2, sy_network := NetPayload pkt\<rparr>)" (is "reach _ _ ?s3") by simp
  let ?t3 = "?t2\<lparr>tc_ssl := Some (ssl\<lparr>ssl_out := ?h @ ?d\<rparr>)\<rparr>"
  obtain w4 where w4: "sslWriteAll demo_api ?d (unat (pkt_len pkt)) (sy_tls ?s3) 0 = Some (True, ?t3, w4)"
    using demo_writes [of ?t2 "ssl\<lparr>ssl_out := ?h\<rparr>" ?d 0] dl d len by auto
  have "sslWriteAll demo_api (mem_read (rq_mem (sy_queue ?s3)) (pkt_data pkt) (unat (pkt_len pkt))) (unat (pkt_len pkt))
      (sy_tls ?s3) 0 = Some (True, ?t3, w4)" using w4 by (simp add: run_pop_def)
  from go [OF r3 network_payload [of _ pkt, OF _ this]]
  have r4: "?R (?s3\<lparr>sy_tls := count_sent pkt ?t3, sy_network := NetFree pkt\<rparr>)" (is "reach _ _ ?s4") by simp
  from go [OF r4 network_frees [of _ pkt]]
  have "?R (?s4\<lparr>sy_run := run_free pkt (sy_run ?s4), sy_network := NetLoop\<rparr>)" by simp
  moreover have "?s4\<lparr>sy_run := run_free pkt (sy_run ?s4), sy_network := NetLoop\<rparr>
      = s\<lparr>sy_run := run_free pkt (sy_run ?s4), sy_tls := count_sent pkt ?t3\<rparr>"
    using n(1) by (cases s) simp
  moreover have "rr_offered (run_free pkt (sy_run ?s4)) = rr_offered (sy_run s)"
    by (simp add: run_free_def run_pop_def)
  moreover have "frame_wire f = ?h @ ?d"
    using packet_wire [OF inv2 live, of bo] f d by (simp add: packet_header_def)
  ultimately show ?thesis
    using t1(4,5) disconnect_ends_stream [of "count_sent pkt ?t3" "ssl\<lparr>ssl_out := ?h @ ?d\<rparr>"]
    by (intro exI [of _ "run_free pkt (sy_run ?s4)"] exI [of _ "count_sent pkt ?t3"])
      (simp add: count_sent_def disconnect_frames_sent)
qed

text \<open>It is told to stop and ends in good order; the frame is on the wire.\<close>

lemma demo_exit:
  "\<exists>s f. reach (sy_init demo_program) (sy_step demo_program bo) s \<and> sy_main s = Exited EXIT_SUCCESS
     \<and> sy_network s = NetDone \<and> rr_offered (sy_run s) = [f] \<and> length (fr_payload f) \<le> 4
     \<and> os_streams (tc_os (sy_tls s)) = [frame_wire f] \<and> tc_frames_sent (sy_tls s) = 1"
proof -
  let ?R = "reach (sy_init demo_program) (sy_step demo_program bo)"
  obtain s1 f ctx where s1: "?R s1" "sy_main s1 = Streaming" "sy_capture s1 = CapLoop" "sy_network s1 = NetLoop" "sy_running s1"
    "rr_offered (sy_run s1) = [f]" "rq_frames (sy_queue s1) = [f]" "\<not> shutdown_flag (sy_queue s1)" "length (fr_payload f) \<le> 4"
    "tc_ssl_ctx (sy_tls s1) = Some ctx" "tc_state (sy_tls s1) \<noteq> Connected" "os_fds (tc_os (sy_tls s1)) = []"
    "os_streams (tc_os (sy_tls s1)) = []" "tc_frames_sent (sy_tls s1) = 0" using demo_streaming by blast
  obtain rn t where rt: "?R (s1\<lparr>sy_run := rn, sy_tls := t\<rparr>)" "rr_offered rn = [f]"
    "os_streams (tc_os (tlsDisconnect t)) = [frame_wire f]" "tc_frames_sent (tlsDisconnect t) = 1"
    using demo_transfer [OF s1(1,4,5,7,8,10-14,9)] s1(6) by auto
  let ?s = "s1\<lparr>sy_run := rn, sy_tls := t\<rparr>"
  have s: "sy_main ?s = Streaming" "sy_capture ?s = CapLoop" "sy_network ?s = NetLoop" using s1 by simp_all
  have r5: "?R (?s\<lparr>sy_running := False\<rparr>)" (is "reach _ _ ?s5")
    using reach_main [OF rt(1) signal] by (simp add: signalHandler_def)
  have r6: "?R (?s5\<lparr>sy_capture := CapDone\<rparr>)" (is "reach _ _ ?s6")
    by (rule reach_capture [OF r5], rule capture_ends) (use s in simp_all)
  have r7: "?R (?s6\<lparr>sy_tls := tlsDisconnect (sy_tls ?s6), sy_network := NetDone\<rparr>)" (is "reach _ _ ?s7")
    by (rule reach_network [OF r6], rule network_ends) (use s in simp_all)
  have r8: "?R (?s7\<lparr>sy_main := ShutQueue EXIT_SUCCESS\<rparr>)" (is "reach _ _ ?s8")
    by (rule reach_main [OF r7], rule leave_loop) (use s in simp_all)
  have r9: "?R (?s8\<lparr>sy_run := run_shutdown (sy_run ?s8), sy_main := JoinCapture EXIT_SUCCESS\<rparr>)" (is "reach _ _ ?s9")
    by (rule reach_main [OF r8], rule shut_queue) simp
  have "?R (?s9\<lparr>sy_main := (if EXIT_SUCCESS = EXIT_SUCCESS then JoinNetwork else Exited EXIT_SUCCESS)\<rparr>)"
    by (rule reach_main [OF r9], rule join_capture) simp_all
  then have r10: "?R (?s9\<lparr>sy_main := JoinNetwork\<rparr>)" (is "reach _ _ ?s10") by simp
  have "?R (?s10\<lparr>sy_main := Exited EXIT_SUCCESS\<rparr>)" (is "reach _ _ ?s11")
    by (rule reach_main [OF r10], rule join_network) simp_all
  moreover have "sy_main ?s11 = Exited EXIT_SUCCESS \<and> sy_network ?s11 = NetDone \<and> rr_offered (sy_run ?s11) = [f]
      \<and> os_streams (tc_os (sy_tls ?s11)) = [frame_wire f] \<and> tc_frames_sent (sy_tls ?s11) = 1"
    using rt(2-4) by (simp add: run_shutdown_def)
  ultimately show ?thesis using s1(9) by blast
qed

lemma wire_of_frame: "length (fr_payload f) \<le> 4 \<Longrightarrow> parse_stream (frame_wire f) = [f]"
  using parse_cut_stream [OF cut_stream_whole, of "[f]"] by (simp add: frame_fits_def payload_limit_def stream_def)

theorem client_sends_captured_frames_witness:
  "\<exists>s f. reach (sy_init demo_program) (sy_step demo_program LittleEndian) s \<and> rr_offered (sy_run s) = [f]
     \<and> wire_frames s = [f] \<and> subseq (wire_frames s) (rr_offered (sy_run s))"
proof -
  obtain s f where s: "reach (sy_init demo_program) (sy_step demo_program LittleEndian) s" "rr_offered (sy_run s) = [f]"
    "length (fr_payload f) \<le> 4" "os_streams (tc_os (sy_tls s)) = [frame_wire f]"
    using demo_exit by blast
  then have "length (rr_offered (sy_run s)) \<le> 2 ^ 64" by simp
  from client_sends_captured_frames [OF demo_program_ok s(1) this] show ?thesis
    using s wire_of_frame by (auto simp: wire_frames_def)
qed

theorem client_exit_clean_witness:
  "\<exists>s. reach (sy_init demo_program) (sy_step demo_program LittleEndian) s \<and> sy_main s = Exited EXIT_SUCCESS
     \<and> rq_held (sy_queue s) = {} \<and> os_fds (tc_os (sy_tls s)) = []"
proof -
  obtain s where s: "reach (sy_init demo_program) (sy_step demo_program LittleEndian) s" "sy_main s = Exited EXIT_SUCCESS"
    using demo_exit by blast
  from client_exit_clean [OF demo_program_ok s] show ?thesis using s by blast
qed

definition demo_quiet :: "nat tls_api" where
  "demo_quiet = demo_api\<lparr>other_threads := (\<lambda>w q. (q, w))\<rparr>"

lemma demo_quiet_ok:
  "alone demo_quiet" "net_api_ok demo_quiet" "ssl_write_progress (\<lambda>_. 0) demo_quiet"
  "timedwait_progress (\<lambda>_. 0) (queue_env demo_quiet)"
  using demo_api_ok
  by (simp_all add: alone_def demo_quiet_def net_api_ok_def producers_only_def ssl_write_progress_def
      ssl_write_bounded_def socket_fresh_def env_idle_def) (simp add: demo_api_def nowait_env_def)

lemma network_turn_is_steps_example:
  "\<exists>s'. (network_step demo_quiet LittleEndian)\<^sup>*\<^sup>*
     ((start_sys demo_queue demo_capture demo_client)\<lparr>sy_network := NetLoop\<rparr>) s' \<and> sy_network s' = NetLoop"
proof -
  let ?s = "(start_sys demo_queue demo_capture demo_client)\<lparr>sy_network := NetLoop\<rparr>"
  obtain t' q' w' where "network_body demo_quiet LittleEndian (sy_tls ?s) (sy_queue ?s) 0 = Some (t', q', w')"
    using network_body_returns [OF demo_quiet_ok(2-4) demo_client_inv(1) demo_delay, of LittleEndian demo_queue 0]
    by (auto simp: start_sys_def)
  from network_turn_is_steps [OF demo_quiet_ok(1) _ _ this] show ?thesis by (auto simp: start_sys_def)
qed

end
