(* ===== verification/Streamer_Shutdown.thy ===== *)
theory Streamer_Shutdown
  imports Streamer_Runs
begin

text \<open>
  How the client of \<open>Streamer\<close> ends and what its statistics say. Once the running flag is cleared,
  by a signal or because a thread could not be created, every interleaving of the threads ends the
  program within a fixed number of steps, and no thread is left waiting. The counters that \<open>main\<close>
  logs account for every captured frame.
\<close>

section \<open>After the signal\<close>

text \<open>A step that does something; repeated signals do nothing.\<close>

definition sy_acts :: "('m, 'w) client_env \<Rightarrow> byte_order \<Rightarrow> client_sys \<Rightarrow> client_sys \<Rightarrow> bool" where
  "sy_acts env bo s t \<longleftrightarrow> sy_step env bo s t \<and> t \<noteq> s"

text \<open>How many steps each thread can still make.\<close>

definition main_left :: "main_pc \<Rightarrow> nat" where
  "main_left pc = (case pc of CreateCapture \<Rightarrow> 8 | CreateNetwork \<Rightarrow> 6 | Streaming \<Rightarrow> 4 | ShutQueue _ \<Rightarrow> 3
     | JoinCapture _ \<Rightarrow> 2 | JoinNetwork \<Rightarrow> 1 | Exited _ \<Rightarrow> 0)"

definition capture_left :: "capture_pc \<Rightarrow> nat" where
  "capture_left pc = (case pc of CapLoop \<Rightarrow> 1 | CapPush _ \<Rightarrow> 2 | _ \<Rightarrow> 0)"

definition network_left :: "network_pc \<Rightarrow> nat" where
  "network_left pc = (case pc of NetNotStarted \<Rightarrow> 0 | NetLoop \<Rightarrow> 1 | NetPop \<Rightarrow> 6 | NetTaken _ \<Rightarrow> 5 | NetHeader _ \<Rightarrow> 4 | NetPayload _ \<Rightarrow> 3
     | NetAbort _ \<Rightarrow> 2 | NetFree _ \<Rightarrow> 2 | NetDone \<Rightarrow> 0)"

definition steps_left :: "client_sys \<Rightarrow> nat" where
  "steps_left s = main_left (sy_main s) + capture_left (sy_capture s) + network_left (sy_network s)"

lemmas left_defs = steps_left_def main_left_def capture_left_def network_left_def

text \<open>Where each thread is when \<open>main\<close> has come that far; part of what the program relies on.\<close>

definition threads_started :: "client_sys \<Rightarrow> bool" where
  "threads_started s \<longleftrightarrow> (sy_main s = CreateCapture \<longrightarrow> sy_capture s = CapNotStarted \<and> sy_network s = NetNotStarted)
     \<and> (sy_main s = CreateNetwork \<longrightarrow> sy_network s = NetNotStarted)
     \<and> (sy_main s \<noteq> CreateCapture \<and> (\<forall>status. sy_main s \<noteq> Exited status) \<longrightarrow> sy_capture s \<noteq> CapNotStarted)"

lemma threads_started_step:
  assumes "sy_step env bo s t" and "threads_started s"
  shows "threads_started t"
proof -
  consider "main_step s t" | "capture_step (env_cam env) s t" | "network_step (env_tls env) bo s t"
    using assms(1) by (auto simp: sy_step_def)
  then show ?thesis
  proof cases
    case 1
    then show ?thesis using assms(2) by cases (auto simp: threads_started_def signalHandler_def)
  next
    case 2
    then show ?thesis using assms(2) by cases (auto simp: threads_started_def)
  next
    case 3
    then show ?thesis using assms(2) by cases (auto simp: threads_started_def)
  qed
qed

interpretation client_threads: invariant_system "sy_init env" "sy_step env bo" threads_started for env bo
proof unfold_locales
  show "threads_started s" if "sy_init env s" for s
    using that by (auto simp: sy_init_def start_sys_def threads_started_def)
qed (rule threads_started_step)

lemma main_step_left:
  assumes "main_step s t" and "threads_started s" and "\<not> sy_running s" and "t \<noteq> s"
  shows "\<not> sy_running t \<and> steps_left t < steps_left s"
  using assms by cases (auto simp: left_defs threads_started_def signalHandler_def)

lemma capture_step_left:
  assumes "capture_step cam s t" and "\<not> sy_running s"
  shows "\<not> sy_running t \<and> steps_left t < steps_left s"
  using assms by cases (auto simp: left_defs)

lemma network_step_left:
  assumes "network_step api bo s t" and "\<not> sy_running s"
  shows "\<not> sy_running t \<and> steps_left t < steps_left s"
  using assms by cases (auto simp: left_defs)

lemma sy_acts_left:
  assumes "sy_acts env bo s t" and "threads_started s" and "\<not> sy_running s"
  shows "\<not> sy_running t \<and> threads_started t \<and> steps_left t < steps_left s"
  using assms main_step_left [of s t] capture_step_left [of _ s t] network_step_left [of _ bo s t]
    threads_started_step [of env bo s t]
  by (auto simp: sy_acts_def sy_step_def)

lemma sy_acts_bound:
  assumes "(sy_acts env bo ^^ n) s t" and "threads_started s" and "\<not> sy_running s"
  shows "\<not> sy_running t \<and> n + steps_left t \<le> steps_left s"
  using assms
proof (induction n arbitrary: t)
  case (Suc n)
  then obtain u where u: "(sy_acts env bo ^^ n) s u" "sy_acts env bo u t" by auto
  moreover have "threads_started u"
    using u(1) Suc.prems(2)
  proof (induction n arbitrary: u)
    case (Suc n)
    then show ?case by (auto simp: sy_acts_def intro: threads_started_step)
  qed simp
  ultimately show ?case using Suc sy_acts_left [of env bo u t] by fastforce
qed simp

lemma steps_left_bound: "threads_started s \<Longrightarrow> steps_left s \<le> 12"
  by (auto simp: left_defs threads_started_def split: main_pc.split capture_pc.split network_pc.split)

section \<open>No thread is left waiting\<close>

text \<open>
  The calls that the threads are in return, whatever the environment does within the documented
  behaviour.
\<close>

definition calls_return :: "('w \<Rightarrow> nat) \<Rightarrow> ('m, 'w) client_env \<Rightarrow> byte_order \<Rightarrow> client_sys \<Rightarrow> bool" where
  "calls_return m env bo s \<longleftrightarrow>
     (\<forall>a. sy_capture s = CapPush a \<longrightarrow> push_call a (sy_queue s) \<noteq> None)
   \<and> (sy_network s = NetPop \<longrightarrow> (\<forall>renv w. timedwait_progress m renv \<longrightarrow>
        pop renv QUEUE_TIMEOUT_MS w (sy_queue s) \<noteq> None))
   \<and> (\<forall>pkt w. sy_network s = NetHeader pkt \<longrightarrow>
        sslWriteAll (env_tls env) (packet_header bo pkt) FRAME_HEADER_SIZE (sy_tls s) w \<noteq> None)
   \<and> (\<forall>pkt w. sy_network s = NetPayload pkt \<longrightarrow>
        sslWriteAll (env_tls env) (mem_read (rq_mem (sy_queue s)) (pkt_data pkt) (unat (pkt_len pkt))) (unat (pkt_len pkt))
          (sy_tls s) w \<noteq> None)"

lemma reachable_calls_return:
  assumes inv: "sy_inv bo s" and api: "ssl_write_bounded (env_tls env)" "ssl_write_progress m (env_tls env)"
  shows "calls_return m env bo s"
proof -
  have q: "rq_inv (sy_queue s)" "\<not> mutex_locked (sy_queue s)"
    using inv by (simp_all add: sy_inv_def sy_queue_ok_def rr_inv_def)
  have "push_call a (sy_queue s) \<noteq> None" if pc: "sy_capture s = CapPush a" for a
  proof -
    have "\<forall>a. sy_capture s = CapPush a \<longrightarrow> (\<exists>bs. pa_data a = Some bs \<and> unat (pa_len a) \<le> length bs)"
      using inv by (simp add: sy_inv_def sy_camera_ok_def Let_def)
    then obtain bs where a: "pa_data a = Some bs" "unat (pa_len a) \<le> length bs"
      using pc by blast
    then have "length (fr_payload (args_frame a)) < 2 ^ 32"
      using push_call_frame(2) [OF a] unsigned_less [of "pa_len a", where 'a = nat] by simp
    then show ?thesis using push_frame_returns [OF q] push_call_frame(1) [OF a] by auto
  qed
  moreover have sends: "sslWriteAll (env_tls env) bs n (sy_tls s) w \<noteq> None"
    if h: "held_packets (sy_network s) \<noteq> []" and n: "n < 2 ^ 64" for bs n w
  proof -
    obtain sess where "tc_ssl (sy_tls s) = Some sess"
      using inv h by (auto simp: sy_inv_def sy_wire_ok_def in_session_def)
    from sslWriteAll_returns [OF api this n] show ?thesis by fastforce
  qed
  moreover have "sslWriteAll (env_tls env) bs (unat (pkt_len pkt)) (sy_tls s) w \<noteq> None"
    if "sy_network s = NetPayload pkt" for pkt bs w
    using unsigned_less [of "pkt_len pkt", where 'a = nat] that by (intro sends) (simp_all add: held_packets_def)
  moreover have "sslWriteAll (env_tls env) bs FRAME_HEADER_SIZE (sy_tls s) w \<noteq> None"
    if "sy_network s = NetHeader pkt" for pkt bs w
    using that by (intro sends) (simp_all add: held_packets_def)
  moreover have "pop renv QUEUE_TIMEOUT_MS w (sy_queue s) \<noteq> None" if "timedwait_progress m renv" for renv w
    using pop_timed_returns [OF that, of QUEUE_TIMEOUT_MS w "sy_queue s"] by (auto simp: QUEUE_TIMEOUT_MS_def)
  ultimately show ?thesis unfolding calls_return_def by blast
qed

lemma capture_goes_on:
  assumes "calls_return m env bo s" and "sy_capture s \<notin> {CapNotStarted, CapDone}" and "\<not> sy_running s"
  shows "\<exists>t. capture_step cam s t"
proof (cases "sy_capture s")
  case (CapPush a)
  then obtain ok q' where "push_call a (sy_queue s) = Some (ok, q')"
    using assms(1) by (auto simp: calls_return_def)
  then show ?thesis using capture_pushes [OF CapPush] by blast
qed (use assms capture_ends in auto)

lemma nowait_env_ok: "env_idle nowait_env" "timedwait_progress m nowait_env"
  by (simp_all add: nowait_env_def env_idle_def timedwait_progress_def)

lemma network_goes_on:
  fixes env :: "('m, 'w) client_env"
  assumes r: "calls_return m env bo s" and "sy_network s \<notin> {NetNotStarted, NetDone}" and "\<not> sy_running s"
  shows "\<exists>t. network_step (env_tls env) bo s t"
proof (cases "sy_network s")
  case NetPop
  have "\<exists>res. pop (nowait_env :: 'w rq_env) QUEUE_TIMEOUT_MS undefined (sy_queue s) = Some res"
    by (rule pop_timed_returns [OF nowait_env_ok(2)]) (simp add: QUEUE_TIMEOUT_MS_def)
  then obtain pkt q' w' where p: "pop (nowait_env :: 'w rq_env) QUEUE_TIMEOUT_MS undefined (sy_queue s) = Some (pkt, q', w')"
    by auto
  show ?thesis
  proof (cases pkt)
    case None
    show ?thesis by (rule exI, rule network_pops_none [OF NetPop nowait_env_ok(1)]) (use p None in simp)
  next
    case (Some a)
    show ?thesis by (rule exI, rule network_pops [OF NetPop nowait_env_ok(1)]) (use p Some in simp)
  qed
next
  case (NetHeader pkt)
  then obtain ok t w' where "sslWriteAll (env_tls env) (packet_header bo pkt) FRAME_HEADER_SIZE (sy_tls s) undefined = Some (ok, t, w')"
    using r NetHeader by (fastforce simp: calls_return_def)
  then show ?thesis by (intro exI) (rule network_header [OF NetHeader])
next
  case (NetPayload pkt)
  then obtain ok t w' where "sslWriteAll (env_tls env) (mem_read (rq_mem (sy_queue s)) (pkt_data pkt) (unat (pkt_len pkt)))
      (unat (pkt_len pkt)) (sy_tls s) undefined = Some (ok, t, w')"
    using r NetPayload by (fastforce simp: calls_return_def)
  then show ?thesis by (intro exI) (rule network_payload [OF NetPayload])
qed (use assms in \<open>auto intro: network_allocates network_aborts network_frees network_ends\<close>)

lemma main_goes_on:
  assumes "\<And>status. sy_main s \<noteq> Exited status" and "\<not> sy_running s"
    and "\<And>status. sy_main s = JoinCapture status \<Longrightarrow> sy_capture s = CapDone"
    and "sy_main s = JoinNetwork \<Longrightarrow> sy_network s = NetDone"
  shows "\<exists>t. main_step s t \<and> sy_main t \<noteq> sy_main s"
proof (cases "sy_main s")
  case CreateCapture
  show ?thesis using create_capture [OF CreateCapture] CreateCapture by (intro exI conjI) auto
next
  case CreateNetwork
  show ?thesis using create_network [OF CreateNetwork] CreateNetwork by (intro exI conjI) auto
next
  case Streaming
  show ?thesis using leave_loop [OF Streaming assms(2)] Streaming by (intro exI conjI) auto
next
  case (ShutQueue status)
  show ?thesis using shut_queue [OF ShutQueue] ShutQueue by (intro exI conjI) auto
next
  case (JoinCapture status)
  show ?thesis using join_capture [OF JoinCapture assms(3)] JoinCapture by (intro exI conjI) (auto split: if_splits)
next
  case JoinNetwork
  show ?thesis using join_network [OF JoinNetwork assms(4)] JoinNetwork by (intro exI conjI) auto
qed (use assms(1) in simp)

text \<open>When nothing can happen any more the program has ended.\<close>

lemma stuck_exited:
  assumes "sy_inv bo s" and "threads_started s" and "\<not> sy_running s" and "calls_return m env bo s"
    and stuck: "\<And>t. \<not> sy_acts env bo s t"
  shows "\<exists>status. sy_main s = Exited status"
proof (rule ccontr)
  assume no: "\<nexists>status. sy_main s = Exited status"
  have c: "sy_capture s \<in> {CapNotStarted, CapDone}"
  proof (rule ccontr)
    assume "sy_capture s \<notin> {CapNotStarted, CapDone}"
    then obtain t where "capture_step (env_cam env) s t" using capture_goes_on [OF assms(4) _ assms(3)] by blast
    then show False using stuck [of t] capture_step_left [OF _ assms(3)] by (auto simp: sy_acts_def sy_step_def)
  qed
  have n: "sy_network s \<in> {NetNotStarted, NetDone}"
  proof (rule ccontr)
    assume "sy_network s \<notin> {NetNotStarted, NetDone}"
    then obtain t where "network_step (env_tls env) bo s t" using network_goes_on [OF assms(4) _ assms(3)] by blast
    then show False using stuck [of t] network_step_left [OF _ assms(3)] by (auto simp: sy_acts_def sy_step_def)
  qed
  have "sy_main s = JoinCapture status \<Longrightarrow> sy_capture s = CapDone" for status
    using c assms(2) no by (auto simp: threads_started_def)
  moreover have "sy_main s = JoinNetwork \<Longrightarrow> sy_network s = NetDone"
    using n assms(1) by (auto simp: sy_inv_def sy_control_ok_def)
  ultimately obtain t where "main_step s t" "sy_main t \<noteq> sy_main s" using main_goes_on [of s] no assms(3) by blast
  then show False using stuck [of t] by (auto simp: sy_acts_def sy_step_def)
qed

lemma acts_reachable:
  "(sy_acts env bo ^^ n) s t \<Longrightarrow> reach (sy_init env) (sy_step env bo) s \<Longrightarrow> reach (sy_init env) (sy_step env bo) t"
proof (induction n arbitrary: t)
  case (Suc n)
  then obtain u where "reach (sy_init env) (sy_step env bo) u" "sy_step env bo u t" by (auto simp: sy_acts_def)
  then show ?case by (rule reach_step)
qed simp

text \<open>
  C9. The client stops: once the running flag is cleared, however the threads interleave from
  there, the program makes at most 12 more steps; no call a thread is in hangs; and when it
  makes no further step \<open>main\<close> has returned, so that no thread waits for another for ever.
\<close>

theorem client_stops:
  assumes "client_env_ok env" and "ssl_write_progress m (env_tls env)"
    and "reach (sy_init env) (sy_step env bo) s" and "\<not> sy_running s" and "(sy_acts env bo ^^ n) s t"
  shows "n \<le> 12 \<and> calls_return m env bo t \<and> ((\<forall>u. \<not> sy_acts env bo t u) \<longrightarrow> (\<exists>status. sy_main t = Exited status))"
proof -
  have started: "threads_started s" by (rule client_threads.inv_reach [OF assms(3)])
  have r: "reach (sy_init env) (sy_step env bo) t" by (rule acts_reachable [OF assms(5,3)])
  have b: "\<not> sy_running t" "n \<le> steps_left s" using sy_acts_bound [OF assms(5) started assms(4)] by simp_all
  have inv: "sy_inv bo t" by (rule client_reachable [OF assms(1) r])
  then have c: "calls_return m env bo t"
    by (rule reachable_calls_return) (use assms(1,2) in \<open>simp_all add: client_env_ok_def\<close>)
  show ?thesis
    using b steps_left_bound [OF started] c stuck_exited [OF inv client_threads.inv_reach [OF r] b(1) c] by auto
qed

section \<open>Statistics\<close>

definition sy_counted :: "client_sys \<Rightarrow> bool" where
  "sy_counted s \<longleftrightarrow> rr_counted (sy_run s)"

lemma sy_counted_init:
  assumes "client_env_ok env" and "sy_init env s"
  shows "sy_counted s"
proof -
  obtain args w level ob w' q c t where st: "client_startup env args w = Some (Inr level, ob, w')"
    and ob: "ob = \<lparr>ob_queue = Some q, ob_capture = Some c, ob_tls = Some t\<rparr>" and s: "s = start_sys q c t"
    using assms(2) unfolding sy_init_def by blast
  have "mmap_bounded (env_mmap_ok env)" using assms(1) by (simp add: client_env_ok_def)
  from client_startup_result [OF st this] ob obtain cfg where "client_ready cfg q c t" by auto
  then have "rq_counted q = 0" by (simp add: client_ready_def rq_counted_def flip: length_rq_frames)
  then show ?thesis by (simp add: s sy_counted_def rr_counted_def start_sys_def)
qed

lemma sy_counted_step:
  assumes inv: "sy_inv bo s" and step: "sy_step env bo s t" and c: "sy_counted s"
  shows "sy_counted t"
proof -
  have rr: "rr_inv (sy_run s)" and q: "\<not> mutex_locked (sy_queue s)"
    using inv by (simp_all add: sy_inv_def sy_queue_ok_def rr_inv_def)
  have free: "rr_counted (run_free p (sy_run s))" for p
    by (rule rr_counted_same [OF c [unfolded sy_counted_def]]) (simp_all add: run_free_def free_counted)
  consider "main_step s t" | "capture_step (env_cam env) s t" | "network_step (env_tls env) bo s t"
    using step by (auto simp: sy_step_def)
  then show ?thesis
  proof cases
    case 1
    then show ?thesis
      using c rr_counted_shutdown [of "sy_run s"] by cases (simp_all add: sy_counted_def run_shutdown_def signalHandler_def)
  next
    case 2
    then show ?thesis
    proof cases
      case (capture_pushes a ok q')
      have "\<forall>a. sy_capture s = CapPush a \<longrightarrow> (\<exists>bs. pa_data a = Some bs \<and> unat (pa_len a) \<le> length bs)"
        using inv by (simp add: sy_inv_def sy_camera_ok_def Let_def)
      then obtain bs where a: "pa_data a = Some bs" "unat (pa_len a) \<le> length bs" using capture_pushes(2) by blast
      then have "length (fr_payload (args_frame a)) < 2 ^ 32"
        using push_call_frame(2) [OF a] unsigned_less [of "pa_len a", where 'a = nat] by simp
      from rr_counted_push [OF rr _ this, of ok q'] show ?thesis
        using c push_call_frame(1) [OF a] capture_pushes by (simp add: sy_counted_def run_push_def)
    qed (use c in \<open>simp_all add: sy_counted_def\<close>)
  next
    case 3
    then show ?thesis
    proof cases
      case (network_pops renv w pkt q' w')
      show ?thesis
        unfolding sy_counted_def by (rule rr_counted_same [OF c [unfolded sy_counted_def]])
          (use network_pops(1) pop_idle_counted [OF network_pops(4,3) q] in \<open>simp_all add: run_pop_def\<close>)
    next
      case (network_pops_none renv w q' w')
      show ?thesis
        unfolding sy_counted_def by (rule rr_counted_same [OF c [unfolded sy_counted_def]])
          (use network_pops_none(1) pop_idle_counted [OF network_pops_none(4,3) q] in simp_all)
    qed (use c free in \<open>simp_all add: sy_counted_def\<close>)
  qed
qed

interpretation client_counts: invariant_system
  "\<lambda>s. client_env_ok env \<and> sy_init env s" "\<lambda>s s'. client_env_ok env \<and> sy_step env bo s s'" "\<lambda>s. sy_inv bo s \<and> sy_counted s" for env bo
proof unfold_locales
  show "sy_inv bo s \<and> sy_counted s" if "client_env_ok env \<and> sy_init env s" for s
    using that client_runs.inv_init sy_counted_init by blast
  show "sy_inv bo s' \<and> sy_counted s'" if "sy_inv bo s \<and> sy_counted s" "client_env_ok env \<and> sy_step env bo s s'" for s s'
    using that client_runs.inv_step sy_counted_step by blast
qed

text \<open>
  C24. The statistics: while the queue is open, and every captured image has between 1 byte and 4 MB,
  each frame offered to the queue is counted exactly once in what \<open>getStats\<close> returns, as popped or as
  dropped, or it is still queued (modulo 2 ^ 64, the width of the counters).
\<close>

theorem client_statistics:
  assumes "client_env_ok env" and "reach (sy_init env) (sy_step env bo) s" and "\<not> shutdown_flag (sy_queue s)"
    and "list_all (\<lambda>f. 0 < length (fr_payload f) \<and> length (fr_payload f) \<le> 4194304) (rr_offered (sy_run s))"
  shows "of_nat (length (rr_offered (sy_run s))) =
    st_frames_popped (getStats (sy_queue s)) + st_frames_dropped (getStats (sy_queue s))
      + of_nat (length (rq_frames (sy_queue s)))"
proof -
  have "sy_inv bo s \<and> sy_counted s" using client_counts.inv_reach [of env bo s] assms(1,2) by simp
  moreover from this have "frame_ok (sy_queue s) = (\<lambda>f. 0 < length (fr_payload f) \<and> length (fr_payload f) \<le> 4194304)"
    by (auto simp: sy_inv_def sy_queue_ok_def frame_ok_def fun_eq_iff)
  ultimately show ?thesis
    using assms(3,4) by (simp add: sy_counted_def rr_counted_def rq_counted_def getStats_def)
qed

section \<open>A concrete end\<close>

lemma demo_told_to_stop:
  "\<exists>s t. reach (sy_init demo_program) (sy_step demo_program bo) s \<and> \<not> sy_running s \<and> sy_capture s = CapLoop
     \<and> (sy_acts demo_program bo ^^ 2) s t \<and> sy_network t = NetDone"
proof -
  let ?R = "reach (sy_init demo_program) (sy_step demo_program bo)"
  obtain s where r: "?R s" and s: "sy_main s = Streaming" "sy_capture s = CapLoop" "sy_network s = NetLoop"
    using demo_streaming by blast
  let ?s = "signalHandler s"
  let ?t = "?s\<lparr>sy_capture := CapDone\<rparr>"
  let ?u = "?t\<lparr>sy_tls := tlsDisconnect (sy_tls ?t), sy_network := NetDone\<rparr>"
  have f: "\<not> sy_running ?s" "sy_capture ?s = CapLoop" "sy_network ?s = NetLoop" by (simp_all add: signalHandler_def s)
  have "capture_step (env_cam demo_program) ?s ?t" by (rule capture_ends) (simp_all add: f)
  moreover have "network_step (env_tls demo_program) bo ?t ?u" by (rule network_ends) (simp_all add: f)
  ultimately have "sy_acts demo_program bo ?s ?t" "sy_acts demo_program bo ?t ?u"
    using capture_step_left [of _ ?s ?t] network_step_left [of _ bo ?t ?u] f(1) by (auto simp: sy_acts_def sy_step_def)
  then have "(sy_acts demo_program bo ^^ 2) ?s ?u" by (auto simp: numeral_2_eq_2)
  moreover have "?R ?s" by (rule reach_main [OF r signal])
  moreover have "sy_network ?u = NetDone" by simp
  ultimately show ?thesis using f(1,2) by blast
qed

lemma demo_progress: "ssl_write_progress (\<lambda>_. 0) (env_tls demo_program)"
  using demo_api_bounds(2) [of "\<lambda>_. 0"] by (simp add: demo_program_def)

theorem client_stops_witness:
  "\<exists>s t. reach (sy_init demo_program) (sy_step demo_program LittleEndian) s \<and> \<not> sy_running s
     \<and> (sy_acts demo_program LittleEndian ^^ 2) s t \<and> calls_return (\<lambda>_. 0) demo_program LittleEndian t"
proof -
  obtain s t where st: "reach (sy_init demo_program) (sy_step demo_program LittleEndian) s" "\<not> sy_running s"
    "(sy_acts demo_program LittleEndian ^^ 2) s t" using demo_told_to_stop by blast
  from client_stops [OF demo_program_ok demo_progress st] show ?thesis using st by blast
qed

theorem client_statistics_witness:
  "\<exists>s. reach (sy_init demo_program) (sy_step demo_program LittleEndian) s
     \<and> 1 = st_frames_popped (getStats (sy_queue s)) + st_frames_dropped (getStats (sy_queue s))
             + of_nat (length (rq_frames (sy_queue s)))"
proof -
  obtain s f where s: "reach (sy_init demo_program) (sy_step demo_program LittleEndian) s"
    "rr_offered (sy_run s) = [f]" "\<not> shutdown_flag (sy_queue s)" "0 < length (fr_payload f)" "length (fr_payload f) \<le> 4"
    using demo_streaming by blast
  have o: "list_all (\<lambda>f. 0 < length (fr_payload f) \<and> length (fr_payload f) \<le> 4194304) (rr_offered (sy_run s))"
    unfolding s(2) using s(4,5) by simp
  from client_statistics [OF demo_program_ok s(1,3) o] show ?thesis using s(1,2) by force
qed

end
