(* ===== verification/Ring_Queue_Threads.thy ===== *)
theory Ring_Queue_Threads
  imports Ring_Queue_Runs
begin

text \<open>
  The queue of \<open>src/ring_queue.cpp\<close> with the threads inside its operations: the producer inside
  \<open>push\<close>, the consumer inside \<open>pop\<close> and the thread that calls \<open>shutdown\<close> interleave between any
  two of the steps below. A step is one access to the mutex, the condition variable or a flag that is
  tested, or one block of the code that a thread runs while it holds the mutex: dropping the
  oldest frame (three members), writing the header and the payload of a slot, advancing the
  head with its counters, taking the slot at the tail. Blocks are one step each because no
  other thread can tell: what runs at the same time without the mutex clears a flag of a slot
  that is held (\<open>releaseSlot\<close>), reads the payload of such a slot, or counts a refusal on the
  producer's own thread, and a block neither tests that flag nor, by \<open>threads_race_free\<close>, touches these
  bytes. The mutex is a lock that a thread can only take when it is free,
  the condition variable puts the consumer to sleep and wakes it, spuriously too, and the flags
  \<open>slot_in_use_\<close> and the counters are accessed without the lock where the code does so. The theory
  proves that these threads refine the atomic operations of \<open>Ring_Queue\<close>, that the producer never
  writes where the consumer may read, that no wake-up is lost and that the threads cannot deadlock.
  Memory is sequentially consistent, which C++ promises for the default atomics and mutexes of a
  program without data races.
\<close>

section \<open>Threads\<close>

text \<open>Where the producer is inside \<open>push\<close>; the frame is the one its arguments describe.\<close>

datatype producer_pc =
    ProdIdle
  | ProdLock frame
  | ProdEnter frame
  | ProdRoom frame
  | ProdGuard frame
  | ProdWrite frame
  | ProdCommit frame
  | ProdSignal frame
  | ProdUnlock frame
  | ProdCount frame

text \<open>
  Where the consumer is inside \<open>pop\<close>, with its timeout. A woken consumer takes the mutex before
  \<open>pthread_cond_timedwait\<close> returns; the flag says whether that is with \<open>ETIMEDOUT\<close>.
\<close>

datatype consumer_pc =
    ConsIdle
  | ConsLock int
  | ConsTest int
  | ConsWait int
  | ConsWoken int bool
  | ConsNone
  | ConsTake
  | ConsUnlock nat SlotHeader
  | ConsMalloc nat SlotHeader

text \<open>Where the thread is that calls \<open>shutdown\<close>.\<close>

datatype shutdown_pc = ShutIdle | ShutStore | ShutUnlock | ShutBroadcast

text \<open>
  Besides the queue and the threads the state records the frames of finished \<open>push\<close> calls, the
  frames of the packets that finished \<open>pop\<close> calls returned, and the packets that are out.
\<close>

record queue_threads =
  tq_queue :: ring_queue
  tq_prod :: producer_pc
  tq_cons :: consumer_pc
  tq_main :: shutdown_pc
  tq_offered :: "frame list"
  tq_delivered :: "frame list"
  tq_live :: "(FramePacket \<times> frame) list"

definition tq_init :: "queue_threads \<Rightarrow> bool" where
  "tq_init s \<longleftrightarrow> rq_inv (tq_queue s) \<and> \<not> mutex_locked (tq_queue s) \<and> rq_held (tq_queue s) = {}
     \<and> rq_frames (tq_queue s) = [] \<and> tq_prod s = ProdIdle \<and> tq_cons s = ConsIdle \<and> tq_main s = ShutIdle
     \<and> tq_offered s = [] \<and> tq_delivered s = [] \<and> tq_live s = []"

text \<open>What \<open>pthread_cond_signal\<close> and \<open>pthread_cond_broadcast\<close> do to the one thread that may wait.\<close>

definition wake :: "consumer_pc \<Rightarrow> consumer_pc" where
  "wake pc = (case pc of ConsWait timeout \<Rightarrow> ConsWoken timeout False | _ \<Rightarrow> pc)"

definition prod_return :: "frame \<Rightarrow> queue_threads \<Rightarrow> queue_threads" where
  "prod_return f s = s\<lparr>tq_prod := ProdIdle, tq_offered := tq_offered s @ [f]\<rparr>"

text \<open>\<open>push\<close>; the checks of its arguments read members that never change.\<close>

inductive producer_thread :: "queue_threads \<Rightarrow> queue_threads \<Rightarrow> bool" where
  push_calls: "tq_prod s = ProdIdle \<Longrightarrow> length (fr_payload f) < 2 ^ 32 \<Longrightarrow> frame_ok (tq_queue s) f \<Longrightarrow>
    producer_thread s (s\<lparr>tq_prod := ProdLock f\<rparr>)"
| push_refuses: "tq_prod s = ProdIdle \<Longrightarrow> length (fr_payload f) < 2 ^ 32 \<Longrightarrow> \<not> frame_ok (tq_queue s) f \<Longrightarrow>
    producer_thread s (prod_return f s)"
| push_locks: "tq_prod s = ProdLock f \<Longrightarrow> \<not> mutex_locked (tq_queue s) \<Longrightarrow>
    producer_thread s (s\<lparr>tq_queue := mutex_lock (tq_queue s), tq_prod := ProdEnter f\<rparr>)"
| push_shut: "tq_prod s = ProdEnter f \<Longrightarrow> shutdown_flag (tq_queue s) \<Longrightarrow>
    producer_thread s (prod_return f (s\<lparr>tq_queue := mutex_unlock (tq_queue s)\<rparr>))"
| push_enters: "tq_prod s = ProdEnter f \<Longrightarrow> \<not> shutdown_flag (tq_queue s) \<Longrightarrow>
    producer_thread s (s\<lparr>tq_prod := ProdRoom f\<rparr>)"
| push_tail_held: "tq_prod s = ProdRoom f \<Longrightarrow> rq_count (tq_queue s) \<ge> capacity (tq_queue s) \<Longrightarrow>
    slot_in_use (tq_queue s) ! tail (tq_queue s) \<Longrightarrow>
    producer_thread s (s\<lparr>tq_queue := mutex_unlock (tq_queue s), tq_prod := ProdCount f\<rparr>)"
| push_drops: "tq_prod s = ProdRoom f \<Longrightarrow> rq_count (tq_queue s) \<ge> capacity (tq_queue s) \<Longrightarrow>
    \<not> slot_in_use (tq_queue s) ! tail (tq_queue s) \<Longrightarrow>
    producer_thread s (s\<lparr>tq_queue := drop_oldest (tq_queue s)\<rparr>)"
| push_has_room: "tq_prod s = ProdRoom f \<Longrightarrow> rq_count (tq_queue s) < capacity (tq_queue s) \<Longrightarrow>
    producer_thread s (s\<lparr>tq_prod := ProdGuard f\<rparr>)"
| push_head_held: "tq_prod s = ProdGuard f \<Longrightarrow> slot_in_use (tq_queue s) ! head (tq_queue s) \<Longrightarrow>
    producer_thread s (s\<lparr>tq_queue := mutex_unlock (tq_queue s), tq_prod := ProdCount f\<rparr>)"
| push_head_free: "tq_prod s = ProdGuard f \<Longrightarrow> \<not> slot_in_use (tq_queue s) ! head (tq_queue s) \<Longrightarrow>
    producer_thread s (s\<lparr>tq_prod := ProdWrite f\<rparr>)"
| push_writes: "tq_prod s = ProdWrite f \<Longrightarrow>
    producer_thread s (s\<lparr>tq_queue := push_write (header_of_frame f) (fr_payload f) (tq_queue s), tq_prod := ProdCommit f\<rparr>)"
| push_commits: "tq_prod s = ProdCommit f \<Longrightarrow>
    producer_thread s (s\<lparr>tq_queue := push_commit (tq_queue s), tq_prod := ProdSignal f\<rparr>)"
| push_signals: "tq_prod s = ProdSignal f \<Longrightarrow>
    producer_thread s (s\<lparr>tq_queue := cond_notify (tq_queue s), tq_cons := wake (tq_cons s), tq_prod := ProdUnlock f\<rparr>)"
| push_unlocks: "tq_prod s = ProdUnlock f \<Longrightarrow>
    producer_thread s (prod_return f (s\<lparr>tq_queue := mutex_unlock (tq_queue s)\<rparr>))"
| push_counts: "tq_prod s = ProdCount f \<Longrightarrow>
    producer_thread s (prod_return f (s\<lparr>tq_queue := (tq_queue s)\<lparr>frames_dropped := frames_dropped (tq_queue s) + 1\<rparr>\<rparr>))"

text \<open>The test of \<open>pop\<close> under the mutex: whether it goes on to wait, gives up, or looks at the ring.\<close>

definition pop_test :: "int \<Rightarrow> ring_queue \<Rightarrow> consumer_pc" where
  "pop_test timeout q =
     (if timeout = 0 then (if rq_count q = 0 \<or> shutdown_flag q then ConsNone else ConsTake)
      else if rq_count q = 0 \<and> \<not> shutdown_flag q then ConsWait timeout else ConsTake)"

text \<open>
  \<open>pop\<close> and the release of packets. Going to sleep releases the mutex in the same instant. The
  packet is built from the header fields that were read under the mutex.
\<close>

inductive consumer_thread :: "queue_threads \<Rightarrow> queue_threads \<Rightarrow> bool" where
  pop_calls: "tq_cons s = ConsIdle \<Longrightarrow> consumer_thread s (s\<lparr>tq_cons := ConsLock timeout\<rparr>)"
| pop_locks: "tq_cons s = ConsLock timeout \<Longrightarrow> \<not> mutex_locked (tq_queue s) \<Longrightarrow>
    consumer_thread s (s\<lparr>tq_queue := mutex_lock (tq_queue s), tq_cons := ConsTest timeout\<rparr>)"
| pop_tests: "tq_cons s = ConsTest timeout \<Longrightarrow> pop_test timeout (tq_queue s) = pc \<Longrightarrow>
    consumer_thread s (s\<lparr>tq_queue := (case pc of ConsWait _ \<Rightarrow> mutex_unlock (tq_queue s) | _ \<Rightarrow> tq_queue s), tq_cons := pc\<rparr>)"
| pop_spurious: "tq_cons s = ConsWait timeout \<Longrightarrow> consumer_thread s (s\<lparr>tq_cons := ConsWoken timeout False\<rparr>)"
| pop_expires: "tq_cons s = ConsWait timeout \<Longrightarrow> 0 < timeout \<Longrightarrow>
    consumer_thread s (s\<lparr>tq_cons := ConsWoken timeout True\<rparr>)"
| pop_relocks: "tq_cons s = ConsWoken timeout expired \<Longrightarrow> \<not> mutex_locked (tq_queue s) \<Longrightarrow>
    consumer_thread s (s\<lparr>tq_queue := mutex_lock (tq_queue s), tq_cons := (if expired then ConsNone else ConsTest timeout)\<rparr>)"
| pop_gives_up: "tq_cons s = ConsNone \<Longrightarrow>
    consumer_thread s (s\<lparr>tq_queue := mutex_unlock (tq_queue s), tq_cons := ConsIdle\<rparr>)"
| pop_empty: "tq_cons s = ConsTake \<Longrightarrow> rq_count (tq_queue s) = 0 \<Longrightarrow> consumer_thread s (s\<lparr>tq_cons := ConsNone\<rparr>)"
| pop_takes: "tq_cons s = ConsTake \<Longrightarrow> rq_count (tq_queue s) \<noteq> 0 \<Longrightarrow> pop_take (tq_queue s) = (idx, hdr, q') \<Longrightarrow>
    consumer_thread s (s\<lparr>tq_queue := q', tq_cons := ConsUnlock idx hdr\<rparr>)"
| pop_unlocks: "tq_cons s = ConsUnlock idx hdr \<Longrightarrow>
    consumer_thread s (s\<lparr>tq_queue := mutex_unlock (tq_queue s), tq_cons := ConsMalloc idx hdr\<rparr>)"
| pop_malloc_fails: "tq_cons s = ConsMalloc idx hdr \<Longrightarrow>
    consumer_thread s (s\<lparr>tq_queue := releaseSlot idx (tq_queue s), tq_cons := ConsIdle\<rparr>)"
| pop_returns: "tq_cons s = ConsMalloc idx hdr \<Longrightarrow> pkt = make_packet (tq_queue s) idx hdr \<Longrightarrow>
    f = packet_frame (tq_queue s) pkt \<Longrightarrow>
    consumer_thread s (s\<lparr>tq_cons := ConsIdle, tq_delivered := tq_delivered s @ [f], tq_live := tq_live s @ [(pkt, f)]\<rparr>)"
| packet_frees: "tq_cons s = ConsIdle \<Longrightarrow> (pkt, f) \<in> set (tq_live s) \<Longrightarrow>
    consumer_thread s (s\<lparr>tq_queue := frame_packet_free (Some pkt) (tq_queue s), tq_live := remove1 (pkt, f) (tq_live s)\<rparr>)"

text \<open>\<open>shutdown\<close>; it broadcasts after it has released the mutex.\<close>

inductive shutdown_thread :: "queue_threads \<Rightarrow> queue_threads \<Rightarrow> bool" where
  shutdown_locks: "tq_main s = ShutIdle \<Longrightarrow> \<not> mutex_locked (tq_queue s) \<Longrightarrow>
    shutdown_thread s (s\<lparr>tq_queue := mutex_lock (tq_queue s), tq_main := ShutStore\<rparr>)"
| shutdown_stores: "tq_main s = ShutStore \<Longrightarrow>
    shutdown_thread s (s\<lparr>tq_queue := (tq_queue s)\<lparr>shutdown_flag := True\<rparr>, tq_main := ShutUnlock\<rparr>)"
| shutdown_unlocks: "tq_main s = ShutUnlock \<Longrightarrow>
    shutdown_thread s (s\<lparr>tq_queue := mutex_unlock (tq_queue s), tq_main := ShutBroadcast\<rparr>)"
| shutdown_broadcasts: "tq_main s = ShutBroadcast \<Longrightarrow>
    shutdown_thread s (s\<lparr>tq_queue := cond_notify (tq_queue s), tq_cons := wake (tq_cons s), tq_main := ShutIdle\<rparr>)"

definition tq_step :: "queue_threads \<Rightarrow> queue_threads \<Rightarrow> bool" where
  "tq_step s s' \<longleftrightarrow> producer_thread s s' \<or> consumer_thread s s' \<or> shutdown_thread s s'"

section \<open>Who holds the mutex\<close>

definition prod_locks :: "producer_pc \<Rightarrow> bool" where
  "prod_locks pc = (case pc of ProdIdle \<Rightarrow> False | ProdLock _ \<Rightarrow> False | ProdCount _ \<Rightarrow> False | _ \<Rightarrow> True)"

definition cons_locks :: "consumer_pc \<Rightarrow> bool" where
  "cons_locks pc = (case pc of ConsTest _ \<Rightarrow> True | ConsNone \<Rightarrow> True | ConsTake \<Rightarrow> True | ConsUnlock _ _ \<Rightarrow> True | _ \<Rightarrow> False)"

definition main_locks :: "shutdown_pc \<Rightarrow> bool" where
  "main_locks pc \<longleftrightarrow> pc = ShutStore \<or> pc = ShutUnlock"

text \<open>At most one thread is in a critical section, and one is exactly when the mutex is locked.\<close>

definition tq_mutex :: "queue_threads \<Rightarrow> bool" where
  "tq_mutex s \<longleftrightarrow> of_bool (prod_locks (tq_prod s)) + of_bool (cons_locks (tq_cons s)) + of_bool (main_locks (tq_main s))
     = (of_bool (mutex_locked (tq_queue s)) :: nat)"

text \<open>A sleeping consumer has nothing to wake up for, or its wake-up is on the way.\<close>

definition tq_no_lost_wakeup :: "queue_threads \<Rightarrow> bool" where
  "tq_no_lost_wakeup s \<longleftrightarrow> (\<forall>timeout. tq_cons s = ConsWait timeout \<longrightarrow> timeout \<noteq> 0 \<and>
     (rq_count (tq_queue s) = 0 \<and> \<not> shutdown_flag (tq_queue s)
      \<or> (\<exists>f. tq_prod s = ProdSignal f) \<or> tq_main s \<in> {ShutUnlock, ShutBroadcast}))"

lemma lock_simps [simp]:
  "\<not> prod_locks ProdIdle" "\<not> prod_locks (ProdLock f)" "prod_locks (ProdEnter f)" "prod_locks (ProdRoom f)"
  "prod_locks (ProdGuard f)" "prod_locks (ProdWrite f)" "prod_locks (ProdCommit f)" "prod_locks (ProdSignal f)"
  "prod_locks (ProdUnlock f)" "\<not> prod_locks (ProdCount f)"
  "\<not> cons_locks ConsIdle" "\<not> cons_locks (ConsLock timeout)" "cons_locks (ConsTest timeout)"
  "\<not> cons_locks (ConsWait timeout)" "\<not> cons_locks (ConsWoken timeout expired)" "cons_locks ConsNone"
  "cons_locks ConsTake" "cons_locks (ConsUnlock idx hdr)" "\<not> cons_locks (ConsMalloc idx hdr)"
  "\<not> main_locks ShutIdle" "main_locks ShutStore" "main_locks ShutUnlock" "\<not> main_locks ShutBroadcast"
  by (simp_all add: prod_locks_def cons_locks_def main_locks_def)

section \<open>The simulation by atomic operations\<close>

text \<open>Two queues with the same members, the mutex and the condition variable aside.\<close>

definition same_ring :: "ring_queue \<Rightarrow> ring_queue \<Rightarrow> bool" where
  "same_ring q a \<longleftrightarrow> mmap_base q = mmap_base a \<and> slot_stride q = slot_stride a \<and> capacity q = capacity a
     \<and> max_frame_size q = max_frame_size a \<and> head q = head a \<and> tail q = tail a \<and> rq_count q = rq_count a
     \<and> slot_in_use q = slot_in_use a \<and> shutdown_flag q = shutdown_flag a \<and> frames_pushed q = frames_pushed a
     \<and> frames_dropped q = frames_dropped a \<and> frames_popped q = frames_popped a"

text \<open>
  How the queue that the threads see relates to the one of the atomic operations. A \<open>push\<close> takes
  effect when it commits, or when it finds the slot at the head held; until then the oldest frame
  may be dropped and the slot written, and after a rejection the drop is still to be counted.
\<close>

definition prod_sim :: "producer_pc \<Rightarrow> ring_queue \<Rightarrow> ring_queue \<Rightarrow> bool" where
  "prod_sim pc q a = (case pc of
     ProdRoom f \<Rightarrow> same_ring q a \<or> same_ring q (rq_room a)
   | ProdGuard f \<Rightarrow> same_ring q (rq_room a)
   | ProdWrite f \<Rightarrow> same_ring q (rq_room a) \<and> \<not> slot_in_use a ! head a
   | ProdCommit f \<Rightarrow> same_ring q (push_write (header_of_frame f) (fr_payload f) (rq_room a)) \<and> \<not> slot_in_use a ! head a
   | ProdCount f \<Rightarrow> same_ring (q\<lparr>frames_dropped := frames_dropped q + 1\<rparr>) a
   | _ \<Rightarrow> same_ring q a)"

text \<open>What \<open>push\<close> has checked so far.\<close>

definition prod_args :: "producer_pc \<Rightarrow> ring_queue \<Rightarrow> bool" where
  "prod_args pc q = (case pc of
     ProdIdle \<Rightarrow> True
   | ProdLock f \<Rightarrow> frame_ok q f
   | ProdEnter f \<Rightarrow> frame_ok q f
   | ProdRoom f \<Rightarrow> frame_ok q f \<and> \<not> shutdown_flag q
   | ProdGuard f \<Rightarrow> frame_ok q f \<and> \<not> shutdown_flag q
   | ProdWrite f \<Rightarrow> frame_ok q f \<and> \<not> shutdown_flag q
   | ProdCommit f \<Rightarrow> frame_ok q f \<and> \<not> shutdown_flag q
   | _ \<Rightarrow> True)"

definition pending_offer :: "producer_pc \<Rightarrow> frame list" where
  "pending_offer pc = (case pc of ProdSignal f \<Rightarrow> [f] | ProdUnlock f \<Rightarrow> [f] | ProdCount f \<Rightarrow> [f] | _ \<Rightarrow> [])"

text \<open>A \<open>pop\<close> takes effect when it takes the slot; its packet is returned later.\<close>

definition pending_packets :: "consumer_pc \<Rightarrow> ring_queue \<Rightarrow> FramePacket list" where
  "pending_packets pc q = (case pc of ConsUnlock idx hdr \<Rightarrow> [make_packet q idx hdr]
     | ConsMalloc idx hdr \<Rightarrow> [make_packet q idx hdr] | _ \<Rightarrow> [])"

definition with_frames :: "ring_queue \<Rightarrow> FramePacket list \<Rightarrow> (FramePacket \<times> frame) list" where
  "with_frames q ps = map (\<lambda>p. (p, packet_frame q p)) ps"

definition tq_sim :: "queue_threads \<Rightarrow> rq_run \<Rightarrow> bool" where
  "tq_sim s r \<longleftrightarrow> tq_mutex s \<and> tq_no_lost_wakeup s \<and> prod_args (tq_prod s) (tq_queue s)
     \<and> prod_sim (tq_prod s) (tq_queue s) (rr_queue r)
     \<and> rr_offered r = tq_offered s @ pending_offer (tq_prod s)
     \<and> rr_live r = tq_live s @ with_frames (rr_queue r) (pending_packets (tq_cons s) (rr_queue r))
     \<and> subseq (tq_delivered s @ map (packet_frame (rr_queue r)) (pending_packets (tq_cons s) (rr_queue r))) (rr_delivered r)"

text \<open>The atomic operations, by what they do to the run.\<close>

definition atomic_push :: "frame \<Rightarrow> rq_run \<Rightarrow> rq_run \<Rightarrow> bool" where
  "atomic_push f r r' \<longleftrightarrow> length (fr_payload f) < 2 ^ 32 \<and> (\<exists>ok a'. push_frame f (rr_queue r) = Some (ok, a')
     \<and> r' = r\<lparr>rr_queue := a', rr_offered := rr_offered r @ [f]\<rparr>)"

definition atomic_take :: "FramePacket \<Rightarrow> rq_run \<Rightarrow> rq_run \<Rightarrow> bool" where
  "atomic_take pkt r r' \<longleftrightarrow> 0 < rq_count (rr_queue r)
     \<and> pkt = make_packet (rr_queue r) (tail (rr_queue r)) (slot_header (rr_queue r) (tail (rr_queue r)))
     \<and> (\<exists>a'. a' = mutex_unlock (rq_pop_state (mutex_lock (rr_queue r)))
          \<and> r' = r\<lparr>rr_queue := a', rr_delivered := rr_delivered r @ [packet_frame a' pkt],
                   rr_live := rr_live r @ [(pkt, packet_frame a' pkt)]\<rparr>)"

definition atomic_free :: "FramePacket \<Rightarrow> rq_run \<Rightarrow> rq_run \<Rightarrow> bool" where
  "atomic_free pkt r r' \<longleftrightarrow> (\<exists>f. (pkt, f) \<in> set (rr_live r)
     \<and> r' = r\<lparr>rr_queue := frame_packet_free (Some pkt) (rr_queue r), rr_live := remove1 (pkt, f) (rr_live r)\<rparr>)"

lemma same_ring_refl [simp]: "same_ring q q"
  by (simp add: same_ring_def)

lemma same_ring_sync [simp]:
  "same_ring (mutex_lock q) a = same_ring q a" "same_ring (mutex_unlock q) a = same_ring q a"
  "same_ring (cond_notify q) a = same_ring q a" "same_ring q (mutex_lock a) = same_ring q a"
  "same_ring q (mutex_unlock a) = same_ring q a" "same_ring q (cond_notify a) = same_ring q a"
  "same_ring ((mutex_unlock q)\<lparr>frames_dropped := x\<rparr>) a = same_ring (q\<lparr>frames_dropped := x\<rparr>) a"
  by (simp_all add: same_ring_def)

lemma prod_sim_sync [simp]:
  "prod_sim pc (mutex_lock q) a = prod_sim pc q a" "prod_sim pc (mutex_unlock q) a = prod_sim pc q a"
  "prod_sim pc (cond_notify q) a = prod_sim pc q a"
  by (simp_all add: prod_sim_def split: producer_pc.split) (simp_all add: same_ring_def)

lemma frame_ok_sync [simp]:
  "frame_ok (mutex_lock q) f = frame_ok q f" "frame_ok (mutex_unlock q) f = frame_ok q f"
  "frame_ok (cond_notify q) f = frame_ok q f" "frame_ok (releaseSlot i q) f = frame_ok q f"
  by (simp_all add: frame_ok_def)

lemma prod_args_sync [simp]:
  "prod_args pc (mutex_lock q) = prod_args pc q" "prod_args pc (mutex_unlock q) = prod_args pc q"
  "prod_args pc (cond_notify q) = prod_args pc q"
  by (simp_all add: prod_args_def frame_ok_def split: producer_pc.split)

lemma rq_room_release: "rq_room (releaseSlot i a) = releaseSlot i (rq_room a)"
  by (simp add: rq_room_def releaseSlot_def drop_oldest_def)

lemma push_write_release: "push_write hdr bs (releaseSlot i a) = releaseSlot i (push_write hdr bs a)"
  by (simp add: push_write_def releaseSlot_def)

lemma same_ring_release: "same_ring q a \<Longrightarrow> same_ring (releaseSlot i q) (releaseSlot i a)"
  by (simp add: same_ring_def releaseSlot_def)

text \<open>Clearing a flag commutes with whatever the producer is doing.\<close>

lemma prod_sim_release:
  assumes "prod_sim pc q a"
  shows "prod_sim pc (releaseSlot i q) (releaseSlot i a)"
proof -
  have u: "\<not> slot_in_use a ! k \<Longrightarrow> \<not> slot_in_use (releaseSlot i a) ! k" for k
    by (cases "i = k"; cases "k < length (slot_in_use a)") (simp_all add: releaseSlot_def list_update_beyond)
  have h: "head (releaseSlot i a) = head a" by (simp add: releaseSlot_def)
  have d: "(releaseSlot i q)\<lparr>frames_dropped := frames_dropped (releaseSlot i q) + 1\<rparr>
      = releaseSlot i (q\<lparr>frames_dropped := frames_dropped q + 1\<rparr>)" by (simp add: releaseSlot_def)
  show ?thesis
    using assms u same_ring_release [of _ _ i] unfolding prod_sim_def
    by (cases pc) (auto simp: rq_room_release push_write_release d h)
qed

lemma prod_args_release [simp]: "prod_args pc (releaseSlot i q) = prod_args pc q"
  by (simp add: prod_args_def frame_ok_def split: producer_pc.split)

section \<open>Mutual exclusion and wake-ups\<close>

lemma wake_simps [simp]:
  "cons_locks (wake pc) = cons_locks pc" "wake pc \<noteq> ConsWait timeout"
  "pending_packets (wake pc) q = pending_packets pc q"
  by (simp_all add: wake_def pending_packets_def split: consumer_pc.split)

lemma prod_return_fields [simp]:
  "tq_queue (prod_return f s) = tq_queue s" "tq_cons (prod_return f s) = tq_cons s" "tq_main (prod_return f s) = tq_main s"
  "tq_prod (prod_return f s) = ProdIdle" "tq_offered (prod_return f s) = tq_offered s @ [f]"
  "tq_delivered (prod_return f s) = tq_delivered s" "tq_live (prod_return f s) = tq_live s"
  by (simp_all add: prod_return_def)

lemma frame_packet_free_sync [simp]:
  "mutex_locked (frame_packet_free pkt q) = mutex_locked q"
  by (simp add: frame_packet_free_def FramePacket_delete_def split: option.split)

lemma pop_take_sync: "pop_take q = (idx, hdr, q') \<Longrightarrow> mutex_locked q' = mutex_locked q"
  by (auto simp: pop_take_eq rq_pop_state_def)

lemma push_fields_sync [simp]:
  "mutex_locked (drop_oldest q) = mutex_locked q" "mutex_locked (push_commit q) = mutex_locked q"
  "rq_count (drop_oldest q) = rq_count q - 1" "shutdown_flag (drop_oldest q) = shutdown_flag q"
  by (simp_all add: drop_oldest_def push_commit_def)

lemma tq_mutex_step: "tq_step s t \<Longrightarrow> tq_mutex s \<Longrightarrow> tq_mutex t"
  unfolding tq_step_def
proof (elim disjE)
  assume "producer_thread s t" "tq_mutex s"
  then show "tq_mutex t" by cases (auto simp: tq_mutex_def of_bool_def split: if_splits)
next
  assume "consumer_thread s t" "tq_mutex s"
  then show "tq_mutex t"
    by cases (auto simp: tq_mutex_def of_bool_def pop_test_def dest: pop_take_sync split: if_splits)
next
  assume "shutdown_thread s t" "tq_mutex s"
  then show "tq_mutex t" by cases (auto simp: tq_mutex_def of_bool_def split: if_splits)
qed

lemma tq_wakeup_step: "tq_step s t \<Longrightarrow> tq_no_lost_wakeup s \<Longrightarrow> tq_no_lost_wakeup t"
  unfolding tq_step_def
proof (elim disjE)
  assume "producer_thread s t" "tq_no_lost_wakeup s"
  then show "tq_no_lost_wakeup t" by cases (auto simp: tq_no_lost_wakeup_def)
next
  assume "consumer_thread s t" "tq_no_lost_wakeup s"
  then show "tq_no_lost_wakeup t" by cases (auto simp: tq_no_lost_wakeup_def pop_test_def split: if_splits)
next
  assume "shutdown_thread s t" "tq_no_lost_wakeup s"
  then show "tq_no_lost_wakeup t" by cases (auto simp: tq_no_lost_wakeup_def)
qed

text \<open>Who holds the mutex keeps the others out of their critical sections.\<close>

lemma tq_mutex_excludes:
  assumes "tq_mutex s"
  shows "cons_locks (tq_cons s) \<Longrightarrow> \<not> prod_locks (tq_prod s) \<and> mutex_locked (tq_queue s)"
    and "main_locks (tq_main s) \<Longrightarrow> \<not> prod_locks (tq_prod s) \<and> mutex_locked (tq_queue s)"
    and "prod_locks (tq_prod s) \<Longrightarrow> \<not> cons_locks (tq_cons s) \<and> \<not> main_locks (tq_main s) \<and> mutex_locked (tq_queue s)"
  using assms by (auto simp: tq_mutex_def of_bool_def split: if_splits)

section \<open>Every access is matched\<close>

text \<open>The frames that taken slots show do not depend on what the producer is doing.\<close>

lemma prod_sim_packet:
  assumes "prod_sim pc q a" and "prod_args pc q" and "rq_inv a" and "packet_live a p"
  shows "packet_frame q p = packet_frame a p"
proof -
  have same: "packet_frame q p = packet_frame b p" if "same_ring q b" for b
    using that by (simp add: same_ring_def packet_frame_def rq_mem_def)
  have room: "packet_frame (rq_room a) p = packet_frame a p" by (simp add: packet_frame_def)
  show ?thesis
  proof (cases pc)
    case (ProdCommit f)
    let ?h = "header_of_frame f"
    have c: "same_ring q (push_write ?h (fr_payload f) (rq_room a))" "\<not> slot_in_use a ! head a" "frame_ok q f"
      using assms(1,2) ProdCommit by (simp_all add: prod_sim_def prod_args_def)
    then have "push_fits ?h (rq_room a)"
      using rq_room_inv(1) [OF assms(3)]
      by (simp add: push_fits_def rq_inv_def frame_ok_def header_of_frame_def unat_len same_ring_def)
    moreover have "packet_live (rq_room a) p" using assms(4) by (simp add: packet_live_def)
    ultimately have "packet_frame (push_write ?h (fr_payload f) (rq_room a)) p = packet_frame (rq_room a) p"
      using c(2) by (intro packet_survives_write) simp_all
    then show ?thesis using same [OF c(1)] room by simp
  next
    case (ProdCount f)
    then show ?thesis using assms(1) by (simp add: prod_sim_def same_ring_def packet_frame_def rq_mem_def)
  qed (use assms(1) same room in \<open>auto simp: prod_sim_def\<close>)
qed

text \<open>A step that changes neither the consumer nor the abstract queue's history.\<close>

lemma tq_simI:
  assumes "tq_sim s r" and "tq_step s t" and "prod_args (tq_prod t) (tq_queue t)"
    and "prod_sim (tq_prod t) (tq_queue t) (rr_queue r)"
    and "tq_offered t @ pending_offer (tq_prod t) = tq_offered s @ pending_offer (tq_prod s)"
    and "tq_live t = tq_live s" and "tq_delivered t = tq_delivered s"
    and "pending_packets (tq_cons t) (rr_queue r) = pending_packets (tq_cons s) (rr_queue r)"
  shows "tq_sim t r"
  using assms tq_mutex_step [OF assms(2)] tq_wakeup_step [OF assms(2)] by (simp add: tq_sim_def)

text \<open>A step with which a \<open>push\<close> takes effect.\<close>

lemma tq_sim_push:
  assumes sim: "tq_sim s r" and inv: "rr_inv r" and step: "tq_step s t"
    and p: "push_frame f (rr_queue r) = Some (ok, a')" and len: "length (fr_payload f) < 2 ^ 32"
    and "prod_args (tq_prod t) (tq_queue t)" and "prod_sim (tq_prod t) (tq_queue t) a'"
    and "tq_offered t @ pending_offer (tq_prod t) = tq_offered s @ pending_offer (tq_prod s) @ [f]"
    and same: "tq_live t = tq_live s" "tq_delivered t = tq_delivered s" "tq_cons t = tq_cons s"
  shows "\<exists>f r'. atomic_push f r r' \<and> tq_sim t r'"
proof -
  let ?r = "r\<lparr>rr_queue := a', rr_offered := rr_offered r @ [f]\<rparr>"
  let ?ps = "pending_packets (tq_cons s) (rr_queue r)"
  have r: "atomic_push f r ?r" using len p by (auto simp: atomic_push_def)
  have a: "rq_inv (rr_queue r)" "\<not> mutex_locked (rr_queue r)" using inv by (simp_all add: rr_inv_def)
  have live: "rr_live r = tq_live s @ with_frames (rr_queue r) ?ps" using sim by (simp add: tq_sim_def)
  have "packet_frame a' p = packet_frame (rr_queue r) p" if "p \<in> set ?ps" for p
    using push_frame_keeps [OF a len p] rr_inv_live [OF inv, of p] live that by (auto simp: with_frames_def)
  moreover have "slot_stride a' = slot_stride (rr_queue r)"
    using push_frame_limit [OF a len p] by simp
  then have "pending_packets (tq_cons s) a' = ?ps"
    by (simp add: pending_packets_def make_packet_def split: consumer_pc.split)
  ultimately have "with_frames a' (pending_packets (tq_cons s) a') = with_frames (rr_queue r) ?ps"
    "map (packet_frame a') (pending_packets (tq_cons s) a') = map (packet_frame (rr_queue r)) ?ps"
    by (simp_all add: with_frames_def)
  then have "tq_sim t ?r"
    using assms tq_mutex_step [OF step] tq_wakeup_step [OF step] by (simp add: tq_sim_def)
  then show ?thesis using r by blast
qed

lemma same_ring_frame_ok: "same_ring q a \<Longrightarrow> frame_ok q f = frame_ok a f \<and> shutdown_flag q = shutdown_flag a"
  by (simp add: same_ring_def frame_ok_def)

lemma frame_ok_room [simp]: "frame_ok (rq_room a) f = frame_ok a f"
  by (simp add: frame_ok_def)

text \<open>The producer finds the slot at the head held: the push has no effect but the count.\<close>

lemma push_rejected:
  assumes "rq_inv a" and "same_ring q (rq_room a)" and "frame_ok q f" and "\<not> shutdown_flag q"
    and "slot_in_use q ! head q"
  shows "\<exists>a'. push_frame f a = Some (False, a') \<and> same_ring (q\<lparr>frames_dropped := frames_dropped q + 1\<rparr>) a'"
proof -
  have "frame_ok a f" "\<not> shutdown_flag a" "slot_in_use a ! head a"
    using assms same_ring_frame_ok [OF assms(2), of f] by (simp_all add: same_ring_def)
  then have "push_frame f a = Some (False, push_reject (mutex_lock (rq_room a)))"
    using push_frame_eq [OF assms(1)] by simp
  then show ?thesis using assms(2) by (simp add: push_reject_def same_ring_def)
qed

lemma push_accepted:
  assumes "rq_inv a" and "same_ring q (push_write (header_of_frame f) (fr_payload f) (rq_room a))"
    and "frame_ok q f" and "\<not> shutdown_flag q" and "\<not> slot_in_use a ! head a"
  shows "\<exists>a'. push_frame f a = Some (True, a') \<and> same_ring (push_commit q) a'"
proof -
  let ?w = "\<lambda>b. push_write (header_of_frame f) (fr_payload f) b"
  have "frame_ok a f" "\<not> shutdown_flag a"
    using assms(2-4) same_ring_frame_ok [OF assms(2), of f] by (simp_all add: frame_ok_def)
  then have "push_frame f a = Some (True, mutex_unlock (cond_notify (push_commit (?w (mutex_lock (rq_room a))))))"
    using push_frame_eq [OF assms(1)] assms(5) by simp
  moreover have "?w (mutex_lock (rq_room a)) = mutex_lock (?w (rq_room a))"
    by (simp add: push_write_def mutex_lock_def)
  moreover have "same_ring (push_commit q) (push_commit (mutex_lock (?w (rq_room a))))"
    using assms(2) by (simp add: same_ring_def push_commit_def)
  ultimately show ?thesis by auto
qed

text \<open>The loop that makes room runs at most once, and never meets a held slot.\<close>

lemma room_cases:
  assumes "rq_inv a" and "same_ring q a \<or> same_ring q (rq_room a)"
  shows "rq_count q < capacity q \<Longrightarrow> same_ring q (rq_room a)"
    and "\<not> rq_count q < capacity q \<Longrightarrow> \<not> slot_in_use q ! tail q \<and> same_ring (drop_oldest q) (rq_room a)"
proof -
  assume c: "rq_count q < capacity q"
  show "same_ring q (rq_room a)"
    using assms(2) c by (auto simp: rq_room_def same_ring_def)
next
  assume c: "\<not> rq_count q < capacity q"
  have "\<not> same_ring q (rq_room a)" using rq_room_inv(2) [OF assms(1)] c by (auto simp: same_ring_def)
  then have s: "same_ring q a" using assms(2) by blast
  then have "0 < rq_count a" "\<not> rq_count a < capacity a" using assms(1) c by (auto simp: same_ring_def rq_inv_def)
  then show "\<not> slot_in_use q ! tail q \<and> same_ring (drop_oldest q) (rq_room a)"
    using s tail_not_in_use [OF assms(1)] by (simp add: same_ring_def rq_room_def drop_oldest_def)
qed

text \<open>A step of the producer has no effect yet, or is the one with which its \<open>push\<close> takes effect.\<close>

lemma tq_sim_producer:
  assumes sim: "tq_sim s r" and inv: "rr_inv r" and step: "producer_thread s t"
  shows "tq_sim t r \<or> (\<exists>f r'. atomic_push f r r' \<and> tq_sim t r')"
proof -
  have a: "rq_inv (rr_queue r)" "\<not> mutex_locked (rr_queue r)" using inv by (simp_all add: rr_inv_def)
  have st: "tq_step s t" using step by (simp add: tq_step_def)
  have pa: "prod_args (tq_prod s) (tq_queue s)" and ps: "prod_sim (tq_prod s) (tq_queue s) (rr_queue r)"
    using sim by (simp_all add: tq_sim_def)
  note stutter = disjI1 [OF tq_simI [OF sim st]] and effect = disjI2 [OF tq_sim_push [OF sim inv st]]
  show ?thesis
    using step
  proof cases
    case (push_refuses f)
    then have "\<not> (frame_ok (rr_queue r) f \<and> \<not> shutdown_flag (rr_queue r))"
      using ps by (simp add: prod_sim_def same_ring_frame_ok)
    from effect [OF push_frame_refused [OF this a(2) push_refuses(3)] push_refuses(3)] show ?thesis
      using push_refuses ps by (simp_all add: prod_args_def prod_sim_def pending_offer_def)
  next
    case (push_shut f)
    then have "\<not> (frame_ok (rr_queue r) f \<and> \<not> shutdown_flag (rr_queue r))" and "length (fr_payload f) < 2 ^ 32"
      using ps pa by (simp_all add: prod_sim_def prod_args_def same_ring_def frame_ok_def)
    from effect [OF push_frame_refused [OF this(1) a(2) this(2)] this(2)] show ?thesis
      using push_shut ps by (simp_all add: prod_args_def prod_sim_def pending_offer_def)
  next
    case (push_tail_held f)
    then show ?thesis using room_cases(2) [OF a(1), of "tq_queue s"] ps by (simp add: prod_sim_def)
  next
    case (push_drops f)
    then show ?thesis
      using room_cases(2) [OF a(1), of "tq_queue s"] ps pa
      by (intro stutter) (simp_all add: prod_sim_def prod_args_def frame_ok_def, simp add: drop_oldest_def)
  next
    case (push_has_room f)
    then show ?thesis
      using room_cases(1) [OF a(1), of "tq_queue s"] ps pa
      by (intro stutter) (simp_all add: prod_sim_def prod_args_def pending_offer_def)
  next
    case (push_head_held f)
    then obtain a' where p: "push_frame f (rr_queue r) = Some (False, a')"
      "same_ring ((tq_queue s)\<lparr>frames_dropped := frames_dropped (tq_queue s) + 1\<rparr>) a'"
      using push_rejected [OF a(1), of "tq_queue s" f] ps pa by (auto simp: prod_sim_def prod_args_def)
    with effect [OF p(1)] show ?thesis
      using push_head_held pa by (simp add: prod_args_def frame_ok_def prod_sim_def pending_offer_def)
  next
    case (push_commits f)
    then obtain a' where p: "push_frame f (rr_queue r) = Some (True, a')" "same_ring (push_commit (tq_queue s)) a'"
      using push_accepted [OF a(1), of "tq_queue s" f] ps pa by (auto simp: prod_sim_def prod_args_def)
    with effect [OF p(1)] show ?thesis
      using push_commits pa by (simp add: prod_args_def frame_ok_def prod_sim_def pending_offer_def)
  next
    case (push_head_free f)
    then show ?thesis
      using ps pa by (intro stutter) (simp_all add: prod_sim_def prod_args_def pending_offer_def same_ring_def)
  next
    case (push_writes f)
    then have "same_ring (push_write (header_of_frame f) (fr_payload f) (tq_queue s))
        (push_write (header_of_frame f) (fr_payload f) (rq_room (rr_queue r)))"
      using ps by (simp add: prod_sim_def same_ring_def push_write_def rq_mem_def)
    then show ?thesis
      using push_writes ps pa by (intro stutter) (simp_all add: prod_sim_def prod_args_def pending_offer_def frame_ok_def)
  qed (rule stutter; use ps pa in \<open>simp add: prod_sim_def prod_args_def pending_offer_def\<close>)+
qed

text \<open>Steps of the others while the producer is outside its critical section.\<close>

lemma prod_sim_pop:
  assumes "\<not> prod_locks pc" and "prod_sim pc q a"
  shows "prod_sim pc (rq_pop_state q) (mutex_unlock (rq_pop_state (mutex_lock a)))"
proof -
  have "rq_pop_state (mutex_lock a) = mutex_lock (rq_pop_state a)" by (simp add: rq_pop_state_def mutex_lock_def)
  then show ?thesis
    using assms by (cases pc) (simp_all add: prod_sim_def same_ring_def rq_pop_state_def)
qed

lemma prod_sim_shutdown:
  assumes "\<not> prod_locks pc" and "prod_sim pc q a"
  shows "prod_sim pc (q\<lparr>shutdown_flag := True\<rparr>) (rq_shutdown a)"
  using assms by (cases pc) (simp_all add: prod_sim_def same_ring_def rq_shutdown_def mutex_lock_def mutex_unlock_def cond_notify_def)

lemma prod_args_unlocked: "\<not> prod_locks pc \<Longrightarrow> max_frame_size q' = max_frame_size q \<Longrightarrow> prod_args pc q' = prod_args pc q"
  by (cases pc) (simp_all add: prod_args_def frame_ok_def)

lemma prod_sim_stride: "prod_sim pc q a \<Longrightarrow> slot_stride q = slot_stride a"
  by (cases pc) (auto simp: prod_sim_def same_ring_def)

lemma make_packet_cong: "slot_stride q = slot_stride a \<Longrightarrow> make_packet q idx hdr = make_packet a idx hdr"
  by (simp add: make_packet_def)

lemma make_packet_release [simp]: "frame_packet_free (Some (make_packet q idx hdr)) a = releaseSlot idx a"
  by (simp add: frame_packet_free_def FramePacket_delete_def make_packet_def)

lemma pending_none:
  "pop_test timeout q = pc \<Longrightarrow> pending_packets pc = (\<lambda>a. [])"
  by (auto simp: pop_test_def pending_packets_def)

text \<open>The taking of a slot is an atomic \<open>pop\<close>, with any timeout and in any environment that does not wait.\<close>

lemma atomic_take_pop:
  fixes w :: 'w
  assumes "rr_inv r" and "atomic_take pkt r r'" and "timeout \<noteq> 0"
  obtains q' w' where "pop (nowait_env :: 'w rq_env) timeout w (rr_queue r) = Some (Some pkt, q', w')"
    "r' = r\<lparr>rr_queue := q', rr_delivered := rr_delivered r @ [packet_frame q' pkt],
             rr_live := rr_live r @ [(pkt, packet_frame q' pkt)]\<rparr>"
proof -
  let ?a = "rr_queue r"
  have l: "rq_inv (mutex_lock ?a)" "0 < rq_count (mutex_lock ?a)" and b: "mmap_base ?a \<noteq> None" "0 < rq_count ?a"
    using assms(1,2) by (simp_all add: rr_inv_def atomic_take_def) (simp add: rq_inv_def rq_geometry_def)
  obtain w1 where "pop (nowait_env :: 'w rq_env) timeout w ?a = Some (pop_finish nowait_env w1 (mutex_lock ?a))"
    using pop_ready [OF b, of timeout nowait_env w] assms(3) by blast
  moreover have "malloc_packet (nowait_env :: 'w rq_env) w1 = (True, w1)" by (simp add: nowait_env_def)
  note pop_finish_take [OF l this]
  moreover have "make_packet (mutex_unlock (rq_pop_state (mutex_lock ?a))) (tail (mutex_lock ?a)) (slot_header (mutex_lock ?a) (tail (mutex_lock ?a))) = pkt"
    using assms(2) by (simp add: atomic_take_def make_packet_def rq_pop_state_def slot_header_def)
  ultimately show thesis using that assms(2) by (simp add: atomic_take_def)
qed

lemma atomic_steps:
  assumes "rr_inv r"
  shows "atomic_push f r r' \<Longrightarrow> rq_step r r'" and "atomic_take pkt r r' \<Longrightarrow> rq_step r r'"
    and "atomic_free pkt r r' \<Longrightarrow> rq_step r r'"
proof -
  show "atomic_push f r r' \<Longrightarrow> rq_step r r'" by (auto simp: atomic_push_def intro: step_push)
  show "atomic_free pkt r r' \<Longrightarrow> rq_step r r'" by (auto simp: atomic_free_def intro: step_free)
  assume t: "atomic_take pkt r r'"
  have "(1 :: int) \<noteq> 0" by simp
  then obtain q' w' where "pop (nowait_env :: nat rq_env) 1 0 (rr_queue r) = Some (Some pkt, q', w')"
    "r' = r\<lparr>rr_queue := q', rr_delivered := rr_delivered r @ [packet_frame q' pkt],
             rr_live := rr_live r @ [(pkt, packet_frame q' pkt)]\<rparr>"
    by (rule atomic_take_pop [OF assms t])
  then show "rq_step r r'" using step_pop [OF nowait_env_idle] by simp
qed

lemma tq_sim_take:
  assumes sim: "tq_sim s r" and inv: "rr_inv r" and step: "tq_step s t"
    and pc: "tq_cons s = ConsTake" and n: "rq_count (tq_queue s) \<noteq> 0" and take: "pop_take (tq_queue s) = (idx, hdr, q')"
    and t: "t = s\<lparr>tq_queue := q', tq_cons := ConsUnlock idx hdr\<rparr>"
  shows "\<exists>r'. atomic_take (make_packet (rr_queue r) idx hdr) r r' \<and> tq_sim t r'"
proof -
  let ?q = "tq_queue s" and ?a = "rr_queue r"
  let ?a' = "mutex_unlock (rq_pop_state (mutex_lock ?a))"
  let ?p = "make_packet ?a idx hdr"
  let ?r = "r\<lparr>rr_queue := ?a', rr_delivered := rr_delivered r @ [packet_frame ?a' ?p], rr_live := rr_live r @ [(?p, packet_frame ?a' ?p)]\<rparr>"
  have ps: "prod_sim (tq_prod s) ?q ?a" and out: "\<not> prod_locks (tq_prod s)"
    using sim tq_mutex_excludes(1) [of s] pc by (simp_all add: tq_sim_def)
  have same: "tail ?q = tail ?a" "rq_count ?q = rq_count ?a" "slot_header ?q = slot_header ?a"
    using ps out by (cases "tq_prod s"; auto simp: prod_sim_def same_ring_def slot_header_def rq_mem_def)+
  have eq: "idx = tail ?a" "hdr = slot_header ?a (tail ?a)" "q' = rq_pop_state ?q"
    using take same by (auto simp: pop_take_eq slot_header_def)
  have r: "atomic_take ?p r ?r" using n same(2) by (simp add: atomic_take_def eq)
  have "make_packet ?a' idx hdr = ?p" by (simp add: make_packet_def rq_pop_state_def)
  then have "tq_sim t ?r"
    using sim tq_mutex_step [OF step] tq_wakeup_step [OF step] prod_sim_pop [OF out ps]
      prod_args_unlocked [OF out, of "rq_pop_state ?q" ?q] pc
    by (simp add: tq_sim_def t eq(3) pending_packets_def with_frames_def subseq_append_right)
  then show ?thesis using r by blast
qed

text \<open>Clearing a flag is an atomic release, whatever the producer is doing meanwhile.\<close>

lemma tq_sim_free:
  assumes sim: "tq_sim s r" and step: "tq_step s t" and free: "(pkt, f) \<in> set (rr_live r)"
    and rel: "frame_packet_free (Some pkt) = releaseSlot idx"
    and t: "tq_queue t = releaseSlot idx (tq_queue s)" "tq_prod t = tq_prod s" "tq_offered t = tq_offered s"
    and live: "remove1 (pkt, f) (rr_live r) = tq_live t" and "pending_packets (tq_cons t) (rr_queue r) = []"
    and "subseq (tq_delivered t) (rr_delivered r)"
  shows "\<exists>r'. atomic_free pkt r r' \<and> tq_sim t r'"
proof -
  let ?r = "r\<lparr>rr_queue := frame_packet_free (Some pkt) (rr_queue r), rr_live := remove1 (pkt, f) (rr_live r)\<rparr>"
  have r: "atomic_free pkt r ?r" using free by (auto simp: atomic_free_def)
  have "pending_packets (tq_cons t) (releaseSlot idx (rr_queue r)) = []"
    using assms(9) by (simp add: pending_packets_def split: consumer_pc.splits)
  moreover have "prod_args (tq_prod s) (tq_queue s)" "prod_sim (tq_prod s) (tq_queue s) (rr_queue r)"
    "rr_offered r = tq_offered s @ pending_offer (tq_prod s)" "tq_mutex t" "tq_no_lost_wakeup t"
    using sim tq_mutex_step [OF step] tq_wakeup_step [OF step] by (simp_all add: tq_sim_def)
  ultimately have "tq_sim t ?r"
    using prod_sim_release [of _ _ _ idx] assms(10) by (simp add: tq_sim_def t rel live with_frames_def)
  then show ?thesis using r by blast
qed

text \<open>
  A step of the consumer takes a slot, releases it for want of memory, returns the packet, frees
  one, or has no effect.
\<close>

definition cons_effect :: "queue_threads \<Rightarrow> queue_threads \<Rightarrow> rq_run \<Rightarrow> rq_run \<Rightarrow> bool" where
  "cons_effect s t r r' \<longleftrightarrow>
     (r' = r \<and> tq_live t = tq_live s \<and> pending_packets (tq_cons t) = pending_packets (tq_cons s))
   \<or> (\<exists>idx hdr f. r' = r \<and> tq_cons s = ConsMalloc idx hdr \<and> tq_cons t = ConsIdle
        \<and> tq_live t = tq_live s @ [(make_packet (rr_queue r) idx hdr, f)])
   \<or> (\<exists>idx hdr. tq_cons s = ConsTake \<and> tq_cons t = ConsUnlock idx hdr \<and> tq_live t = tq_live s
        \<and> atomic_take (make_packet (rr_queue r) idx hdr) r r')
   \<or> (\<exists>idx hdr. tq_cons s = ConsMalloc idx hdr \<and> tq_cons t = ConsIdle \<and> tq_live t = tq_live s
        \<and> atomic_free (make_packet (rr_queue r) idx hdr) r r')
   \<or> (\<exists>pkt. tq_cons s = ConsIdle \<and> tq_cons t = ConsIdle \<and> atomic_free pkt r r')"

lemma tq_sim_consumer:
  assumes sim: "tq_sim s r" and inv: "rr_inv r" and step: "consumer_thread s t"
  shows "\<exists>r'. cons_effect s t r r' \<and> tq_sim t r'"
proof -
  let ?a = "rr_queue r"
  have st: "tq_step s t" using step by (simp add: tq_step_def)
  have pa: "prod_args (tq_prod s) (tq_queue s)" and ps: "prod_sim (tq_prod s) (tq_queue s) ?a"
    and live: "rr_live r = tq_live s @ with_frames ?a (pending_packets (tq_cons s) ?a)"
    and del: "subseq (tq_delivered s @ map (packet_frame ?a) (pending_packets (tq_cons s) ?a)) (rr_delivered r)"
    using sim by (simp_all add: tq_sim_def)
  have stutter: ?thesis if "prod_args (tq_prod s) (tq_queue t)" "prod_sim (tq_prod s) (tq_queue t) ?a"
    "tq_prod t = tq_prod s" "tq_offered t = tq_offered s" "tq_live t = tq_live s" "tq_delivered t = tq_delivered s"
    "pending_packets (tq_cons t) = pending_packets (tq_cons s)"
    using that tq_simI [OF sim st] by (intro exI [of _ r]) (simp add: cons_effect_def)
  note free = tq_sim_free [OF sim st]
  show ?thesis
    using step
  proof cases
    case (pop_tests timeout pc)
    then show ?thesis
      using ps pa pending_none [OF pop_tests(3)] pending_packets_def [of "ConsTest timeout"]
      by (intro stutter) (auto split: consumer_pc.split)
  next
    case (pop_takes idx hdr q')
    from tq_sim_take [OF sim inv st pop_takes(2-4,1)] pop_takes(1,2) show ?thesis by (auto simp: cons_effect_def)
  next
    case (pop_malloc_fails idx hdr)
    let ?p = "make_packet ?a idx hdr"
    have l: "rr_live r = tq_live s @ [(?p, packet_frame ?a ?p)]"
      using live pop_malloc_fails(2) by (simp add: pending_packets_def with_frames_def)
    then have "(?p, packet_frame ?a ?p) \<notin> set (tq_live s)"
      using inv by (force simp: rr_inv_def live_slots_def)
    then have "remove1 (?p, packet_frame ?a ?p) (rr_live r) = tq_live s" by (simp add: l remove1_append)
    then have "\<exists>r'. atomic_free ?p r r' \<and> tq_sim t r'"
      using pop_malloc_fails l del subseq_without_last
      by (intro free [of ?p "packet_frame ?a ?p" idx]) (auto simp: pending_packets_def fun_eq_iff)
    then show ?thesis using pop_malloc_fails(1,2) by (auto simp: cons_effect_def)
  next
    case (pop_returns idx hdr pkt f)
    have pkt: "pkt = make_packet ?a idx hdr"
      using pop_returns(3) make_packet_cong [OF prod_sim_stride [OF ps]] by simp
    then have "(pkt, packet_frame ?a pkt) \<in> set (rr_live r)"
      using live pop_returns(2) by (simp add: pending_packets_def with_frames_def)
    then have "packet_live ?a pkt" using rr_inv_live [OF inv] by blast
    then have f: "f = packet_frame ?a pkt"
      using prod_sim_packet [OF ps pa] inv pop_returns(4) by (simp add: rr_inv_def)
    then have "tq_sim t r"
      using sim tq_mutex_step [OF st] tq_wakeup_step [OF st] pkt pop_returns(1,2)
      by (simp add: tq_sim_def pending_packets_def with_frames_def)
    then show ?thesis using pop_returns(1,2) pkt by (intro exI [of _ r]) (simp add: cons_effect_def)
  next
    case (packet_frees pkt f)
    have l: "rr_live r = tq_live s" using live packet_frees(2) by (simp add: pending_packets_def with_frames_def)
    then have mem: "(pkt, f) \<in> set (rr_live r)" using packet_frees(3) by simp
    then have rel: "frame_packet_free (Some pkt) = releaseSlot (pkt_slot_idx pkt)"
      using rr_inv_live [OF inv mem] by (auto simp: packet_live_def frame_packet_free_def FramePacket_delete_def fun_eq_iff)
    then have "\<exists>r'. atomic_free pkt r r' \<and> tq_sim t r'"
      using packet_frees l del by (intro free [OF mem rel]) (simp_all add: pending_packets_def)
    then show ?thesis using packet_frees(1,2) by (auto simp: cons_effect_def)
  qed (rule stutter; use ps pa in \<open>simp add: pending_packets_def fun_eq_iff\<close>)+
qed

lemma tq_sim_shutdown:
  assumes sim: "tq_sim s r" and step: "shutdown_thread s t"
  shows "if tq_main s = ShutStore then tq_main t = ShutUnlock \<and> tq_sim t (r\<lparr>rr_queue := rq_shutdown (rr_queue r)\<rparr>)
    else tq_main t \<noteq> ShutUnlock \<and> tq_sim t r"
proof -
  have st: "tq_step s t" using step by (simp add: tq_step_def)
  have pa: "prod_args (tq_prod s) (tq_queue s)" and ps: "prod_sim (tq_prod s) (tq_queue s) (rr_queue r)"
    using sim by (simp_all add: tq_sim_def)
  note stutter = tq_simI [OF sim st]
  show ?thesis
    using step
  proof cases
    case shutdown_stores
    have out: "\<not> prod_locks (tq_prod s)"
      using sim tq_mutex_excludes(2) [of s] shutdown_stores(2) by (simp add: tq_sim_def)
    have "pending_packets pc (rq_shutdown a) = pending_packets pc a" for pc a
      by (simp add: pending_packets_def make_packet_def split: consumer_pc.split)
    then have "tq_sim t (r\<lparr>rr_queue := rq_shutdown (rr_queue r)\<rparr>)"
      using sim tq_mutex_step [OF st] tq_wakeup_step [OF st] prod_sim_shutdown [OF out ps]
        prod_args_unlocked [OF out, of "(tq_queue s)\<lparr>shutdown_flag := True\<rparr>" "tq_queue s"] shutdown_stores
      by (simp add: tq_sim_def with_frames_def)
    then show ?thesis using shutdown_stores by simp
  next
    case shutdown_locks
    then show ?thesis using stutter ps pa by simp
  next
    case shutdown_unlocks
    then show ?thesis using stutter ps pa by simp
  next
    case shutdown_broadcasts
    then show ?thesis using stutter ps pa by simp
  qed
qed

section \<open>The threads refine the atomic operations\<close>

lemma tq_sim_step:
  assumes "tq_sim s r" and inv: "rr_inv r" and "tq_step s t"
  shows "\<exists>r'. rq_step\<^sup>*\<^sup>* r r' \<and> tq_sim t r'"
proof -
  consider "producer_thread s t" | "consumer_thread s t" | "shutdown_thread s t" using assms(3) by (auto simp: tq_step_def)
  then show ?thesis
  proof cases
    case 1
    then show ?thesis using tq_sim_producer [OF assms(1,2)] atomic_steps(1) [OF inv] by blast
  next
    case 2
    then obtain r' where "cons_effect s t r r'" "tq_sim t r'" using tq_sim_consumer [OF assms(1,2)] by blast
    moreover have "rq_step\<^sup>*\<^sup>* r r'"
      using \<open>cons_effect s t r r'\<close> atomic_steps(2,3) [OF inv] unfolding cons_effect_def by blast
    ultimately show ?thesis by blast
  next
    case 3
    then show ?thesis using tq_sim_shutdown [OF assms(1)] step_shutdown [of r] by (metis r_into_rtranclp rtranclp.rtrancl_refl)
  qed
qed

lemma tq_init_sim:
  assumes "tq_init s"
  shows "\<exists>r. rr_init r \<and> tq_sim s r"
proof -
  let ?r = "\<lparr>rr_queue = tq_queue s, rr_offered = [], rr_delivered = [], rr_live = []\<rparr>"
  have "rr_init ?r" using assms by (simp add: tq_init_def rr_init_def)
  moreover have "tq_sim s ?r"
    using assms by (simp add: tq_init_def tq_sim_def tq_mutex_def tq_no_lost_wakeup_def prod_args_def prod_sim_def
        pending_offer_def pending_packets_def with_frames_def)
  ultimately show ?thesis by blast
qed

interpretation queue_threads: forward_simulation tq_init tq_step rr_init rq_step tq_sim
proof unfold_locales
  fix s assume "tq_init s"
  then show "\<exists>r. rr_init r \<and> tq_sim s r" by (rule tq_init_sim)
next
  fix r s t assume "reach rr_init rq_step r" and "tq_sim s r" and "tq_step s t"
  then show "\<exists>r'. rq_step\<^sup>*\<^sup>* r r' \<and> tq_sim t r'"
    using rq_runs.inv_reach tq_sim_step by blast
qed

lemma threads_simulated:
  assumes "reach tq_init tq_step s"
  obtains r where "reach rr_init rq_step r" "rr_inv r" "tq_sim s r"
  using queue_threads.sim_reach [OF assms] rq_runs.inv_reach by blast

text \<open>
  C3. Producer, consumer and the thread that shuts the queue down, interleaved in any way between
  their steps, refine the atomic operations: every state the threads reach is matched by one that
  atomic pushes, pops, frees and shutdowns reach. In it the frames of the finished pushes were
  offered in their order, then the frame of a push that has taken effect and has not returned; the
  packets the consumer holds are out with the same contents, then the one a pop has taken
  and not returned; and the ring is the one of the atomic run up to what the push under way has
  already done to it (\<open>prod_sim\<close>: nothing, the oldest frame dropped, the slot at the head
  written, the refusal not yet counted). The frames the consumer was given were delivered in their
  order, among others only those a pop took and lost again because no packet could be allocated.
  While no push is under way the ring is the same, its counters included, and nothing else was
  offered; while no pop is under way nothing else is out.
\<close>

theorem threads_refine_atomic_queue:
  assumes "reach tq_init tq_step s"
  shows "\<exists>r. reach rr_init rq_step r
    \<and> rr_offered r = tq_offered s @ pending_offer (tq_prod s)
    \<and> rr_live r = tq_live s @ with_frames (rr_queue r) (pending_packets (tq_cons s) (rr_queue r))
    \<and> subseq (tq_delivered s) (rr_delivered r)
    \<and> prod_sim (tq_prod s) (tq_queue s) (rr_queue r)
    \<and> (tq_prod s = ProdIdle \<longrightarrow> rr_offered r = tq_offered s \<and> same_ring (tq_queue s) (rr_queue r))
    \<and> (tq_cons s = ConsIdle \<longrightarrow> rr_live r = tq_live s)"
proof -
  obtain r where r: "reach rr_init rq_step r" "tq_sim s r" using threads_simulated [OF assms] by blast
  moreover from r(2) have "subseq (tq_delivered s) (rr_delivered r)"
    unfolding tq_sim_def using subseq_without_last by blast
  moreover from r(2) have "tq_prod s = ProdIdle \<longrightarrow> same_ring (tq_queue s) (rr_queue r)"
    by (auto simp: tq_sim_def prod_sim_def)
  ultimately show ?thesis
    by (intro exI [of _ r]) (simp add: tq_sim_def pending_offer_def pending_packets_def with_frames_def)
qed

section \<open>No data race\<close>

text \<open>The bytes from \<open>a\<close> on, \<open>n\<close> of them, and those from \<open>b\<close> on have none in common.\<close>

definition bytes_apart :: "nat \<Rightarrow> nat \<Rightarrow> nat \<Rightarrow> nat \<Rightarrow> bool" where
  "bytes_apart a n b m \<longleftrightarrow> a + n \<le> b \<or> b + m \<le> a"

lemma slots_apart:
  assumes "i \<noteq> j" and "28 + n \<le> stride" and "28 + m \<le> stride"
  shows "bytes_apart (slotHdr stride i) (28 + n) (slotData stride j) m"
  using slot_apart [OF assms(1), of stride] assms(2,3) by (auto simp: bytes_apart_def slotHdr_def slotData_def)

lemma tq_sim_race_free:
  assumes r: "rr_inv r" "tq_sim s r"
  shows "of_bool (prod_locks (tq_prod s)) + of_bool (cons_locks (tq_cons s)) + of_bool (main_locks (tq_main s)) \<le> (1 :: nat)
    \<and> (\<forall>f. tq_prod s = ProdWrite f \<longrightarrow>
         list_all (\<lambda>p. bytes_apart (slotHdr (slot_stride (tq_queue s)) (head (tq_queue s)))
                         (sizeof_SlotHeader + length (fr_payload f)) (pkt_data p) (unat (pkt_len p)))
           (map fst (tq_live s) @ pending_packets (tq_cons s) (tq_queue s)))
    \<and> list_all (\<lambda>(p, f). packet_frame (tq_queue s) p = f) (tq_live s)"
proof (intro conjI allI impI)
  let ?q = "tq_queue s" and ?a = "rr_queue r"
  have ps: "prod_sim (tq_prod s) ?q ?a" and pa: "prod_args (tq_prod s) ?q" and a: "rq_inv ?a"
    and live: "rr_live r = tq_live s @ with_frames ?a (pending_packets (tq_cons s) ?a)"
    using r by (simp_all add: tq_sim_def rr_inv_def)
  show "of_bool (prod_locks (tq_prod s)) + of_bool (cons_locks (tq_cons s)) + of_bool (main_locks (tq_main s)) \<le> (1 :: nat)"
    using r(2) by (simp add: tq_sim_def tq_mutex_def)
  show "list_all (\<lambda>(p, f). packet_frame ?q p = f) (tq_live s)"
    using rr_inv_live [OF r(1)] prod_sim_packet [OF ps pa a] by (auto simp: list_all_iff live)
  fix f assume f: "tq_prod s = ProdWrite f"
  have "pending_packets (tq_cons s) ?q = pending_packets (tq_cons s) ?a"
    by (simp add: pending_packets_def make_packet_cong [OF prod_sim_stride [OF ps]] split: consumer_pc.split)
  then have out: "set (map fst (tq_live s) @ pending_packets (tq_cons s) ?q) = set (map fst (rr_live r))"
    by (auto simp: live with_frames_def image_iff)
  have q: "same_ring ?q (rq_room ?a)" "\<not> slot_in_use ?a ! head ?a" "frame_ok ?q f"
    using ps pa f by (simp_all add: prod_sim_def prod_args_def)
  have g: "28 + max_frame_size ?a \<le> slot_stride ?a" using a by (simp add: rq_inv_def rq_geometry_def)
  show "list_all (\<lambda>p. bytes_apart (slotHdr (slot_stride ?q) (head ?q)) (sizeof_SlotHeader + length (fr_payload f))
      (pkt_data p) (unat (pkt_len p))) (map fst (tq_live s) @ pending_packets (tq_cons s) ?q)"
    unfolding list_all_iff out
  proof
    fix p assume "p \<in> set (map fst (rr_live r))"
    then have p: "packet_live ?a p" using rr_inv_live [OF r(1)] by auto
    then have "head ?a \<noteq> pkt_slot_idx p" using q(2) by (auto simp: packet_live_def rq_held_eq)
    moreover have "28 + length (fr_payload f) \<le> slot_stride ?a" "28 + unat (pkt_len p) \<le> slot_stride ?a"
      using q(1,3) g p by (simp_all add: same_ring_def frame_ok_def packet_live_def)
    ultimately show "bytes_apart (slotHdr (slot_stride ?q) (head ?q)) (sizeof_SlotHeader + length (fr_payload f))
        (pkt_data p) (unat (pkt_len p))"
      using slots_apart p q(1) by (simp add: same_ring_def packet_live_def)
  qed
qed

text \<open>
  C5. No data race: at most one thread is inside a critical section; where the producer is about
  to write a header and payload, these bytes have none in common with those of any packet the
  consumer holds or is about to return; and at every instant, also while the producer writes, every
  packet that is out shows the frame it was returned with.
\<close>

theorem threads_race_free:
  assumes "reach tq_init tq_step s"
  shows "of_bool (prod_locks (tq_prod s)) + of_bool (cons_locks (tq_cons s)) + of_bool (main_locks (tq_main s)) \<le> (1 :: nat)
    \<and> (\<forall>f. tq_prod s = ProdWrite f \<longrightarrow>
         list_all (\<lambda>p. bytes_apart (slotHdr (slot_stride (tq_queue s)) (head (tq_queue s)))
                         (sizeof_SlotHeader + length (fr_payload f)) (pkt_data p) (unat (pkt_len p)))
           (map fst (tq_live s) @ pending_packets (tq_cons s) (tq_queue s)))
    \<and> list_all (\<lambda>(p, f). packet_frame (tq_queue s) p = f) (tq_live s)"
  by (rule threads_simulated [OF assms]) (rule tq_sim_race_free)

section \<open>No deadlock and no lost wake-up\<close>

text \<open>A step of a thread inside a call that is not asleep.\<close>

definition call_step :: "queue_threads \<Rightarrow> queue_threads \<Rightarrow> bool" where
  "call_step s t \<longleftrightarrow> (tq_prod s \<noteq> ProdIdle \<and> producer_thread s t)
     \<or> (tq_cons s \<noteq> ConsIdle \<and> (\<forall>timeout. tq_cons s \<noteq> ConsWait timeout) \<and> consumer_thread s t)
     \<or> (tq_main s \<noteq> ShutIdle \<and> shutdown_thread s t)"

lemma producer_goes_on:
  assumes "tq_prod s \<noteq> ProdIdle" and "\<And>f. tq_prod s = ProdLock f \<Longrightarrow> \<not> mutex_locked (tq_queue s)"
  shows "\<exists>t. producer_thread s t"
  using assms by (cases "tq_prod s") (blast intro: producer_thread.intros not_le_imp_less)+

lemma consumer_goes_on:
  assumes "tq_cons s \<noteq> ConsIdle" and "\<And>n. tq_cons s \<noteq> ConsWait n"
    and "\<not> cons_locks (tq_cons s) \<Longrightarrow> \<not> mutex_locked (tq_queue s) \<or> (\<exists>idx hdr. tq_cons s = ConsMalloc idx hdr)"
  shows "\<exists>t. consumer_thread s t"
proof (cases "tq_cons s")
  case ConsTake
  obtain idx hdr q' where "pop_take (tq_queue s) = (idx, hdr, q')" by (metis prod_cases3)
  then show ?thesis using ConsTake pop_empty pop_takes by blast
qed (use assms in \<open>auto intro: consumer_thread.intros\<close>)

lemma shutdown_goes_on: "tq_main s \<noteq> ShutIdle \<Longrightarrow> \<exists>t. shutdown_thread s t"
  by (cases "tq_main s") (auto intro: shutdown_thread.intros)

text \<open>Whoever holds the mutex goes on, and gives it up at last.\<close>

lemma holder_goes_on:
  assumes "tq_mutex s" and "mutex_locked (tq_queue s)"
  shows "\<exists>t. call_step s t"
proof -
  consider "prod_locks (tq_prod s)" | "cons_locks (tq_cons s)" | "main_locks (tq_main s)"
    using assms by (auto simp: tq_mutex_def of_bool_def split: if_splits)
  then show ?thesis
  proof cases
    case 1
    then have "tq_prod s \<noteq> ProdIdle" "\<And>f. tq_prod s \<noteq> ProdLock f" by auto
    then show ?thesis using producer_goes_on [of s] by (auto simp: call_step_def)
  next
    case 2
    then have "tq_cons s \<noteq> ConsIdle" "\<And>n. tq_cons s \<noteq> ConsWait n" by auto
    then show ?thesis using consumer_goes_on [of s] 2 by (auto simp: call_step_def)
  next
    case 3
    then have "tq_main s \<noteq> ShutIdle" by auto
    then show ?thesis using shutdown_goes_on [of s] by (auto simp: call_step_def)
  qed
qed

lemma tq_sim_never_stuck:
  assumes "tq_sim s r"
  shows "(\<exists>t. call_step s t) \<or> tq_prod s = ProdIdle \<and> tq_main s = ShutIdle
    \<and> (tq_cons s = ConsIdle \<or> (\<exists>timeout. tq_cons s = ConsWait timeout)
         \<and> rq_count (tq_queue s) = 0 \<and> \<not> shutdown_flag (tq_queue s))"
proof (cases "mutex_locked (tq_queue s)")
  case True
  then show ?thesis using holder_goes_on assms by (auto simp: tq_sim_def)
next
  case False
  have w: "tq_no_lost_wakeup s" using assms by (simp add: tq_sim_def)
  show ?thesis
  proof (cases "tq_prod s = ProdIdle \<and> tq_main s = ShutIdle")
    case True
    then show ?thesis
      using w consumer_goes_on [of s] False by (auto simp: call_step_def tq_no_lost_wakeup_def)
  next
    case busy: False
    then show ?thesis using producer_goes_on [of s] shutdown_goes_on [of s] False by (auto simp: call_step_def)
  qed
qed

text \<open>
  C6. No deadlock and no lost wake-up: in whatever state the threads are, some thread inside a call
  can go on, or no call is under way but a \<open>pop\<close> that sleeps, and then the queue is empty and not
  shut down.
\<close>

theorem threads_never_stuck:
  assumes "reach tq_init tq_step s"
  shows "(\<exists>t. call_step s t) \<or> tq_prod s = ProdIdle \<and> tq_main s = ShutIdle
    \<and> (tq_cons s = ConsIdle \<or> (\<exists>timeout. tq_cons s = ConsWait timeout)
         \<and> rq_count (tq_queue s) = 0 \<and> \<not> shutdown_flag (tq_queue s))"
  by (rule threads_simulated [OF assms]) (rule tq_sim_never_stuck)

section \<open>A concrete run\<close>

text \<open>The producer pushes a frame, the consumer takes it, the producer is about to write the next.\<close>

lemma reach_producer: "reach tq_init tq_step s \<Longrightarrow> producer_thread s t \<Longrightarrow> reach tq_init tq_step t"
  by (erule reach_step) (simp add: tq_step_def)

lemma reach_consumer: "reach tq_init tq_step s \<Longrightarrow> consumer_thread s t \<Longrightarrow> reach tq_init tq_step t"
  by (erule reach_step) (simp add: tq_step_def)

lemma run_to_write:
  assumes r: "reach tq_init tq_step s" and "tq_prod s = ProdIdle" and "\<not> mutex_locked (tq_queue s)"
    and "frame_ok (tq_queue s) f" and "\<not> shutdown_flag (tq_queue s)"
    and "rq_count (tq_queue s) < capacity (tq_queue s)" and "\<not> slot_in_use (tq_queue s) ! head (tq_queue s)"
  shows "reach tq_init tq_step (s\<lparr>tq_queue := mutex_lock (tq_queue s), tq_prod := ProdWrite f\<rparr>)"
proof -
  note go = reach_producer
  have "reach tq_init tq_step (s\<lparr>tq_prod := ProdLock f\<rparr>)"
    using go [OF r push_calls [of s f]] assms by (simp add: frame_ok_def)
  from go [OF this push_locks [of _ f]] assms
  have "reach tq_init tq_step (s\<lparr>tq_queue := mutex_lock (tq_queue s), tq_prod := ProdEnter f\<rparr>)" by simp
  from go [OF this push_enters [of _ f]] assms
  have "reach tq_init tq_step (s\<lparr>tq_queue := mutex_lock (tq_queue s), tq_prod := ProdRoom f\<rparr>)" by simp
  from go [OF this push_has_room [of _ f]] assms
  have "reach tq_init tq_step (s\<lparr>tq_queue := mutex_lock (tq_queue s), tq_prod := ProdGuard f\<rparr>)" by simp
  from go [OF this push_head_free [of _ f]] assms show ?thesis by simp
qed

lemma run_from_write:
  assumes r: "reach tq_init tq_step s" and "tq_prod s = ProdWrite f"
  shows "reach tq_init tq_step (s\<lparr>tq_cons := wake (tq_cons s),
    tq_queue := mutex_unlock (cond_notify (push_commit (push_write (header_of_frame f) (fr_payload f) (tq_queue s)))), tq_prod := ProdIdle, tq_offered := tq_offered s @ [f]\<rparr>)"
proof -
  note go = reach_producer
  let ?w = "push_write (header_of_frame f) (fr_payload f) (tq_queue s)"
  from go [OF r push_writes [of _ f]] assms
  have "reach tq_init tq_step (s\<lparr>tq_queue := ?w, tq_prod := ProdCommit f\<rparr>)" by simp
  from go [OF this push_commits [of _ f]]
  have "reach tq_init tq_step (s\<lparr>tq_queue := push_commit ?w, tq_prod := ProdSignal f\<rparr>)" by simp
  from go [OF this push_signals [of _ f]]
  have "reach tq_init tq_step (s\<lparr>tq_queue := cond_notify (push_commit ?w), tq_cons := wake (tq_cons s), tq_prod := ProdUnlock f\<rparr>)"
    by simp
  from go [OF this push_unlocks [of _ f]] show ?thesis by (simp add: prod_return_def)
qed

lemma run_pop_frame:
  assumes r: "reach tq_init tq_step s" and "tq_cons s = ConsIdle" and "\<not> mutex_locked (tq_queue s)"
    and "rq_count (tq_queue s) \<noteq> 0"
  shows "\<exists>pkt f. reach tq_init tq_step (s\<lparr>tq_queue := mutex_unlock (rq_pop_state (mutex_lock (tq_queue s))),
    tq_cons := ConsIdle, tq_delivered := tq_delivered s @ [f], tq_live := tq_live s @ [(pkt, f)]\<rparr>)"
proof -
  note go = reach_consumer
  let ?l = "mutex_lock (tq_queue s)"
  have "reach tq_init tq_step (s\<lparr>tq_cons := ConsLock 1\<rparr>)" using go [OF r pop_calls [of s 1]] assms by simp
  from go [OF this pop_locks [of _ 1]] assms
  have "reach tq_init tq_step (s\<lparr>tq_queue := ?l, tq_cons := ConsTest 1\<rparr>)" by simp
  from go [OF this pop_tests [of _ 1 ConsTake]] assms
  have "reach tq_init tq_step (s\<lparr>tq_queue := ?l, tq_cons := ConsTake\<rparr>)" by (simp add: pop_test_def)
  from go [OF this pop_takes [of _ "tail ?l" "slot_header ?l (tail ?l)" "rq_pop_state ?l"]] assms
  have "reach tq_init tq_step (s\<lparr>tq_queue := rq_pop_state ?l, tq_cons := ConsUnlock (tail ?l) (slot_header ?l (tail ?l))\<rparr>)"
    by (simp add: pop_take_eq)
  from go [OF this pop_unlocks [of _ "tail ?l" "slot_header ?l (tail ?l)"]]
  have "reach tq_init tq_step (s\<lparr>tq_queue := mutex_unlock (rq_pop_state ?l), tq_cons := ConsMalloc (tail ?l) (slot_header ?l (tail ?l))\<rparr>)"
    by simp
  from go [OF this pop_returns [of _ "tail ?l" "slot_header ?l (tail ?l)" _ _, OF _ refl refl]] show ?thesis
    by (simp del: sync_fields) blast
qed

definition demo_threads :: queue_threads where
  "demo_threads = \<lparr> tq_queue = demo_queue, tq_prod = ProdIdle, tq_cons = ConsIdle, tq_main = ShutIdle,
     tq_offered = [], tq_delivered = [], tq_live = [] \<rparr>"

lemma demo_threads_run:
  "\<exists>s. reach tq_init tq_step s \<and> tq_prod s = ProdWrite demo_frame \<and> tq_cons s = ConsIdle
     \<and> tq_offered s = [demo_frame] \<and> length (tq_live s) = 1"
proof -
  have d: "capacity demo_queue = 2" "head demo_queue = 0" "rq_count demo_queue = 0" "max_frame_size demo_queue = 4"
    "\<not> shutdown_flag demo_queue" "tail demo_queue = 0" "slot_in_use demo_queue = replicate 2 False"
    by (simp_all add: demo_queue_def RingQueue_new_def empty_queue_def Let_def)
  have ok: "frame_ok demo_queue demo_frame" by (simp add: frame_ok_def d demo_frame_def)
  have "reach tq_init tq_step demo_threads"
    by (rule reach_init) (simp add: tq_init_def demo_threads_def demo_queue_inv demo_queue_unlocked)
  from run_to_write [OF this, of demo_frame] ok d demo_queue_unlocked
  have "reach tq_init tq_step (demo_threads\<lparr>tq_queue := mutex_lock demo_queue, tq_prod := ProdWrite demo_frame\<rparr>)"
    by (simp add: demo_threads_def)
  from run_from_write [OF this, of demo_frame]
  have "reach tq_init tq_step (demo_threads\<lparr>tq_queue := mutex_unlock (cond_notify (push_commit
      (push_write (header_of_frame demo_frame) (fr_payload demo_frame) (mutex_lock demo_queue)))), tq_offered := [demo_frame]\<rparr>)"
    (is "reach _ _ ?s1") by (simp add: demo_threads_def wake_def)
  moreover have "tq_cons ?s1 = ConsIdle" "\<not> mutex_locked (tq_queue ?s1)" "rq_count (tq_queue ?s1) \<noteq> 0"
    by (simp_all add: demo_threads_def) (simp add: push_commit_def)
  ultimately obtain pkt f where "reach tq_init tq_step (?s1\<lparr>tq_queue := mutex_unlock (rq_pop_state (mutex_lock (tq_queue ?s1))),
      tq_cons := ConsIdle, tq_delivered := tq_delivered ?s1 @ [f], tq_live := tq_live ?s1 @ [(pkt, f)]\<rparr>)" (is "reach _ _ ?s2")
    using run_pop_frame [of ?s1] by blast
  moreover have "tq_prod ?s2 = ProdIdle" "\<not> mutex_locked (tq_queue ?s2)" "frame_ok (tq_queue ?s2) demo_frame"
    "\<not> shutdown_flag (tq_queue ?s2)"
    using ok d by (simp_all add: demo_threads_def frame_ok_def)
  moreover have "rq_count (tq_queue ?s2) < capacity (tq_queue ?s2)" "\<not> slot_in_use (tq_queue ?s2) ! head (tq_queue ?s2)"
    using d by (simp_all add: rq_pop_state_def push_commit_def)
  ultimately have "reach tq_init tq_step (?s2\<lparr>tq_queue := mutex_lock (tq_queue ?s2), tq_prod := ProdWrite demo_frame\<rparr>)"
    using run_to_write [of ?s2 demo_frame] by blast
  then show ?thesis by (rule exI [of _ "?s2\<lparr>tq_queue := mutex_lock (tq_queue ?s2), tq_prod := ProdWrite demo_frame\<rparr>", OF conjI])
    (simp add: demo_threads_def)
qed

theorem threads_refine_atomic_queue_witness:
  "\<exists>s r. reach tq_init tq_step s \<and> tq_prod s = ProdWrite demo_frame \<and> tq_live s \<noteq> [] \<and> reach rr_init rq_step r
     \<and> rr_offered r = [demo_frame] \<and> rr_live r = tq_live s \<and> same_ring (tq_queue s) (rq_room (rr_queue r))"
proof -
  obtain s where s: "reach tq_init tq_step s" "tq_prod s = ProdWrite demo_frame" "tq_cons s = ConsIdle"
    "tq_offered s = [demo_frame]" "length (tq_live s) = 1"
    using demo_threads_run by blast
  obtain r where r: "reach rr_init rq_step r" "rr_offered r = tq_offered s @ pending_offer (tq_prod s)"
    "prod_sim (tq_prod s) (tq_queue s) (rr_queue r)" "tq_cons s = ConsIdle \<longrightarrow> rr_live r = tq_live s"
    using threads_refine_atomic_queue [OF s(1)] by auto
  have "tq_live s \<noteq> []" using s(5) by auto
  moreover have "same_ring (tq_queue s) (rq_room (rr_queue r))" using r(3) s(2) by (simp add: prod_sim_def)
  moreover have "rr_offered r = [demo_frame]" using r(2) s(2,4) by (simp add: pending_offer_def)
  ultimately show ?thesis using r(1,4) s(1,2,3) by auto
qed

theorem threads_race_free_witness:
  "\<exists>s p. reach tq_init tq_step s \<and> tq_prod s = ProdWrite demo_frame \<and> p \<in> set (map fst (tq_live s))
     \<and> bytes_apart (slotHdr (slot_stride (tq_queue s)) (head (tq_queue s))) 31 (pkt_data p) (unat (pkt_len p))"
proof -
  obtain s where s: "reach tq_init tq_step s" "tq_prod s = ProdWrite demo_frame" "length (tq_live s) = 1"
    using demo_threads_run by blast
  then obtain p f where "tq_live s = [(p, f)]" by (metis One_nat_def length_0_conv length_Suc_conv surj_pair)
  then show ?thesis
    using threads_race_free [OF s(1)] s(1,2) by (auto simp: demo_frame_def)
qed

theorem threads_never_stuck_witness:
  "\<exists>s t. reach tq_init tq_step s \<and> tq_prod s = ProdWrite demo_frame \<and> call_step s t"
proof -
  obtain s where s: "reach tq_init tq_step s" "tq_prod s = ProdWrite demo_frame" using demo_threads_run by blast
  then show ?thesis using threads_never_stuck [OF s(1)] by auto
qed

end
