(* ===== verification/Streamer_Threads.thy ===== *)
theory Streamer_Threads
  imports Streamer_Runs Ring_Queue_Threads
begin

text \<open>
  The client of \<open>src/main.cpp\<close> with the calls of the queue taken apart: while the capture thread is
  inside \<open>push\<close>, the network thread inside \<open>pop\<close> and the main thread inside \<open>shutdown\<close>, they move by
  the steps of \<open>Ring_Queue_Threads\<close>: single accesses to the mutex, the condition variable and the flags
  they test, and blocks of code that run under the mutex. The theory proves that every such run of the whole program is a run
  of the step relation of \<open>Streamer\<close>, where these calls are single steps, so that what is proved there
  holds of the program at this grain.
\<close>

section \<open>The threads inside their calls\<close>

text \<open>
  The queue and its history in \<open>fs_sys\<close> are those the threads see; beside it stands where each
  thread is inside its call.
\<close>

record fine_sys =
  fs_sys :: client_sys
  fs_push :: producer_pc
  fs_pop :: consumer_pc
  fs_shut :: shutdown_pc

definition fs_init :: "('m, 'w) client_env \<Rightarrow> fine_sys \<Rightarrow> bool" where
  "fs_init env s \<longleftrightarrow> (\<exists>c. sy_init env c
     \<and> s = \<lparr> fs_sys = c, fs_push = ProdIdle, fs_pop = ConsIdle, fs_shut = ShutIdle \<rparr>)"

definition fs_threads :: "fine_sys \<Rightarrow> queue_threads" where
  "fs_threads s =
     (let r = sy_run (fs_sys s) in
      \<lparr> tq_queue = rr_queue r, tq_prod = fs_push s, tq_cons = fs_pop s, tq_main = fs_shut s,
        tq_offered = rr_offered r, tq_delivered = rr_delivered r, tq_live = rr_live r \<rparr>)"

definition fs_update :: "queue_threads \<Rightarrow> fine_sys \<Rightarrow> fine_sys" where
  "fs_update t s =
     s\<lparr>fs_sys := (fs_sys s)\<lparr>sy_run := \<lparr> rr_queue = tq_queue t, rr_offered = tq_offered t,
         rr_delivered = tq_delivered t, rr_live = tq_live t \<rparr>\<rparr>,
       fs_push := tq_prod t, fs_pop := tq_cons t, fs_shut := tq_main t\<rparr>"

definition fs_goto_main :: "main_pc \<Rightarrow> fine_sys \<Rightarrow> fine_sys" where
  "fs_goto_main pc s = s\<lparr>fs_sys := (fs_sys s)\<lparr>sy_main := pc\<rparr>\<rparr>"

definition fs_goto_capture :: "capture_pc \<Rightarrow> fine_sys \<Rightarrow> fine_sys" where
  "fs_goto_capture pc s = s\<lparr>fs_sys := (fs_sys s)\<lparr>sy_capture := pc\<rparr>\<rparr>"

definition fs_goto_network :: "network_pc \<Rightarrow> fine_sys \<Rightarrow> fine_sys" where
  "fs_goto_network pc s = s\<lparr>fs_sys := (fs_sys s)\<lparr>sy_network := pc\<rparr>\<rparr>"

text \<open>
  The main thread: its own steps are those of \<open>main_step\<close> that leave the queue alone, and the call of
  \<open>shutdown\<close> is made access by access. A signal may come at any time.
\<close>

inductive fine_main_step :: "fine_sys \<Rightarrow> fine_sys \<Rightarrow> bool" where
  main_alone: "main_step (fs_sys s) c \<Longrightarrow> sy_run c = sy_run (fs_sys s) \<Longrightarrow> fine_main_step s (s\<lparr>fs_sys := c\<rparr>)"
| main_shuts: "sy_main (fs_sys s) = ShutQueue status \<Longrightarrow> shutdown_thread (fs_threads s) t \<Longrightarrow>
    tq_main t \<noteq> ShutIdle \<Longrightarrow> fine_main_step s (fs_update t s)"
| main_shut: "sy_main (fs_sys s) = ShutQueue status \<Longrightarrow> shutdown_thread (fs_threads s) t \<Longrightarrow>
    tq_main t = ShutIdle \<Longrightarrow> fine_main_step s (fs_goto_main (JoinCapture status) (fs_update t s))"

text \<open>The capture thread; it calls \<open>push\<close> with the frame it has grabbed.\<close>

inductive fine_capture_step :: "('m, 'w) cam_api \<Rightarrow> fine_sys \<Rightarrow> fine_sys \<Rightarrow> bool"
  for cam :: "('m, 'w) cam_api" where
  capture_alone: "sy_capture (fs_sys s) = CapLoop \<Longrightarrow> capture_step cam (fs_sys s) c \<Longrightarrow>
    fine_capture_step cam s (s\<lparr>fs_sys := c\<rparr>)"
| capture_calls: "sy_capture (fs_sys s) = CapPush a \<Longrightarrow> fs_push s = ProdIdle \<Longrightarrow>
    producer_thread (fs_threads s) t \<Longrightarrow> tq_prod t = ProdLock (args_frame a) \<Longrightarrow>
    fine_capture_step cam s (fs_update t s)"
| capture_refused: "sy_capture (fs_sys s) = CapPush a \<Longrightarrow> fs_push s = ProdIdle \<Longrightarrow>
    producer_thread (fs_threads s) t \<Longrightarrow> t = prod_return (args_frame a) (fs_threads s) \<Longrightarrow>
    fine_capture_step cam s (fs_goto_capture CapLoop (fs_update t s))"
| capture_in_push: "sy_capture (fs_sys s) = CapPush a \<Longrightarrow> fs_push s \<noteq> ProdIdle \<Longrightarrow>
    producer_thread (fs_threads s) t \<Longrightarrow> tq_prod t \<noteq> ProdIdle \<Longrightarrow>
    fine_capture_step cam s (fs_update t s)"
| capture_returns: "sy_capture (fs_sys s) = CapPush a \<Longrightarrow> fs_push s \<noteq> ProdIdle \<Longrightarrow>
    producer_thread (fs_threads s) t \<Longrightarrow> tq_prod t = ProdIdle \<Longrightarrow>
    fine_capture_step cam s (fs_goto_capture CapLoop (fs_update t s))"

text \<open>
  The network thread; \<open>pop\<close> returns a packet when one has been added to those that are out, and
  freeing a packet is the single store that clears its flag.
\<close>

inductive fine_network_step :: "'w tls_api \<Rightarrow> byte_order \<Rightarrow> fine_sys \<Rightarrow> fine_sys \<Rightarrow> bool"
  for api :: "'w tls_api" and bo :: byte_order where
  network_alone: "sy_network (fs_sys s) \<noteq> NetPop \<Longrightarrow> network_step api bo (fs_sys s) c \<Longrightarrow>
    fine_network_step api bo s (s\<lparr>fs_sys := c\<rparr>)"
| network_calls: "sy_network (fs_sys s) = NetPop \<Longrightarrow> fs_pop s = ConsIdle \<Longrightarrow>
    consumer_thread (fs_threads s) t \<Longrightarrow> tq_cons t = ConsLock QUEUE_TIMEOUT_MS \<Longrightarrow>
    fine_network_step api bo s (fs_update t s)"
| network_in_pop: "sy_network (fs_sys s) = NetPop \<Longrightarrow> fs_pop s \<noteq> ConsIdle \<Longrightarrow>
    consumer_thread (fs_threads s) t \<Longrightarrow> tq_cons t \<noteq> ConsIdle \<Longrightarrow>
    fine_network_step api bo s (fs_update t s)"
| network_gets: "sy_network (fs_sys s) = NetPop \<Longrightarrow> fs_pop s \<noteq> ConsIdle \<Longrightarrow>
    consumer_thread (fs_threads s) t \<Longrightarrow> tq_cons t = ConsIdle \<Longrightarrow>
    tq_live t = tq_live (fs_threads s) @ [(pkt, f)] \<Longrightarrow>
    fine_network_step api bo s (fs_goto_network (NetHeader pkt) (fs_update t s))"
| network_gets_none: "sy_network (fs_sys s) = NetPop \<Longrightarrow> fs_pop s \<noteq> ConsIdle \<Longrightarrow>
    consumer_thread (fs_threads s) t \<Longrightarrow> tq_cons t = ConsIdle \<Longrightarrow> tq_live t = tq_live (fs_threads s) \<Longrightarrow>
    fine_network_step api bo s (fs_goto_network NetLoop (fs_update t s))"

definition fine_step :: "('m, 'w) client_env \<Rightarrow> byte_order \<Rightarrow> fine_sys \<Rightarrow> fine_sys \<Rightarrow> bool" where
  "fine_step env bo s s' \<longleftrightarrow>
     fine_main_step s s' \<or> fine_capture_step (env_cam env) s s' \<or> fine_network_step (env_tls env) bo s s'"

section \<open>The state of the coarse program\<close>

text \<open>The frame that a \<open>push\<close> under way is to store.\<close>

definition prod_frame :: "producer_pc \<Rightarrow> frame option" where
  "prod_frame pc = (case pc of ProdIdle \<Rightarrow> None | ProdLock f \<Rightarrow> Some f | ProdEnter f \<Rightarrow> Some f | ProdRoom f \<Rightarrow> Some f
     | ProdGuard f \<Rightarrow> Some f | ProdWrite f \<Rightarrow> Some f | ProdCommit f \<Rightarrow> Some f | ProdSignal f \<Rightarrow> Some f
     | ProdUnlock f \<Rightarrow> Some f | ProdCount f \<Rightarrow> Some f)"

text \<open>
  The coarse thread is ahead of the fine one from the access on with which a call takes effect:
  after the commit of \<open>push\<close>, the taking of a slot in \<open>pop\<close>, the store of the flag in \<open>shutdown\<close>.
\<close>

definition main_ahead :: "shutdown_pc \<Rightarrow> main_pc \<Rightarrow> main_pc" where
  "main_ahead shut pc = (case pc of
     ShutQueue status \<Rightarrow> if shut \<in> {ShutUnlock, ShutBroadcast} then JoinCapture status else ShutQueue status
   | _ \<Rightarrow> pc)"

definition capture_ahead :: "producer_pc \<Rightarrow> capture_pc \<Rightarrow> capture_pc" where
  "capture_ahead ppc pc = (if pending_offer ppc = [] then pc else CapLoop)"

definition network_ahead :: "FramePacket list \<Rightarrow> network_pc \<Rightarrow> network_pc" where
  "network_ahead ps pc = (case ps of [] \<Rightarrow> pc | p # _ \<Rightarrow> NetTaken p)"

lemmas ahead_defs = main_ahead_def capture_ahead_def network_ahead_def

definition fs_abs :: "fine_sys \<Rightarrow> rq_run \<Rightarrow> client_sys" where
  "fs_abs s r = (fs_sys s)\<lparr>sy_run := r,
     sy_main := main_ahead (fs_shut s) (sy_main (fs_sys s)),
     sy_capture := capture_ahead (fs_push s) (sy_capture (fs_sys s)),
     sy_network := network_ahead (pending_packets (fs_pop s) (rr_queue r)) (sy_network (fs_sys s))\<rparr>"

text \<open>Threads are inside a call only where their code makes it.\<close>

definition fs_control :: "fine_sys \<Rightarrow> bool" where
  "fs_control s \<longleftrightarrow>
     (fs_push s \<noteq> ProdIdle \<longrightarrow> (\<exists>a. sy_capture (fs_sys s) = CapPush a \<and> prod_frame (fs_push s) = Some (args_frame a)))
   \<and> (fs_pop s \<noteq> ConsIdle \<longrightarrow> sy_network (fs_sys s) = NetPop)
   \<and> (fs_shut s \<noteq> ShutIdle \<longrightarrow> (\<exists>status. sy_main (fs_sys s) = ShutQueue status))
   \<and> (\<forall>p. sy_network (fs_sys s) \<noteq> NetTaken p)"

definition fs_sim :: "fine_sys \<Rightarrow> client_sys \<Rightarrow> bool" where
  "fs_sim s c \<longleftrightarrow> (\<exists>r. tq_sim (fs_threads s) r \<and> fs_control s \<and> c = fs_abs s r)"

lemma fs_threads_fields [simp]:
  "tq_queue (fs_threads s) = sy_queue (fs_sys s)" "tq_prod (fs_threads s) = fs_push s" "tq_cons (fs_threads s) = fs_pop s"
  "tq_main (fs_threads s) = fs_shut s" "tq_offered (fs_threads s) = rr_offered (sy_run (fs_sys s))"
  "tq_delivered (fs_threads s) = rr_delivered (sy_run (fs_sys s))" "tq_live (fs_threads s) = rr_live (sy_run (fs_sys s))"
  by (simp_all add: fs_threads_def Let_def)

lemma fs_threads_simps [simp]:
  "fs_threads (fs_update t s) = t" "fs_threads (fs_goto_main m s) = fs_threads s"
  "fs_threads (fs_goto_capture c s) = fs_threads s" "fs_threads (fs_goto_network n s) = fs_threads s"
  by (simp_all add: fs_threads_def fs_update_def fs_goto_main_def fs_goto_capture_def fs_goto_network_def Let_def)

lemmas fs_defs = fs_update_def fs_goto_main_def fs_goto_capture_def fs_goto_network_def

lemma fs_threads_same: "sy_run c = sy_run (fs_sys s) \<Longrightarrow> fs_threads (s\<lparr>fs_sys := c\<rparr>) = fs_threads s"
  by (simp add: fs_threads_def)

lemma pending_idle [simp]: "pending_offer ProdIdle = []" "pending_packets ConsIdle q = []"
  by (simp_all add: pending_offer_def pending_packets_def)

lemma fs_abs_fields [simp]:
  "sy_run (fs_abs s r) = r" "sy_camera (fs_abs s r) = sy_camera (fs_sys s)" "sy_tls (fs_abs s r) = sy_tls (fs_sys s)"
  "sy_running (fs_abs s r) = sy_running (fs_sys s)"
  "sy_main (fs_abs s r) = main_ahead (fs_shut s) (sy_main (fs_sys s))"
  "sy_capture (fs_abs s r) = capture_ahead (fs_push s) (sy_capture (fs_sys s))"
  "sy_network (fs_abs s r) = network_ahead (pending_packets (fs_pop s) (rr_queue r)) (sy_network (fs_sys s))"
  by (simp_all add: fs_abs_def)

lemma ahead_simps [simp]:
  "main_ahead ShutIdle pc = pc" "(\<And>status. pc \<noteq> ShutQueue status) \<Longrightarrow> main_ahead shut pc = pc"
  "main_ahead ShutStore pc = pc" "main_ahead ShutUnlock (ShutQueue status) = JoinCapture status"
  "main_ahead ShutBroadcast (ShutQueue status) = JoinCapture status"
  "capture_ahead ProdIdle cpc = cpc" "capture_ahead ppc CapLoop = CapLoop"
  "network_ahead [] npc = npc" "network_ahead (p # ps) npc = NetTaken p"
  by (simp_all add: ahead_defs split: main_pc.split)

text \<open>What is matched: at most one step of the coarse program, and the simulation goes on.\<close>

lemma fs_matched:
  assumes "tq_sim (fs_threads t) r'" and "fs_control t" and "fs_abs t r' = fs_abs s r \<or> sy_step env bo (fs_abs s r) (fs_abs t r')"
  shows "\<exists>c. (sy_step env bo)\<^sup>*\<^sup>* (fs_abs s r) c \<and> fs_sim t c"
  using assms unfolding fs_sim_def by (metis r_into_rtranclp rtranclp.rtrancl_refl)

section \<open>The main thread\<close>

lemma wake_idle [simp]: "wake pc = ConsIdle \<longleftrightarrow> pc = ConsIdle"
  by (simp add: wake_def split: consumer_pc.split)

lemma run_shutdown_changes: "run_shutdown r \<noteq> r"
proof
  assume "run_shutdown r = r"
  then have "cond_signals (rr_queue (run_shutdown r)) = cond_signals (rr_queue r)" by simp
  then show False
    by (simp add: run_shutdown_def rq_shutdown_def Let_def cond_notify_def mutex_lock_def mutex_unlock_def)
qed

text \<open>Where the threads can be follows from what the coarse program guarantees.\<close>

lemma fs_not_started:
  assumes "sy_inv bo (fs_abs s r)" and "fs_control s"
  shows "sy_main (fs_sys s) = CreateCapture \<Longrightarrow> fs_push s = ProdIdle \<and> fs_pop s = ConsIdle"
    and "sy_main (fs_sys s) = CreateNetwork \<Longrightarrow> fs_pop s = ConsIdle"
  using assms by (auto simp: sy_inv_def sy_control_ok_def fs_control_def ahead_defs split: if_splits list.splits)

lemma fs_main_alone:
  assumes sim: "tq_sim (fs_threads s) r" and ctl: "fs_control s" and inv: "sy_inv bo (fs_abs s r)"
    and step: "main_step (fs_sys s) c" and run: "sy_run c = sy_run (fs_sys s)"
  shows "tq_sim (fs_threads (s\<lparr>fs_sys := c\<rparr>)) r \<and> fs_control (s\<lparr>fs_sys := c\<rparr>)
    \<and> main_step (fs_abs s r) (fs_abs (s\<lparr>fs_sys := c\<rparr>) r)"
proof (intro conjI)
  show "tq_sim (fs_threads (s\<lparr>fs_sys := c\<rparr>)) r" using sim fs_threads_same [OF run] by simp
  note started = fs_not_started [OF inv ctl]
  have shut: "fs_shut s = ShutIdle" if "\<And>status. sy_main (fs_sys s) \<noteq> ShutQueue status"
    using ctl that by (auto simp: fs_control_def)
  have push: "fs_push s = ProdIdle" if "sy_capture (fs_sys s) = CapDone"
    using ctl that by (auto simp: fs_control_def)
  have pop: "fs_pop s = ConsIdle" if "sy_network (fs_sys s) = NetDone"
    using ctl that by (auto simp: fs_control_def)
  show "fs_control (s\<lparr>fs_sys := c\<rparr>)"
    using step ctl started run run_shutdown_changes [of "sy_run (fs_sys s)"]
    by cases (auto simp: fs_control_def signalHandler_def)
  show "main_step (fs_abs s r) (fs_abs (s\<lparr>fs_sys := c\<rparr>) r)"
    using step
  proof cases
    case create_capture
    then have eq: "fs_abs (s\<lparr>fs_sys := c\<rparr>) r = (fs_abs s r)\<lparr>sy_capture := CapLoop, sy_main := CreateNetwork\<rparr>" using started(1)
      by (intro client_sys.equality) (simp_all)
    show ?thesis unfolding eq by (rule main_step.create_capture) (use create_capture started(1) in simp_all)
  next
    case create_capture_fails
    then have eq: "fs_abs (s\<lparr>fs_sys := c\<rparr>) r = (fs_abs s r)\<lparr>sy_main := Exited EXIT_FAILURE\<rparr>"
      by (intro client_sys.equality) (simp_all)
    show ?thesis unfolding eq by (rule main_step.create_capture_fails) (use create_capture_fails in simp_all)
  next
    case create_network
    then have eq: "fs_abs (s\<lparr>fs_sys := c\<rparr>) r = (fs_abs s r)\<lparr>sy_network := NetLoop, sy_main := Streaming\<rparr>" using started(2)
      by (intro client_sys.equality) (simp_all)
    show ?thesis unfolding eq by (rule main_step.create_network) (use create_network started(2) in simp_all)
  next
    case create_network_fails
    then have eq: "fs_abs (s\<lparr>fs_sys := c\<rparr>) r = (fs_abs s r)\<lparr>sy_running := False, sy_main := ShutQueue EXIT_FAILURE\<rparr>" using shut
      by (intro client_sys.equality) (simp_all)
    show ?thesis unfolding eq by (rule main_step.create_network_fails) (use create_network_fails shut in simp_all)
  next
    case leave_loop
    then have eq: "fs_abs (s\<lparr>fs_sys := c\<rparr>) r = (fs_abs s r)\<lparr>sy_main := ShutQueue EXIT_SUCCESS\<rparr>" using shut
      by (intro client_sys.equality) (simp_all)
    show ?thesis unfolding eq by (rule main_step.leave_loop) (use leave_loop shut in simp_all)
  next
    case (shut_queue status)
    then show ?thesis using run run_shutdown_changes [of "sy_run (fs_sys s)"] by simp
  next
    case (join_capture status)
    then have eq: "fs_abs (s\<lparr>fs_sys := c\<rparr>) r = (fs_abs s r)\<lparr>sy_main := if status = EXIT_SUCCESS then JoinNetwork else Exited status\<rparr>" using push
      by (intro client_sys.equality) (simp_all)
    show ?thesis unfolding eq by (rule main_step.join_capture) (use join_capture push in simp_all)
  next
    case join_network
    then have eq: "fs_abs (s\<lparr>fs_sys := c\<rparr>) r = (fs_abs s r)\<lparr>sy_main := Exited EXIT_SUCCESS\<rparr>" using pop
      by (intro client_sys.equality) (simp_all)
    show ?thesis unfolding eq by (rule main_step.join_network) (use join_network pop in simp_all)
  next
    case signal
    then have eq: "fs_abs (s\<lparr>fs_sys := c\<rparr>) r = signalHandler (fs_abs s r)"
      by (intro client_sys.equality) (simp_all add: signalHandler_def)
    show ?thesis unfolding eq by (rule main_step.signal)
  qed
qed

lemma shutdown_thread_keeps:
  assumes "shutdown_thread s t"
  shows "tq_prod t = tq_prod s" and "tq_cons t = ConsIdle \<longleftrightarrow> tq_cons s = ConsIdle"
    and "pending_packets (tq_cons t) = pending_packets (tq_cons s)"
  using assms by (auto elim!: shutdown_thread.cases simp: fun_eq_iff)

lemma shutdown_order:
  assumes "shutdown_thread s t"
  shows "tq_main s = ShutIdle \<Longrightarrow> tq_main t = ShutStore" and "tq_main s = ShutUnlock \<Longrightarrow> tq_main t = ShutBroadcast"
    and "tq_main s = ShutBroadcast \<Longrightarrow> tq_main t = ShutIdle" and "tq_main s = ShutStore \<Longrightarrow> tq_main t = ShutUnlock"
  using assms by (auto elim!: shutdown_thread.cases)

lemma fs_main_shuts:
  assumes sim: "tq_sim (fs_threads s) r" and ctl: "fs_control s"
    and m: "sy_main (fs_sys s) = ShutQueue status" and step: "shutdown_thread (fs_threads s) t"
    and s': "s' = (if tq_main t = ShutIdle then fs_goto_main (JoinCapture status) (fs_update t s) else fs_update t s)"
  shows "\<exists>r'. tq_sim (fs_threads s') r' \<and> fs_control s' \<and> (fs_abs s' r' = fs_abs s r \<or> main_step (fs_abs s r) (fs_abs s' r'))"
proof -
  note keep = shutdown_thread_keeps [OF step] and order = shutdown_order [OF step]
  note sh = tq_sim_shutdown [OF sim step]
  have th: "fs_threads s' = t" by (simp add: s')
  have ctl': "fs_control s'" using ctl keep m by (auto simp: fs_control_def s' fs_defs)
  show ?thesis
  proof (cases "fs_shut s = ShutStore")
    case True
    let ?r = "r\<lparr>rr_queue := rq_shutdown (rr_queue r)\<rparr>"
    have t: "tq_main t = ShutUnlock" "tq_sim t ?r" using sh True by simp_all
    have "slot_stride (rq_shutdown (rr_queue r)) = slot_stride (rr_queue r)" by simp
    then have "pending_packets (fs_pop s) (rq_shutdown (rr_queue r)) = pending_packets (fs_pop s) (rr_queue r)"
      by (simp add: pending_packets_def make_packet_def split: consumer_pc.split)
    then have "fs_abs s' ?r = (fs_abs s r)\<lparr>sy_run := run_shutdown (sy_run (fs_abs s r)), sy_main := JoinCapture status\<rparr>"
      using keep t(1) m True by (intro client_sys.equality) (simp_all add: s' fs_defs run_shutdown_def)
    moreover have "sy_main (fs_abs s r) = ShutQueue status" using m True by simp
    ultimately have "main_step (fs_abs s r) (fs_abs s' ?r)" using shut_queue [of "fs_abs s r" status] by simp
    then show ?thesis using t(2) ctl' th by auto
  next
    case False
    then have "tq_sim t r" using sh by simp
    moreover have "fs_abs s' r = fs_abs s r"
      using order keep m False
      by (intro client_sys.equality; cases "fs_shut s") (simp_all add: s' fs_defs)
    ultimately show ?thesis using ctl' th by auto
  qed
qed

section \<open>The capture thread\<close>

lemma producer_thread_keeps:
  assumes "producer_thread s t"
  shows "tq_main t = tq_main s" and "tq_cons t = ConsIdle \<longleftrightarrow> tq_cons s = ConsIdle"
    and "pending_packets (tq_cons t) = pending_packets (tq_cons s)"
    and "tq_prod t \<noteq> ProdIdle \<Longrightarrow> tq_offered t = tq_offered s"
  using assms by (auto elim!: producer_thread.cases simp: fun_eq_iff)

text \<open>Inside a call the frame stays the same, and it is recorded when the call returns.\<close>

lemma producer_frame:
  assumes "producer_thread s t" and "prod_frame (tq_prod s) = Some f"
  shows "tq_prod t \<noteq> ProdIdle \<Longrightarrow> prod_frame (tq_prod t) = Some f"
    and "tq_prod t = ProdIdle \<Longrightarrow> tq_offered t = tq_offered s @ [f]"
  using assms by (auto elim!: producer_thread.cases simp: prod_frame_def)

lemma pending_frame: "pending_offer pc = [] \<or> (\<exists>f. pending_offer pc = [f] \<and> prod_frame pc = Some f)"
  by (cases pc) (simp_all add: pending_offer_def prod_frame_def)

lemma tq_sim_offered: "tq_sim s r \<Longrightarrow> rr_offered r = tq_offered s @ pending_offer (tq_prod s)"
  by (simp add: tq_sim_def)

lemma pending_packets_stride: "slot_stride q = slot_stride a \<Longrightarrow> pending_packets pc q = pending_packets pc a"
  by (simp add: pending_packets_def make_packet_def split: consumer_pc.split)

lemma fs_capture_pushes:
  fixes a :: push_args and t :: queue_threads
  defines "f \<equiv> args_frame a"
  assumes sim: "tq_sim (fs_threads s) r" and ctl: "fs_control s" and inv: "sy_inv bo (fs_abs s r)"
    and m: "sy_capture (fs_sys s) = CapPush a" and step: "producer_thread (fs_threads s) t"
    and inside: "tq_prod t \<noteq> ProdIdle \<Longrightarrow> prod_frame (tq_prod t) = Some f"
    and returned: "tq_prod t = ProdIdle \<Longrightarrow> tq_offered t = rr_offered (sy_run (fs_sys s)) @ [f]"
    and s': "s' = (if tq_prod t = ProdIdle then fs_goto_capture CapLoop (fs_update t s) else fs_update t s)"
  shows "\<exists>r'. tq_sim (fs_threads s') r' \<and> fs_control s'
    \<and> (fs_abs s' r' = fs_abs s r \<or> capture_step cam (fs_abs s r) (fs_abs s' r'))"
proof -
  note keep = producer_thread_keeps [OF step]
  have th: "fs_threads s' = t" by (simp add: s')
  have ctl': "fs_control s'" using ctl keep m inside by (auto simp: fs_control_def s' fs_defs f_def)
  have rr: "rr_inv r" using inv by (simp add: sy_inv_def sy_queue_ok_def)
  have off: "rr_offered r = rr_offered (sy_run (fs_sys s)) @ pending_offer (fs_push s)"
    using tq_sim_offered [OF sim] by simp
  from tq_sim_producer [OF sim rr step] show ?thesis
  proof
    assume t: "tq_sim t r"
    have "capture_ahead (tq_prod t) (if tq_prod t = ProdIdle then CapLoop else CapPush a) = capture_ahead (fs_push s) (CapPush a)"
      using tq_sim_offered [OF t] off returned keep(4) by (auto simp: capture_ahead_def)
    then have "fs_abs s' r = fs_abs s r"
      using keep m by (intro client_sys.equality) (simp_all add: s' fs_defs split: if_splits)
    then show ?thesis using t th ctl' by auto
  next
    assume "\<exists>g r'. atomic_push g r r' \<and> tq_sim t r'"
    then obtain g r' where push: "atomic_push g r r'" and t: "tq_sim t r'" by blast
    have "rr_offered r' = rr_offered r @ [g]" using push by (auto simp: atomic_push_def)
    then have eq: "tq_offered t @ pending_offer (tq_prod t)
        = rr_offered (sy_run (fs_sys s)) @ pending_offer (fs_push s) @ [g]"
      using tq_sim_offered [OF t] off by simp
    have g: "g = f" "pending_offer (fs_push s) = []" "tq_prod t = ProdIdle \<or> pending_offer (tq_prod t) \<noteq> []"
      using eq returned inside keep(4) pending_frame [of "tq_prod t"] by (cases "tq_prod t = ProdIdle"; auto)+
    obtain bs where a: "pa_data a = Some bs" "unat (pa_len a) \<le> length bs"
      using inv g(2) m by (auto simp: sy_inv_def sy_camera_ok_def capture_ahead_def)
    obtain ok q' where q: "push_frame f (rr_queue r) = Some (ok, q')" "length (fr_payload f) < 2 ^ 32"
      and r': "r' = run_push a q' r"
      using push g(1) by (auto simp: atomic_push_def run_push_def f_def)
    have "rq_inv (rr_queue r)" "\<not> mutex_locked (rr_queue r)" using rr by (simp_all add: rr_inv_def)
    from push_frame_limit [OF this q(2,1)] have stride: "slot_stride q' = slot_stride (rr_queue r)" by simp
    have eq: "fs_abs s' r' = (fs_abs s r)\<lparr>sy_run := run_push a q' (sy_run (fs_abs s r)), sy_capture := CapLoop\<rparr>"
      using keep m g(3) pending_packets_stride [OF stride]
      by (intro client_sys.equality) (auto simp: s' fs_defs r' run_push_def capture_ahead_def)
    have "capture_step cam (fs_abs s r) (fs_abs s' r')"
      unfolding eq by (rule capture_pushes [of _ _ ok])
        (use m g(2) q(1) push_call_frame(1) [OF a] in \<open>simp_all add: capture_ahead_def f_def\<close>)
    then show ?thesis using t th ctl' by auto
  qed
qed

lemma fs_capture_alone:
  assumes ctl: "fs_control s" and m: "sy_capture (fs_sys s) = CapLoop" and step: "capture_step cam (fs_sys s) c"
  shows "sy_run c = sy_run (fs_sys s)" and "fs_control (s\<lparr>fs_sys := c\<rparr>)"
    and "capture_step cam (fs_abs s r) (fs_abs (s\<lparr>fs_sys := c\<rparr>) r)"
proof -
  have push: "fs_push s = ProdIdle" using ctl m by (auto simp: fs_control_def)
  show "sy_run c = sy_run (fs_sys s)" using step m by cases simp_all
  show "fs_control (s\<lparr>fs_sys := c\<rparr>)" using step ctl push m by cases (auto simp: fs_control_def)
  show "capture_step cam (fs_abs s r) (fs_abs (s\<lparr>fs_sys := c\<rparr>) r)"
    using step
  proof cases
    case (capture_skips w c' w')
    then have eq: "fs_abs (s\<lparr>fs_sys := c\<rparr>) r = (fs_abs s r)\<lparr>sy_camera := c'\<rparr>"
      by (intro client_sys.equality) simp_all
    show ?thesis unfolding eq by (rule capture_step.capture_skips) (use capture_skips push in simp_all)
  next
    case (capture_grabs w a c' w')
    then have eq: "fs_abs (s\<lparr>fs_sys := c\<rparr>) r = (fs_abs s r)\<lparr>sy_camera := c', sy_capture := CapPush a\<rparr>"
      using push by (intro client_sys.equality) simp_all
    show ?thesis unfolding eq by (rule capture_step.capture_grabs) (use capture_grabs push in simp_all)
  next
    case (capture_pushes a ok q')
    then show ?thesis using m by simp
  next
    case capture_ends
    then have eq: "fs_abs (s\<lparr>fs_sys := c\<rparr>) r = (fs_abs s r)\<lparr>sy_capture := CapDone\<rparr>"
      using push by (intro client_sys.equality) simp_all
    show ?thesis unfolding eq by (rule capture_step.capture_ends) (use capture_ends push in simp_all)
  qed
qed

section \<open>The network thread\<close>

lemma consumer_thread_keeps:
  assumes "consumer_thread s t"
  shows "tq_prod t = tq_prod s" and "tq_main t = tq_main s" and "tq_offered t = tq_offered s"
  using assms by (auto elim!: consumer_thread.cases)

lemma atomic_free_run: "rr_inv r \<Longrightarrow> atomic_free pkt r r' \<Longrightarrow> r' = run_free pkt r"
  by (auto simp: atomic_free_def run_free_def dest: rr_inv_live)

text \<open>Where \<open>pop\<close> leaves the network thread.\<close>

definition after_pop :: "queue_threads \<Rightarrow> queue_threads \<Rightarrow> network_pc \<Rightarrow> bool" where
  "after_pop s t pc \<longleftrightarrow>
     (if tq_cons t \<noteq> ConsIdle then pc = NetPop
      else tq_cons s \<noteq> ConsIdle
        \<and> (tq_live t = tq_live s \<and> pc = NetLoop \<or> (\<exists>pkt f. tq_live t = tq_live s @ [(pkt, f)] \<and> pc = NetHeader pkt)))"

lemma fs_network_pops:
  fixes api :: "'w tls_api"
  assumes sim: "tq_sim (fs_threads s) r" and ctl: "fs_control s" and inv: "sy_inv bo (fs_abs s r)"
    and m: "sy_network (fs_sys s) = NetPop" and step: "consumer_thread (fs_threads s) t"
    and pc: "after_pop (fs_threads s) t pc" and s': "s' = fs_goto_network pc (fs_update t s)"
  shows "\<exists>r'. tq_sim (fs_threads s') r' \<and> fs_control s'
    \<and> (fs_abs s' r' = fs_abs s r \<or> network_step api bo (fs_abs s r) (fs_abs s' r'))"
proof -
  note keep = consumer_thread_keeps [OF step]
  have rr: "rr_inv r" using inv by (simp add: sy_inv_def sy_queue_ok_def)
  have th: "fs_threads s' = t" by (simp add: s')
  have ctl': "fs_control s'" using ctl keep pc by (auto simp: fs_control_def s' fs_defs after_pop_def split: if_splits)
  obtain r' where eff: "cons_effect (fs_threads s) t r r'" and t: "tq_sim t r'"
    using tq_sim_consumer [OF sim rr step] by blast
  have abs': "fs_abs s' r' = (fs_abs s r)\<lparr>sy_run := r', sy_network := network_ahead (pending_packets (tq_cons t) (rr_queue r')) pc\<rparr>"
    using keep by (intro client_sys.equality) (simp_all add: s' fs_defs)
  have same: "fs_abs s' r' = (fs_abs s r)\<lparr>sy_network := network_ahead (pending_packets (tq_cons t) (rr_queue r)) pc\<rparr>" if "r' = r"
    unfolding abs' using that by (intro client_sys.equality) simp_all
  have "fs_abs s' r' = fs_abs s r \<or> network_step api bo (fs_abs s r) (fs_abs s' r')"
    using eff unfolding cons_effect_def
  proof (elim disjE exE conjE)
    assume e: "r' = r" "tq_live t = tq_live (fs_threads s)" "pending_packets (tq_cons t) = pending_packets (tq_cons (fs_threads s))"
    show ?thesis
    proof (cases "tq_cons t = ConsIdle")
      case True
      then have "pending_packets (fs_pop s) = (\<lambda>q. [])" using e(3) by (metis fs_threads_fields(3) pending_idle(2))
      then show ?thesis
        using True pc m network_times_out [of "fs_abs s r" api bo] unfolding same [OF e(1)] by (simp add: after_pop_def e(2))
    next
      case False
      then show ?thesis using pc e(3) m unfolding same [OF e(1)]
        by (intro disjI1 client_sys.equality) (simp_all add: after_pop_def)
    qed
  next
    fix idx hdr f
    let ?p = "make_packet (rr_queue r) idx hdr"
    assume e: "r' = r" "tq_cons (fs_threads s) = ConsMalloc idx hdr" "tq_cons t = ConsIdle"
      "tq_live t = tq_live (fs_threads s) @ [(?p, f)]"
    then have "pc = NetHeader ?p" using pc by (auto simp: after_pop_def)
    then show ?thesis
      using e(2,3) network_allocates [of "fs_abs s r" ?p api bo] unfolding same [OF e(1)] by (simp add: pending_packets_def)
  next
    fix idx hdr
    let ?p = "make_packet (rr_queue r) idx hdr"
    assume e: "tq_cons (fs_threads s) = ConsTake" "tq_cons t = ConsUnlock idx hdr" and take: "atomic_take ?p r r'"
    have "QUEUE_TIMEOUT_MS \<noteq> 0" by (simp add: QUEUE_TIMEOUT_MS_def)
    then obtain q' w' where p: "pop (nowait_env :: 'w rq_env) QUEUE_TIMEOUT_MS undefined (rr_queue r) = Some (Some ?p, q', w')"
      and r': "r' = r\<lparr>rr_queue := q', rr_delivered := rr_delivered r @ [packet_frame q' ?p],
             rr_live := rr_live r @ [(?p, packet_frame q' ?p)]\<rparr>"
      by (rule atomic_take_pop [OF rr take])
    have "rr_queue r' = mutex_unlock (rq_pop_state (mutex_lock (rr_queue r)))" using take by (auto simp: atomic_take_def)
    then have "make_packet (rr_queue r') idx hdr = ?p" by (simp add: make_packet_def rq_pop_state_def)
    then have eq: "fs_abs s' r' = (fs_abs s r)\<lparr>sy_run := run_pop ?p q' (sy_run (fs_abs s r)), sy_network := NetTaken ?p\<rparr>"
      using e(2) unfolding abs' by (simp add: pending_packets_def run_pop_def r')
    have "sy_network (fs_abs s r) = NetPop" using e(1) m by (simp add: pending_packets_def)
    then show ?thesis unfolding eq by (intro disjI2 network_pops [OF _ nowait_env_idle]) (use p in simp_all)
  next
    fix idx hdr
    let ?p = "make_packet (rr_queue r) idx hdr"
    assume e: "tq_cons (fs_threads s) = ConsMalloc idx hdr" "tq_cons t = ConsIdle" "tq_live t = tq_live (fs_threads s)"
      "atomic_free ?p r r'"
    then have "pc = NetLoop" using pc by (auto simp: after_pop_def)
    then show ?thesis
      using e atomic_free_run [OF rr e(4)] network_no_memory [of "fs_abs s r" ?p api bo] unfolding abs'
      by (simp add: pending_packets_def)
  next
    fix pkt
    assume "tq_cons (fs_threads s) = ConsIdle" "tq_cons t = ConsIdle"
    then show ?thesis using pc by (simp add: after_pop_def)
  qed
  then show ?thesis using t th ctl' by auto
qed

text \<open>A packet is freed by the store that clears its flag.\<close>

lemma fs_network_frees:
  assumes sim: "tq_sim (fs_threads s) r" and pop: "fs_pop s = ConsIdle" and inv: "sy_inv bo (fs_abs s r)"
    and held: "held_packets (sy_network (fs_sys s)) = [pkt]" and run: "sy_run c = run_free pkt (sy_run (fs_sys s))"
  shows "tq_sim (fs_threads (s\<lparr>fs_sys := c\<rparr>)) (run_free pkt r)"
proof -
  let ?s = "fs_threads s" and ?t = "fs_threads (s\<lparr>fs_sys := c\<rparr>)"
  have qok: "sy_queue_ok (fs_abs s r)" and rr: "rr_inv r" using inv by (simp_all add: sy_inv_def sy_queue_ok_def)
  have h: "held_packets (sy_network (fs_abs s r)) = [pkt]" using held pop by simp
  note q = queue_ok_held [OF qok, of pkt]
  have p: "packet_live (rr_queue r) pkt" "(pkt, packet_frame (rr_queue r) pkt) \<in> set (rr_live r)" "rq_inv (rr_queue r)"
    using q h by simp_all
  have "packet_frame (sy_queue (fs_sys s)) pkt = packet_frame (rr_queue r) pkt"
    using prod_sim_packet [OF _ _ p(3,1)] sim by (auto simp: tq_sim_def)
  moreover have live: "rr_live r = tq_live ?s" using sim pop by (simp add: tq_sim_def with_frames_def)
  ultimately have mem: "(pkt, packet_frame (sy_queue (fs_sys s)) pkt) \<in> set (tq_live ?s)" using p(2) by simp
  have t: "?t = ?s\<lparr>tq_queue := frame_packet_free (Some pkt) (tq_queue ?s),
      tq_live := remove1 (pkt, packet_frame (sy_queue (fs_sys s)) pkt) (tq_live ?s)\<rparr>"
    by (simp add: fs_threads_def run run_free_def Let_def)
  have "consumer_thread ?s ?t" unfolding t by (rule packet_frees) (use pop mem in simp_all)
  from tq_sim_consumer [OF sim rr this] obtain r' where eff: "cons_effect ?s ?t r r'" and r': "tq_sim ?t r'" by blast
  have one: "map fst (rr_live r) = [pkt]" using qok h by (simp add: sy_queue_ok_def)
  then have "tq_live ?t \<noteq> tq_live ?s" using mem live unfolding t by (cases "rr_live r") auto
  then obtain pkt' where free: "atomic_free pkt' r r'" using eff pop by (auto simp: cons_effect_def)
  then have "pkt' \<in> set (map fst (rr_live r))" by (force simp: atomic_free_def)
  then have "r' = run_free pkt r" using free atomic_free_run [OF rr] one by auto
  then show ?thesis using r' by simp
qed

lemma fs_network_alone:
  assumes sim: "tq_sim (fs_threads s) r" and ctl: "fs_control s" and inv: "sy_inv bo (fs_abs s r)"
    and m: "sy_network (fs_sys s) \<noteq> NetPop" and step: "network_step api bo (fs_sys s) c"
  shows "\<exists>r'. tq_sim (fs_threads (s\<lparr>fs_sys := c\<rparr>)) r' \<and> fs_control (s\<lparr>fs_sys := c\<rparr>)
    \<and> network_step api bo (fs_abs s r) (fs_abs (s\<lparr>fs_sys := c\<rparr>) r')"
proof -
  have pop: "fs_pop s = ConsIdle" and untaken: "\<And>p. sy_network (fs_sys s) \<noteq> NetTaken p"
    using ctl m by (auto simp: fs_control_def)
  have ctl': "fs_control (s\<lparr>fs_sys := c\<rparr>)"
    using step pop ctl m untaken by cases (auto simp: fs_control_def)
  have same: "tq_sim (fs_threads (s\<lparr>fs_sys := c\<rparr>)) r" if "sy_run c = sy_run (fs_sys s)"
    using sim fs_threads_same [OF that] by simp
  note frees = fs_network_frees [OF sim pop inv, of _ c]
  show ?thesis
    using step
  proof cases
    case (network_connects w go t w')
    then have eq: "fs_abs (s\<lparr>fs_sys := c\<rparr>) r = (fs_abs s r)\<lparr>sy_tls := t, sy_network := (if go then NetPop else NetLoop)\<rparr>"
      using pop by (intro client_sys.equality) simp_all
    have "network_step api bo (fs_abs s r) (fs_abs (s\<lparr>fs_sys := c\<rparr>) r)"
      unfolding eq by (rule network_step.network_connects) (use network_connects pop in simp_all)
    then show ?thesis using same ctl' network_connects(1) by auto
  next
    case (network_header pkt w ok t w')
    then have eq: "fs_abs (s\<lparr>fs_sys := c\<rparr>) r = (fs_abs s r)\<lparr>sy_tls := t, sy_network := (if ok then NetPayload pkt else NetAbort pkt)\<rparr>"
      using pop by (intro client_sys.equality) simp_all
    have "network_step api bo (fs_abs s r) (fs_abs (s\<lparr>fs_sys := c\<rparr>) r)"
      unfolding eq by (rule network_step.network_header) (use network_header pop in simp_all)
    then show ?thesis using same ctl' network_header(1) by auto
  next
    case (network_payload pkt w ok t w')
    then have eq: "fs_abs (s\<lparr>fs_sys := c\<rparr>) r = (if ok then (fs_abs s r)\<lparr>sy_tls := count_sent pkt t, sy_network := NetFree pkt\<rparr>
                           else (fs_abs s r)\<lparr>sy_tls := t, sy_network := NetAbort pkt\<rparr>)"
      using pop by (intro client_sys.equality) simp_all
    have "sy_queue_ok (fs_abs s r)" "pkt \<in> set (held_packets (sy_network (fs_abs s r)))"
      using inv network_payload(2) pop by (simp_all add: sy_inv_def held_packets_def)
    then have "packet_live (rr_queue r) pkt" "rq_inv (rr_queue r)" using queue_ok_held(1,3) by fastforce+
    then have "packet_frame (sy_queue (fs_sys s)) pkt = packet_frame (rr_queue r) pkt"
      using prod_sim_packet sim by (auto simp: tq_sim_def)
    then have "mem_read (rq_mem (rr_queue r)) (pkt_data pkt) (unat (pkt_len pkt))
        = mem_read (rq_mem (sy_queue (fs_sys s))) (pkt_data pkt) (unat (pkt_len pkt))"
      by (simp add: packet_frame_def)
    then have "network_step api bo (fs_abs s r) (fs_abs (s\<lparr>fs_sys := c\<rparr>) r)"
      unfolding eq by (intro network_step.network_payload) (use network_payload pop in simp_all)
    then show ?thesis using same ctl' network_payload(1) by auto
  next
    case (network_aborts pkt)
    let ?r = "run_free pkt r"
    have eq: "fs_abs (s\<lparr>fs_sys := c\<rparr>) ?r = (fs_abs s r)\<lparr>sy_run := run_free pkt (sy_run (fs_abs s r)),
        sy_tls := tlsDisconnect (sy_tls (fs_abs s r)), sy_network := NetLoop\<rparr>"
      using pop network_aborts by (intro client_sys.equality) simp_all
    have "network_step api bo (fs_abs s r) (fs_abs (s\<lparr>fs_sys := c\<rparr>) ?r)"
      unfolding eq by (rule network_step.network_aborts) (use network_aborts pop in simp_all)
    then show ?thesis using frees ctl' network_aborts by (auto simp: held_packets_def)
  next
    case (network_frees pkt)
    let ?r = "run_free pkt r"
    have eq: "fs_abs (s\<lparr>fs_sys := c\<rparr>) ?r = (fs_abs s r)\<lparr>sy_run := run_free pkt (sy_run (fs_abs s r)), sy_network := NetLoop\<rparr>"
      using pop network_frees by (intro client_sys.equality) simp_all
    have "network_step api bo (fs_abs s r) (fs_abs (s\<lparr>fs_sys := c\<rparr>) ?r)"
      unfolding eq by (rule network_step.network_frees) (use network_frees pop in simp_all)
    then show ?thesis using frees ctl' network_frees by (auto simp: held_packets_def)
  next
    case network_ends
    then have eq: "fs_abs (s\<lparr>fs_sys := c\<rparr>) r = (fs_abs s r)\<lparr>sy_tls := tlsDisconnect (sy_tls (fs_abs s r)), sy_network := NetDone\<rparr>"
      using pop by (intro client_sys.equality) simp_all
    have "network_step api bo (fs_abs s r) (fs_abs (s\<lparr>fs_sys := c\<rparr>) r)"
      unfolding eq by (rule network_step.network_ends) (use network_ends pop in simp_all)
    then show ?thesis using same ctl' network_ends(1) by auto
  qed (use m untaken in simp_all)
qed

section \<open>The simulation\<close>

lemma fs_init_sim:
  assumes "client_env_ok env" and "fs_init env s"
  shows "\<exists>c. sy_init env c \<and> fs_sim s c"
proof -
  obtain c where c: "sy_init env c" and s: "s = \<lparr> fs_sys = c, fs_push = ProdIdle, fs_pop = ConsIdle, fs_shut = ShutIdle \<rparr>"
    using assms(2) by (auto simp: fs_init_def)
  have "sy_inv LittleEndian c" using sy_inv_init [OF _ c] assms(1) by (simp add: client_env_ok_def)
  then have m: "\<not> mutex_locked (sy_queue c)" by (simp add: sy_inv_def sy_queue_ok_def rr_inv_def)
  obtain q cam t where st: "c = start_sys q cam t" using c by (auto simp: sy_init_def)
  have "tq_sim (fs_threads s) (sy_run c)"
    using m by (simp add: tq_sim_def s tq_mutex_def tq_no_lost_wakeup_def prod_args_def prod_sim_def with_frames_def)
  moreover have "fs_control s" by (simp add: fs_control_def s st start_sys_def)
  moreover have "c = fs_abs s (sy_run c)" by (intro client_sys.equality) (simp_all add: s)
  ultimately have "fs_sim s c" unfolding fs_sim_def by blast
  then show ?thesis using c by blast
qed

lemma fine_main_sim:
  assumes sim: "tq_sim (fs_threads s) r" "fs_control s" "sy_inv bo (fs_abs s r)" and step: "fine_main_step s s'"
  shows "\<exists>r'. tq_sim (fs_threads s') r' \<and> fs_control s' \<and> (fs_abs s' r' = fs_abs s r \<or> main_step (fs_abs s r) (fs_abs s' r'))"
  using step
proof cases
  case (main_alone c)
  then show ?thesis using fs_main_alone [OF sim] by blast
next
  case (main_shuts status t)
  show ?thesis by (rule fs_main_shuts [OF sim(1,2) main_shuts(2,3)]) (use main_shuts in simp)
next
  case (main_shut status t)
  show ?thesis by (rule fs_main_shuts [OF sim(1,2) main_shut(2,3)]) (use main_shut in simp)
qed

lemma producer_first:
  "producer_thread s t \<Longrightarrow> tq_prod s = ProdIdle \<Longrightarrow> tq_prod t = ProdIdle \<Longrightarrow> \<exists>f. tq_offered t = tq_offered s @ [f]"
  by (auto elim!: producer_thread.cases)

lemma fine_capture_sim:
  assumes sim: "tq_sim (fs_threads s) r" "fs_control s" "sy_inv bo (fs_abs s r)" and step: "fine_capture_step cam s s'"
  shows "\<exists>r'. tq_sim (fs_threads s') r' \<and> fs_control s' \<and> (fs_abs s' r' = fs_abs s r \<or> capture_step cam (fs_abs s r) (fs_abs s' r'))"
  using step
proof cases
  case (capture_alone c)
  from fs_capture_alone [OF sim(2) capture_alone(2,3)] show ?thesis
    using sim(1) fs_threads_same capture_alone(1) by metis
next
  case (capture_calls a t)
  show ?thesis by (rule fs_capture_pushes [OF sim capture_calls(2,4)]) (use capture_calls in \<open>simp_all add: prod_frame_def\<close>)
next
  case (capture_refused a t)
  show ?thesis by (rule fs_capture_pushes [OF sim capture_refused(2,4)]) (use capture_refused in simp_all)
next
  case (capture_in_push a t)
  have "prod_frame (tq_prod (fs_threads s)) = Some (args_frame a)"
    using sim(2) capture_in_push(2,3) by (auto simp: fs_control_def)
  note f = producer_frame [OF capture_in_push(4) this]
  show ?thesis by (rule fs_capture_pushes [OF sim capture_in_push(2,4)]) (use f capture_in_push in simp_all)
next
  case (capture_returns a t)
  have "prod_frame (tq_prod (fs_threads s)) = Some (args_frame a)"
    using sim(2) capture_returns(2,3) by (auto simp: fs_control_def)
  note f = producer_frame [OF capture_returns(4) this]
  show ?thesis by (rule fs_capture_pushes [OF sim capture_returns(2,4)]) (use f capture_returns in simp_all)
qed

lemma fine_network_sim:
  assumes sim: "tq_sim (fs_threads s) r" "fs_control s" "sy_inv bo (fs_abs s r)" and step: "fine_network_step api bo s s'"
  shows "\<exists>r'. tq_sim (fs_threads s') r' \<and> fs_control s' \<and> (fs_abs s' r' = fs_abs s r \<or> network_step api bo (fs_abs s r) (fs_abs s' r'))"
proof -
  have stay: "fs_goto_network NetPop (fs_update t s) = fs_update t s" if "sy_network (fs_sys s) = NetPop" for t
    using that by (intro fine_sys.equality client_sys.equality) (simp_all add: fs_defs)
  show ?thesis
    using step
  proof cases
    case (network_alone c)
    then show ?thesis using fs_network_alone [OF sim network_alone(2,3)] by blast
  next
    case (network_calls t)
    show ?thesis by (rule fs_network_pops [OF sim network_calls(2,4), of NetPop]) (use network_calls in \<open>simp_all add: after_pop_def stay\<close>)
  next
    case (network_in_pop t)
    show ?thesis by (rule fs_network_pops [OF sim network_in_pop(2,4), of NetPop]) (use network_in_pop in \<open>simp_all add: after_pop_def stay\<close>)
  next
    case (network_gets t pkt f)
    show ?thesis by (rule fs_network_pops [OF sim network_gets(2,4), of "NetHeader pkt"]) (use network_gets in \<open>simp_all add: after_pop_def\<close>)
  next
    case (network_gets_none t)
    show ?thesis by (rule fs_network_pops [OF sim network_gets_none(2,4), of NetLoop]) (use network_gets_none in \<open>simp_all add: after_pop_def\<close>)
  qed
qed

interpretation fine_client: forward_simulation
  "\<lambda>s. client_env_ok env \<and> fs_init env s" "fine_step env bo" "sy_init env" "sy_step env bo"
  "\<lambda>s c. client_env_ok env \<and> fs_sim s c" for env bo
proof unfold_locales
  fix s assume "client_env_ok env \<and> fs_init env s"
  then show "\<exists>c. sy_init env c \<and> client_env_ok env \<and> fs_sim s c" using fs_init_sim by blast
next
  fix c s t assume c: "reach (sy_init env) (sy_step env bo) c" and s: "client_env_ok env \<and> fs_sim s c" and st: "fine_step env bo s t"
  then obtain r where r: "tq_sim (fs_threads s) r" "fs_control s" and abs: "c = fs_abs s r" by (auto simp: fs_sim_def)
  have "sy_inv bo (fs_abs s r)" using client_reachable [OF _ c] s abs by simp
  note sim = r this
  obtain r' where "tq_sim (fs_threads t) r'" "fs_control t" "fs_abs t r' = fs_abs s r \<or> sy_step env bo (fs_abs s r) (fs_abs t r')"
    using st fine_main_sim [OF sim] fine_capture_sim [OF sim] fine_network_sim [OF sim]
    unfolding fine_step_def sy_step_def by metis
  then show "\<exists>b. (sy_step env bo)\<^sup>*\<^sup>* c b \<and> client_env_ok env \<and> fs_sim t b"
    using fs_matched s unfolding abs by blast
qed

lemma fine_simulated:
  assumes "client_env_ok env" and "reach (fs_init env) (fine_step env bo) s"
  obtains r where "reach (sy_init env) (sy_step env bo) (fs_abs s r)" "tq_sim (fs_threads s) r" "fs_control s"
  using fine_client.sim_reach [of env bo s] assms by (auto simp: fs_sim_def)

end
