(* ===== verification/Streamer_Threads_Runs.thy ===== *)
theory Streamer_Threads_Runs
  imports Streamer_Threads
begin

text \<open>
  What the simulation of \<open>Streamer_Threads\<close> gives for the client at the grain of the steps inside its calls:
  the connections carry captured frames only, no access of the queue's memory races with another,
  the threads do not deadlock in the queue, and when \<open>main\<close> deletes its objects no thread is in them.
\<close>

section \<open>The coarse program describes the fine one\<close>

text \<open>
  C4. In every interleaving of the steps that the three threads make inside \<open>push\<close>, \<open>pop\<close> and
  \<open>shutdown\<close>, the program is in a state that the program with atomic calls reaches, too: the same
  connection, camera and running flag; the frames offered are those of the finished calls and of one
  that has taken effect; the packets that are out and the frames delivered are there too. A thread
  that is in no call is at the same place, and while no \<open>push\<close> is under way the ring is the same.
\<close>

theorem client_threads_refine:
  assumes "client_env_ok env" and "reach (fs_init env) (fine_step env bo) s"
  shows "\<exists>c. reach (sy_init env) (sy_step env bo) c
    \<and> sy_tls c = sy_tls (fs_sys s) \<and> sy_camera c = sy_camera (fs_sys s) \<and> sy_running c = sy_running (fs_sys s)
    \<and> rr_offered (sy_run c) = rr_offered (sy_run (fs_sys s)) @ pending_offer (fs_push s)
    \<and> prefix (rr_live (sy_run (fs_sys s))) (rr_live (sy_run c))
    \<and> subseq (rr_delivered (sy_run (fs_sys s))) (rr_delivered (sy_run c))
    \<and> (fs_push s = ProdIdle \<longrightarrow> sy_capture c = sy_capture (fs_sys s) \<and> same_ring (sy_queue (fs_sys s)) (sy_queue c))
    \<and> (fs_pop s = ConsIdle \<longrightarrow> sy_network c = sy_network (fs_sys s) \<and> rr_live (sy_run c) = rr_live (sy_run (fs_sys s)))
    \<and> (fs_shut s = ShutIdle \<longrightarrow> sy_main c = sy_main (fs_sys s))"
proof -
  obtain r where c: "reach (sy_init env) (sy_step env bo) (fs_abs s r)" and r: "tq_sim (fs_threads s) r"
    by (rule fine_simulated [OF assms])
  have "subseq (rr_delivered (sy_run (fs_sys s))) (rr_delivered r)"
    using r subseq_without_last by (auto simp: tq_sim_def)
  with c r show ?thesis
    by (intro exI [of _ "fs_abs s r"]) (auto simp: tq_sim_def prod_sim_def with_frames_def)
qed

section \<open>What the connections carry\<close>

text \<open>
  End to end at the grain of these steps: whatever the threads do between any two steps inside the
  calls of the queue, the frames that the finished connections carried are a subsequence of the frames that
  the capture thread has offered, the one that its present \<open>push\<close> has stored included; their numbers
  increase, and no payload exceeds 4 MB.
\<close>

lemma fine_client_sends:
  assumes "client_env_ok env" and "reach (fs_init env) (fine_step env bo) s"
    and "length (rr_offered (sy_run (fs_sys s))) < 2 ^ 64"
  shows "subseq (wire_frames (fs_sys s)) (rr_offered (sy_run (fs_sys s)) @ pending_offer (fs_push s))
    \<and> sorted_wrt (<) (map fr_seq (wire_frames (fs_sys s)))
    \<and> list_all (\<lambda>f. length (fr_payload f) \<le> 4194304) (wire_frames (fs_sys s))"
proof -
  obtain r where c: "reach (sy_init env) (sy_step env bo) (fs_abs s r)" and r: "tq_sim (fs_threads s) r"
    by (rule fine_simulated [OF assms(1,2)])
  have "rr_offered r = rr_offered (sy_run (fs_sys s)) @ pending_offer (fs_push s)"
    using tq_sim_offered [OF r] by simp
  moreover have "length (pending_offer (fs_push s)) \<le> 1" using pending_frame [of "fs_push s"] by auto
  moreover have "wire_frames (fs_abs s r) = wire_frames (fs_sys s)" by (simp add: wire_frames_def)
  ultimately show ?thesis using inv_sends [OF client_reachable [OF assms(1) c]] assms(3) by simp
qed

section \<open>The memory of the queue\<close>

text \<open>
  C7. In the running client no access to the queue's memory races with another: at most one of the
  three threads is inside a critical section; the packet in the hands of the network thread, also
  while it writes it to the connection, shows the frame that \<open>pop\<close> delivered; and where the capture
  thread is about to write a frame, the bytes have none in common with those of this packet or of the
  one that \<open>pop\<close> is about to return.
\<close>

theorem client_threads_race_free:
  assumes "client_env_ok env" and "reach (fs_init env) (fine_step env bo) s"
  shows "of_bool (prod_locks (fs_push s)) + of_bool (cons_locks (fs_pop s)) + of_bool (main_locks (fs_shut s)) \<le> (1 :: nat)
    \<and> map fst (rr_live (sy_run (fs_sys s))) = held_packets (sy_network (fs_sys s))
    \<and> list_all (\<lambda>(p, f). packet_frame (sy_queue (fs_sys s)) p = f) (rr_live (sy_run (fs_sys s)))
    \<and> (\<forall>f. fs_push s = ProdWrite f \<longrightarrow>
         list_all (\<lambda>p. bytes_apart (slotHdr (slot_stride (sy_queue (fs_sys s))) (head (sy_queue (fs_sys s))))
                         (sizeof_SlotHeader + length (fr_payload f)) (pkt_data p) (unat (pkt_len p)))
           (held_packets (sy_network (fs_sys s)) @ pending_packets (fs_pop s) (sy_queue (fs_sys s))))"
proof -
  obtain r where c: "reach (sy_init env) (sy_step env bo) (fs_abs s r)" and r: "tq_sim (fs_threads s) r"
    and ctl: "fs_control s"
    by (rule fine_simulated [OF assms])
  have q: "sy_queue_ok (fs_abs s r)" using client_reachable [OF assms(1) c] by (simp add: sy_inv_def)
  have live: "rr_live r = rr_live (sy_run (fs_sys s)) @ with_frames (rr_queue r) (pending_packets (fs_pop s) (rr_queue r))"
    using r by (simp add: tq_sim_def)
  have "map fst (rr_live (sy_run (fs_sys s))) = held_packets (sy_network (fs_sys s))"
  proof (cases "pending_packets (fs_pop s) (rr_queue r)")
    case Nil
    then show ?thesis using q live by (simp add: sy_queue_ok_def with_frames_def)
  next
    case (Cons p ps)
    then have "fs_pop s \<noteq> ConsIdle" by auto
    then have "sy_network (fs_sys s) = NetPop" using ctl by (auto simp: fs_control_def)
    then show ?thesis using q live Cons by (auto simp: sy_queue_ok_def with_frames_def held_packets_def append_eq_Cons_conv)
  qed
  then show ?thesis using tq_sim_race_free [OF _ r] q by (simp add: sy_queue_ok_def)
qed

section \<open>No deadlock in the queue\<close>

text \<open>A thread inside a call can make the steps of the call.\<close>

lemma fine_calls:
  assumes ctl: "fs_control s" and step: "call_step (fs_threads s) t"
  shows "\<exists>s'. fine_step env bo s s' \<and> fs_threads s' = t"
proof -
  consider "fs_push s \<noteq> ProdIdle" "producer_thread (fs_threads s) t"
    | "fs_pop s \<noteq> ConsIdle" "consumer_thread (fs_threads s) t" | "fs_shut s \<noteq> ShutIdle" "shutdown_thread (fs_threads s) t"
    using step by (auto simp: call_step_def)
  then show ?thesis
  proof cases
    case 1
    then obtain a where "sy_capture (fs_sys s) = CapPush a" using ctl by (auto simp: fs_control_def)
    then show ?thesis
      using capture_in_push [OF _ 1] capture_returns [OF _ 1] unfolding fine_step_def by (metis fs_threads_simps(1,3))
  next
    case 2
    then have n: "sy_network (fs_sys s) = NetPop" using ctl by (auto simp: fs_control_def)
    have "tq_cons t = ConsIdle \<Longrightarrow> tq_live t = tq_live (fs_threads s) \<or> (\<exists>p f. tq_live t = tq_live (fs_threads s) @ [(p, f)])"
      using 2 by (auto elim!: consumer_thread.cases)
    then show ?thesis
      using network_in_pop [OF n 2] network_gets [OF n 2] network_gets_none [OF n 2] unfolding fine_step_def
      by (metis fs_threads_simps(1,4))
  next
    case 3
    then obtain status where "sy_main (fs_sys s) = ShutQueue status" using ctl by (auto simp: fs_control_def)
    then show ?thesis
      using main_shuts [OF _ 3(2)] main_shut [OF _ 3(2)] unfolding fine_step_def by (metis fs_threads_simps(1,2))
  qed
qed

text \<open>The client always waits with the timeout of \<open>QUEUE_TIMEOUT_MS\<close>.\<close>

definition pop_timeout :: "consumer_pc \<Rightarrow> int option" where
  "pop_timeout pc = (case pc of ConsLock n \<Rightarrow> Some n | ConsTest n \<Rightarrow> Some n | ConsWait n \<Rightarrow> Some n
     | ConsWoken n _ \<Rightarrow> Some n | _ \<Rightarrow> None)"

definition client_timeout :: "fine_sys \<Rightarrow> bool" where
  "client_timeout s \<longleftrightarrow> pop_timeout (fs_pop s) \<in> {None, Some QUEUE_TIMEOUT_MS}"

lemma pop_timeout_wake: "pop_timeout (wake pc) = pop_timeout pc"
  by (simp add: pop_timeout_def wake_def split: consumer_pc.split)

lemma pop_timeout_consumer:
  "consumer_thread s t \<Longrightarrow> tq_cons s \<noteq> ConsIdle \<Longrightarrow> pop_timeout (tq_cons t) \<in> {None, pop_timeout (tq_cons s)}"
  by (auto elim!: consumer_thread.cases simp: pop_timeout_def pop_test_def split: if_splits)

lemma pop_timeout_others:
  "producer_thread s t \<Longrightarrow> pop_timeout (tq_cons t) = pop_timeout (tq_cons s)"
  "shutdown_thread s t \<Longrightarrow> pop_timeout (tq_cons t) = pop_timeout (tq_cons s)"
  by (auto elim!: producer_thread.cases shutdown_thread.cases simp: pop_timeout_wake)

lemma fs_pop_simps [simp]:
  "fs_pop (fs_update t s) = tq_cons t" "fs_pop (fs_goto_main m s) = fs_pop s"
  "fs_pop (fs_goto_capture c s) = fs_pop s" "fs_pop (fs_goto_network n s) = fs_pop s"
  by (simp_all add: fs_defs)

interpretation client_waits: invariant_system "fs_init env" "fine_step env bo" client_timeout for env bo
proof unfold_locales
  show "client_timeout s" if "fs_init env s" for s
    using that by (auto simp: fs_init_def client_timeout_def pop_timeout_def)
next
  fix s t assume w: "client_timeout s" and "fine_step env bo s t"
  then consider "fine_main_step s t" | "fine_capture_step (env_cam env) s t" | "fine_network_step (env_tls env) bo s t"
    by (auto simp: fine_step_def)
  then show "client_timeout t"
  proof cases
    case 1
    then show ?thesis using w by cases (auto simp: client_timeout_def dest!: pop_timeout_others(2))
  next
    case 2
    then show ?thesis using w by cases (auto simp: client_timeout_def dest!: pop_timeout_others(1))
  next
    case 3
    then show ?thesis
      using w by cases (auto simp: client_timeout_def pop_timeout_def [of ConsIdle] pop_timeout_def [of "ConsLock n" for n]
          dest!: pop_timeout_consumer)
  qed
qed

text \<open>
  C8. No deadlock and no lost wake-up in the running client: wherever the threads are, one that is
  inside a call of the queue can make its next access, or no call is under way but a \<open>pop\<close> that sleeps
  until its timeout, and then there is no frame to wake up for.
\<close>

theorem client_calls_never_stuck:
  assumes "client_env_ok env" and "reach (fs_init env) (fine_step env bo) s"
  shows "(\<exists>s'. fine_step env bo s s' \<and> call_step (fs_threads s) (fs_threads s'))
    \<or> fs_push s = ProdIdle \<and> fs_shut s = ShutIdle
      \<and> (fs_pop s = ConsIdle \<or> fs_pop s = ConsWait QUEUE_TIMEOUT_MS
           \<and> rq_count (sy_queue (fs_sys s)) = 0 \<and> \<not> shutdown_flag (sy_queue (fs_sys s)))"
proof -
  obtain r where r: "tq_sim (fs_threads s) r" and ctl: "fs_control s" by (rule fine_simulated [OF assms])
  show ?thesis
  proof (cases "\<exists>t. call_step (fs_threads s) t")
    case True
    then show ?thesis using fine_calls [OF ctl] by metis
  next
    case False
    moreover have "timeout = QUEUE_TIMEOUT_MS" if "fs_pop s = ConsWait timeout" for timeout
      using client_waits.inv_reach [OF assms(2)] that by (simp add: client_timeout_def pop_timeout_def)
    ultimately show ?thesis using tq_sim_never_stuck [OF r] by auto
  qed
qed

section \<open>The end of the program\<close>

text \<open>
  C23. When \<open>main\<close> deletes its objects after a run, no thread is inside a call of the queue or can
  enter one again, the mutex is free, no slot is held, and the connection is closed with no
  descriptor left: the deletion cannot meet a thread at work.
\<close>

theorem fine_client_exit:
  assumes "client_env_ok env" and "reach (fs_init env) (fine_step env bo) s" and "sy_main (fs_sys s) = Exited EXIT_SUCCESS"
  shows "fs_push s = ProdIdle \<and> fs_pop s = ConsIdle \<and> fs_shut s = ShutIdle
    \<and> (\<forall>s'. \<not> fine_capture_step (env_cam env) s s' \<and> \<not> fine_network_step (env_tls env) bo s s')
    \<and> rr_live (sy_run (fs_sys s)) = [] \<and> rq_held (sy_queue (fs_sys s)) = {} \<and> \<not> mutex_locked (sy_queue (fs_sys s))
    \<and> tc_state (sy_tls (fs_sys s)) = Disconnected \<and> os_fds (tc_os (sy_tls (fs_sys s))) = []"
proof -
  obtain r where c: "reach (sy_init env) (sy_step env bo) (fs_abs s r)" and r: "tq_sim (fs_threads s) r"
    and ctl: "fs_control s" by (rule fine_simulated [OF assms(1,2)])
  have e: "sy_main (fs_abs s r) = Exited EXIT_SUCCESS" using assms(3) by simp
  note ended = exit_state [OF client_reachable [OF assms(1) c] e]
  have push: "fs_push s = ProdIdle" "sy_capture (fs_sys s) = CapDone"
    using ended(1) ctl by (auto simp: fs_control_def capture_ahead_def split: if_splits)
  have pop: "fs_pop s = ConsIdle" "sy_network (fs_sys s) = NetDone"
    using ended(2) ctl by (auto simp: fs_control_def network_ahead_def split: list.splits)
  have shut: "fs_shut s = ShutIdle" using ctl assms(3) by (auto simp: fs_control_def)
  have "\<not> fine_capture_step (env_cam env) s s'" "\<not> fine_network_step (env_tls env) bo s s'" for s'
    using push pop ended_threads_stay(2) [of "fs_sys s"] by (auto elim!: fine_capture_step.cases fine_network_step.cases)
  moreover have "same_ring (sy_queue (fs_sys s)) (rr_queue r)" "rr_live r = rr_live (sy_run (fs_sys s))" "tq_mutex (fs_threads s)"
    using r push(1) pop(1) by (simp_all add: tq_sim_def prod_sim_def with_frames_def)
  moreover from this have "rq_held (sy_queue (fs_sys s)) = rq_held (rr_queue r)" "\<not> mutex_locked (sy_queue (fs_sys s))"
    using push(1) pop(1) shut by (simp_all add: tq_mutex_def rq_held_eq same_ring_def)
  ultimately show ?thesis using ended push pop shut by simp
qed

section \<open>A concrete run\<close>

lemma reach_fine_main: "reach (fs_init env) (fine_step env bo) s \<Longrightarrow> fine_main_step s s' \<Longrightarrow> reach (fs_init env) (fine_step env bo) s'"
  by (erule reach_step) (simp add: fine_step_def)

lemma reach_fine_capture:
  "reach (fs_init env) (fine_step env bo) s \<Longrightarrow> fine_capture_step (env_cam env) s s' \<Longrightarrow> reach (fs_init env) (fine_step env bo) s'"
  by (erule reach_step) (simp add: fine_step_def)

lemma reach_fine_network:
  "reach (fs_init env) (fine_step env bo) s \<Longrightarrow> fine_network_step (env_tls env) bo s s' \<Longrightarrow> reach (fs_init env) (fine_step env bo) s'"
  by (erule reach_step) (simp add: fine_step_def)

text \<open>The capture thread goes from its call of \<open>push\<close> to where it is about to write the frame.\<close>

lemma fine_push_to_write:
  assumes r: "reach (fs_init env) (fine_step env bo) s" and m: "sy_capture (fs_sys s) = CapPush a" and "fs_push s = ProdIdle"
    and q: "\<not> mutex_locked (sy_queue (fs_sys s))" "frame_ok (sy_queue (fs_sys s)) (args_frame a)" "\<not> shutdown_flag (sy_queue (fs_sys s))"
      "rq_count (sy_queue (fs_sys s)) < capacity (sy_queue (fs_sys s))" "\<not> slot_in_use (sy_queue (fs_sys s)) ! head (sy_queue (fs_sys s))"
      "length (fr_payload (args_frame a)) < 2 ^ 32"
  shows "\<exists>s'. reach (fs_init env) (fine_step env bo) s' \<and> fs_push s' = ProdWrite (args_frame a)
    \<and> rr_offered (sy_run (fs_sys s')) = rr_offered (sy_run (fs_sys s))"
proof -
  let ?f = "args_frame a" and ?R = "reach (fs_init env) (fine_step env bo)"
  have go: "?R (fs_update t u) \<and> sy_capture (fs_sys (fs_update t u)) = CapPush a"
    if "?R u \<and> sy_capture (fs_sys u) = CapPush a" "fs_push u \<noteq> ProdIdle" "producer_thread (fs_threads u) t" "tq_prod t \<noteq> ProdIdle" for u t
    using reach_fine_capture [OF conjunct1 [OF that(1)] capture_in_push [OF conjunct2 [OF that(1)] that(2-4)]] that(1)
    by (simp add: fs_update_def)
  let ?t1 = "(fs_threads s)\<lparr>tq_prod := ProdLock ?f\<rparr>" and ?l = "mutex_lock (sy_queue (fs_sys s))"
  let ?at = "\<lambda>pc. (fs_threads s)\<lparr>tq_queue := ?l, tq_prod := pc\<rparr>"
  have "producer_thread (fs_threads s) ?t1" using push_calls [of "fs_threads s" ?f] assms by simp
  then have 1: "?R (fs_update ?t1 s) \<and> sy_capture (fs_sys (fs_update ?t1 s)) = CapPush a"
    using reach_fine_capture [OF r capture_calls [OF m assms(3), of ?t1]] m by (simp add: fs_update_def)
  have to: "?R (fs_update (?at pc') u) \<and> sy_capture (fs_sys (fs_update (?at pc') u)) = CapPush a"
    if "?R u \<and> sy_capture (fs_sys u) = CapPush a" "fs_threads u = t" "tq_prod t \<noteq> ProdIdle" "producer_thread t (?at pc')" "pc' \<noteq> ProdIdle" for u t pc'
    using go [OF that(1), of "?at pc'"] that by auto
  have "producer_thread ?t1 (?at (ProdEnter ?f))" using push_locks [of ?t1 ?f] q by simp
  from to [OF 1 _ _ this] obtain u2 where 2: "?R u2 \<and> sy_capture (fs_sys u2) = CapPush a" "fs_threads u2 = ?at (ProdEnter ?f)" by auto
  have "producer_thread (?at (ProdEnter ?f)) (?at (ProdRoom ?f))" using push_enters [of "?at (ProdEnter ?f)" ?f] q by simp
  from to [OF 2 _ this] obtain u3 where 3: "?R u3 \<and> sy_capture (fs_sys u3) = CapPush a" "fs_threads u3 = ?at (ProdRoom ?f)" by auto
  have "producer_thread (?at (ProdRoom ?f)) (?at (ProdGuard ?f))" using push_has_room [of "?at (ProdRoom ?f)" ?f] q by simp
  from to [OF 3 _ this] obtain u4 where 4: "?R u4 \<and> sy_capture (fs_sys u4) = CapPush a" "fs_threads u4 = ?at (ProdGuard ?f)" by auto
  have "producer_thread (?at (ProdGuard ?f)) (?at (ProdWrite ?f))" using push_head_free [of "?at (ProdGuard ?f)" ?f] q by simp
  from to [OF 4 _ this] obtain u5 where 5: "?R u5" "fs_threads u5 = ?at (ProdWrite ?f)" by auto
  from 5(2) have "tq_prod (fs_threads u5) = ProdWrite ?f" "tq_offered (fs_threads u5) = rr_offered (sy_run (fs_sys s))" by simp_all
  then show ?thesis using 5(1) by auto
qed

lemma demo_writing:
  "\<exists>s f. reach (fs_init demo_program) (fine_step demo_program bo) s \<and> fs_push s = ProdWrite f \<and> rr_offered (sy_run (fs_sys s)) = []"
proof -
  let ?R = "reach (fs_init demo_program) (fine_step demo_program bo)"
  obtain q c t a c' w' bs where i: "sy_init demo_program (start_sys q c t)"
    and q: "rq_inv q" "\<not> mutex_locked q" "streaming c" "\<not> shutdown_flag q" "max_frame_size q = 4194304" "rq_frames q = []" "rq_held q = {}"
    and g: "capture_grab demo_camera c 1 = (Some a, c', w')"
    and len: "0 < length (fr_payload (args_frame a))" "length (fr_payload (args_frame a)) \<le> 4"
    using demo_start by metis
  let ?s0 = "\<lparr> fs_sys = start_sys q c t, fs_push = ProdIdle, fs_pop = ConsIdle, fs_shut = ShutIdle \<rparr>"
  have r0: "?R ?s0" by (rule reach_init) (use i in \<open>simp add: fs_init_def\<close>)
  let ?c1 = "(start_sys q c t)\<lparr>sy_capture := CapLoop, sy_main := CreateNetwork\<rparr>"
  have r1: "?R (?s0\<lparr>fs_sys := ?c1\<rparr>)"
    by (rule reach_fine_main [OF r0], rule main_alone) (use create_capture [of "start_sys q c t"] in \<open>simp_all add: start_sys_def\<close>)
  let ?c2 = "?c1\<lparr>sy_camera := c', sy_capture := CapPush a\<rparr>"
  have "capture_step (env_cam demo_program) ?c1 ?c2"
    by (rule capture_grabs [of _ _ 1 _ _ w']) (use g q(3) in \<open>simp_all add: start_sys_def demo_program_def\<close>)
  then have "fine_capture_step (env_cam demo_program) (?s0\<lparr>fs_sys := ?c1\<rparr>) ((?s0\<lparr>fs_sys := ?c1\<rparr>)\<lparr>fs_sys := ?c2\<rparr>)"
    by (intro capture_alone) simp_all
  from reach_fine_capture [OF r1 this] have r2: "?R (?s0\<lparr>fs_sys := ?c2\<rparr>)" by simp
  have n: "rq_count q = 0" using arg_cong [OF q(6), of length] by simp
  then have "rq_count q < capacity q" "head q < capacity q" using q(1) by (simp_all add: rq_inv_def)
  moreover from this have "\<not> slot_in_use q ! head q" using q(7) by (auto simp: rq_held_eq)
  moreover have "frame_ok q (args_frame a)" using len q(5) by (simp add: frame_ok_def)
  ultimately show ?thesis using fine_push_to_write [OF r2, of a] q len by (fastforce simp: start_sys_def)
qed

theorem client_threads_refine_witness:
  "\<exists>s f c. reach (fs_init demo_program) (fine_step demo_program LittleEndian) s \<and> fs_push s = ProdWrite f
     \<and> reach (sy_init demo_program) (sy_step demo_program LittleEndian) c \<and> sy_tls c = sy_tls (fs_sys s) \<and> rr_offered (sy_run c) = []"
proof -
  obtain s f where s: "reach (fs_init demo_program) (fine_step demo_program LittleEndian) s" "fs_push s = ProdWrite f"
    "rr_offered (sy_run (fs_sys s)) = []" using demo_writing by blast
  then have "pending_offer (fs_push s) = []" by (simp add: pending_offer_def)
  then show ?thesis using client_threads_refine [OF demo_program_ok s(1)] s by fastforce
qed

lemma fine_client_sends_example:
  "\<exists>s f. reach (fs_init demo_program) (fine_step demo_program LittleEndian) s \<and> fs_push s = ProdWrite f
     \<and> subseq (wire_frames (fs_sys s)) (rr_offered (sy_run (fs_sys s)) @ pending_offer (fs_push s))"
proof -
  obtain s f where s: "reach (fs_init demo_program) (fine_step demo_program LittleEndian) s" "fs_push s = ProdWrite f"
    "rr_offered (sy_run (fs_sys s)) = []" using demo_writing by blast
  then show ?thesis using fine_client_sends [OF demo_program_ok s(1)] by auto
qed

theorem client_threads_race_free_witness:
  "\<exists>s f. reach (fs_init demo_program) (fine_step demo_program LittleEndian) s \<and> fs_push s = ProdWrite f
     \<and> \<not> cons_locks (fs_pop s) \<and> \<not> main_locks (fs_shut s)"
proof -
  obtain s f where s: "reach (fs_init demo_program) (fine_step demo_program LittleEndian) s" "fs_push s = ProdWrite f"
    using demo_writing by blast
  then show ?thesis using client_threads_race_free [OF demo_program_ok s(1)] by (intro exI conjI) (auto simp: of_bool_def split: if_splits)
qed

theorem client_calls_never_stuck_witness:
  "\<exists>s s' f. reach (fs_init demo_program) (fine_step demo_program LittleEndian) s \<and> fs_push s = ProdWrite f
     \<and> fine_step demo_program LittleEndian s s' \<and> call_step (fs_threads s) (fs_threads s')"
proof -
  obtain s f where s: "reach (fs_init demo_program) (fine_step demo_program LittleEndian) s" "fs_push s = ProdWrite f"
    using demo_writing by blast
  then show ?thesis using client_calls_never_stuck [OF demo_program_ok s(1)] by auto
qed

text \<open>\<open>main\<close> goes through the steps of \<open>shutdown\<close>.\<close>

lemma fine_shutdown:
  assumes r: "reach (fs_init env) (fine_step env bo) s" and m: "sy_main (fs_sys s) = ShutQueue status" and "fs_shut s = ShutIdle"
    and q: "\<not> mutex_locked (sy_queue (fs_sys s))"
  shows "\<exists>rn pc. shutdown_flag (rr_queue rn) \<and> reach (fs_init env) (fine_step env bo)
    (s\<lparr>fs_pop := pc, fs_shut := ShutIdle, fs_sys := (fs_sys s)\<lparr>sy_run := rn, sy_main := JoinCapture status\<rparr>\<rparr>)"
proof -
  let ?R = "reach (fs_init env) (fine_step env bo)" and ?q = "sy_queue (fs_sys s)" and ?t0 = "fs_threads s"
  let ?at = "\<lambda>q pc. ?t0\<lparr>tq_queue := q, tq_main := pc\<rparr>"
  let ?q1 = "mutex_lock ?q"
  let ?q2 = "?q1\<lparr>shutdown_flag := True\<rparr>"
  let ?q3 = "mutex_unlock ?q2"
  have over: "fs_update t (fs_update u s) = fs_update t s" for t u by (simp add: fs_update_def)
  have go: "?R (fs_update t s)"
    if "?R v" "v = s \<or> v = fs_update u s" "fs_threads v = u" "shutdown_thread u t" "tq_main t \<noteq> ShutIdle" for u v t
  proof -
    have mv: "sy_main (fs_sys v) = ShutQueue status" and sv: "fs_update t v = fs_update t s"
      using that(2) m over [of t u] by (auto simp: fs_update_def)
    show ?thesis using reach_fine_main [OF that(1) main_shuts [OF mv _ that(5)]] that(3,4) sv by simp
  qed
  have "shutdown_thread ?t0 (?at ?q1 ShutStore)" using shutdown_locks [of ?t0] assms by simp
  from go [OF r _ refl this] have 1: "?R (fs_update (?at ?q1 ShutStore) s)" by simp
  have "shutdown_thread (?at ?q1 ShutStore) (?at ?q2 ShutUnlock)" using shutdown_stores [of "?at ?q1 ShutStore"] by simp
  from go [OF 1 _ _ this] have 2: "?R (fs_update (?at ?q2 ShutUnlock) s)" by simp
  have "shutdown_thread (?at ?q2 ShutUnlock) (?at ?q3 ShutBroadcast)" using shutdown_unlocks [of "?at ?q2 ShutUnlock"] by simp
  from go [OF 2 _ _ this] have 3: "?R (fs_update (?at ?q3 ShutBroadcast) s)" by simp
  let ?v = "fs_update (?at ?q3 ShutBroadcast) s"
  let ?t = "?t0\<lparr>tq_queue := cond_notify ?q3, tq_cons := wake (fs_pop s), tq_main := ShutIdle\<rparr>"
  have mv: "sy_main (fs_sys ?v) = ShutQueue status" using m by (simp add: fs_update_def)
  have "shutdown_thread (?at ?q3 ShutBroadcast) ?t" using shutdown_broadcasts [of "?at ?q3 ShutBroadcast"] by simp
  then have "fine_main_step ?v (fs_goto_main (JoinCapture status) (fs_update ?t ?v))"
    using main_shut [of ?v status ?t] mv by simp
  from reach_fine_main [OF 3 this] show ?thesis
    by (intro exI [of _ "\<lparr>rr_queue = cond_notify ?q3, rr_offered = rr_offered (sy_run (fs_sys s)),
        rr_delivered = rr_delivered (sy_run (fs_sys s)), rr_live = rr_live (sy_run (fs_sys s))\<rparr>"] exI [of _ "wake (fs_pop s)"])
      (simp add: fs_defs fs_update_def)
qed

theorem fine_client_exit_witness:
  "\<exists>s. reach (fs_init demo_program) (fine_step demo_program LittleEndian) s \<and> sy_main (fs_sys s) = Exited EXIT_SUCCESS
     \<and> shutdown_flag (sy_queue (fs_sys s)) \<and> fs_pop s = ConsIdle \<and> tc_state (sy_tls (fs_sys s)) = Disconnected"
proof -
  let ?R = "reach (fs_init demo_program) (fine_step demo_program LittleEndian)"
  obtain q c t where i: "sy_init demo_program (start_sys q c t)" and q: "\<not> mutex_locked q" using demo_start by metis
  let ?s = "\<lambda>c. \<lparr> fs_sys = c, fs_push = ProdIdle, fs_pop = ConsIdle, fs_shut = ShutIdle \<rparr>"
  have main: "?R (s\<lparr>fs_sys := c\<rparr>)" if "?R s" "main_step (fs_sys s) c" "sy_run c = sy_run (fs_sys s)" for s c
    using reach_fine_main [OF that(1) main_alone [OF that(2,3)]] .
  let ?c0 = "start_sys q c t"
  let ?c1 = "?c0\<lparr>sy_capture := CapLoop, sy_main := CreateNetwork\<rparr>"
  let ?c2 = "?c1\<lparr>sy_network := NetLoop, sy_main := Streaming\<rparr>"
  let ?c3 = "?c2\<lparr>sy_running := False\<rparr>"
  let ?c4 = "?c3\<lparr>sy_capture := CapDone\<rparr>"
  let ?c5 = "?c4\<lparr>sy_tls := tlsDisconnect (sy_tls ?c4), sy_network := NetDone\<rparr>"
  let ?c6 = "?c5\<lparr>sy_main := ShutQueue EXIT_SUCCESS\<rparr>"
  have "?R (?s ?c0)" by (rule reach_init) (use i in \<open>simp add: fs_init_def\<close>)
  from main [OF this, of "?c0\<lparr>sy_capture := CapLoop, sy_main := CreateNetwork\<rparr>"] create_capture [of ?c0]
  have "?R (?s ?c1)" by (simp add: start_sys_def)
  from main [OF this, of "?c1\<lparr>sy_network := NetLoop, sy_main := Streaming\<rparr>"] create_network [of ?c1]
  have "?R (?s ?c2)" by (simp add: start_sys_def)
  from main [OF this, of "signalHandler ?c2"] signal [of ?c2]
  have 3: "?R (?s ?c3)" by (simp add: start_sys_def signalHandler_def)
  have "fine_capture_step (env_cam demo_program) (?s ?c3) ((?s ?c3)\<lparr>fs_sys := ?c3\<lparr>sy_capture := CapDone\<rparr>\<rparr>)"
    by (rule capture_alone) (use capture_ends [of ?c3] in simp_all)
  from reach_fine_capture [OF 3 this] have 4: "?R (?s ?c4)" by simp
  have "fine_network_step (env_tls demo_program) LittleEndian (?s ?c4)
      ((?s ?c4)\<lparr>fs_sys := ?c4\<lparr>sy_tls := tlsDisconnect (sy_tls ?c4), sy_network := NetDone\<rparr>\<rparr>)"
    by (rule network_alone) (use network_ends [of ?c4] in simp_all)
  from reach_fine_network [OF 4 this] have "?R (?s ?c5)" by simp
  from main [OF this, of "?c5\<lparr>sy_main := ShutQueue EXIT_SUCCESS\<rparr>"] leave_loop [of ?c5]
  have "?R (?s ?c6)" by simp
  from fine_shutdown [OF this, of EXIT_SUCCESS] q obtain rn pc where rn: "shutdown_flag (rr_queue rn)"
    and r: "?R ((?s ?c6)\<lparr>fs_sys := ?c6\<lparr>sy_run := rn, sy_main := JoinCapture EXIT_SUCCESS\<rparr>, fs_pop := pc\<rparr>)"
    by (auto simp: start_sys_def)
  let ?c7 = "?c6\<lparr>sy_run := rn, sy_main := JoinCapture EXIT_SUCCESS\<rparr>"
  let ?c8 = "?c7\<lparr>sy_main := JoinNetwork\<rparr>"
  let ?u = "\<lambda>c. (?s c)\<lparr>fs_pop := pc\<rparr>"
  let ?last = "?u (?c8\<lparr>sy_main := Exited EXIT_SUCCESS\<rparr>)"
  from main [OF r, of "?c7\<lparr>sy_main := JoinNetwork\<rparr>"] join_capture [of ?c7 EXIT_SUCCESS]
  have "?R (?u ?c8)" by simp
  from main [OF this, of "?c8\<lparr>sy_main := Exited EXIT_SUCCESS\<rparr>"] join_network [of ?c8]
  have "?R ?last" by simp
  moreover have "sy_main (fs_sys ?last) = Exited EXIT_SUCCESS" "shutdown_flag (sy_queue (fs_sys ?last))" using rn by simp_all
  ultimately show ?thesis using fine_client_exit [OF demo_program_ok, of LittleEndian ?last] by blast
qed

end
