(* ===== verification/Frame_Server.thy ===== *)
theory Frame_Server
  imports Chunk_Transfer Clib Frame_Stream
begin

unbundle bit_operations_syntax

text \<open>
  The frame server, \<open>server/server.cpp\<close>: its own copy of the protocol constants, reading whole
  buffers from TLS, saving frames to files, the per-client loop, the command line, and \<open>main\<close>
  with its accept loop and clean-up paths. OpenSSL, the file and socket calls and the running
  flag are the fields of the parameter \<open>srv_api\<close>, functions of a world \<open>'w\<close>.
\<close>

section \<open>Protocol definitions of the server\<close>

definition srv_PROTO_MAGIC :: "byte list" where
  "srv_PROTO_MAGIC = map (\<lambda>c. of_char c) [CHR ''F'', CHR ''R'', CHR ''A'', CHR ''M'']"

definition srv_PROTO_MAGIC_LEN :: nat where "srv_PROTO_MAGIC_LEN = 4"
definition srv_PROTO_VERSION :: u16 where "srv_PROTO_VERSION = 1"

definition srv_FRAME_HEADER_SIZE :: nat where
  "srv_FRAME_HEADER_SIZE = srv_PROTO_MAGIC_LEN + 2 + 2 + 8 + 8 + 4 + 4 + 2 + 2"

text \<open>The packed struct that a buffer holds, member by member in declaration order.\<close>

definition srv_header :: "byte_order \<Rightarrow> byte list \<Rightarrow> FrameHeader" where
  "srv_header bo bs =
     (let version = srv_PROTO_MAGIC_LEN; header_len = version + 2; seq = header_len + 2;
          timestamp_ns = seq + 8; payload_len = timestamp_ns + 8; pixel_format = payload_len + 4;
          width = pixel_format + 4; height = width + 2
      in \<lparr> fh_magic = mem_read bs 0 srv_PROTO_MAGIC_LEN,
           fh_version = mem_word bo (mem_read bs version 2),
           fh_header_len = mem_word bo (mem_read bs header_len 2),
           fh_seq = mem_word bo (mem_read bs seq 8),
           fh_timestamp_ns = mem_word bo (mem_read bs timestamp_ns 8),
           fh_payload_len = mem_word bo (mem_read bs payload_len 4),
           fh_pixel_format = mem_word bo (mem_read bs pixel_format 4),
           fh_width = mem_word bo (mem_read bs width 2),
           fh_height = mem_word bo (mem_read bs height 2) \<rparr>)"

definition srv_ntohll :: "byte_order \<Rightarrow> u64 \<Rightarrow> u64" where
  "srv_ntohll bo val = (case bo of
     LittleEndian \<Rightarrow> push_bit 32 (ucast (ntohl bo (ucast (val AND 0xFFFFFFFF)))) OR ucast (ntohl bo (ucast (drop_bit 32 val)))
   | BigEndian \<Rightarrow> val)"

section \<open>Data\<close>

record srv_config =
  sc_port :: u16
  sc_cert_file :: string
  sc_key_file :: string
  sc_output_dir :: string
  sc_save_frames :: bool
  sc_verbose :: bool

definition default_srv_config :: srv_config where
  "default_srv_config = \<lparr> sc_port = 4433, sc_cert_file = [], sc_key_file = [], sc_output_dir = [],
     sc_save_frames = False, sc_verbose = False \<rparr>"

text \<open>
  The process: the counters of \<open>Stats\<close>, the files written, what is open, the least protocol version
  set in the TLS context, and the frames taken over complete, which are what the verbose output prints and what is saved.
\<close>

record srv_state =
  st_frames_received :: u64
  st_bytes_received :: u64
  st_frames_saved :: u64
  st_files :: "string \<rightharpoonup> byte list"
  st_fds :: "int list"
  st_ctx_live :: nat
  st_ctx_min_proto :: "nat option"
  st_ssl_live :: nat
  st_frames :: "frame list"

definition init_srv_state :: srv_state where
  "init_srv_state = \<lparr> st_frames_received = 0, st_bytes_received = 0, st_frames_saved = 0, st_files = Map.empty,
     st_fds = [], st_ctx_live = 0, st_ctx_min_proto = None, st_ssl_live = 0, st_frames = [] \<rparr>"

record 'w srv_api =
  srv_CTX_new :: "'w \<Rightarrow> bool \<times> 'w"
  srv_set_min_proto :: "'w \<Rightarrow> nat \<Rightarrow> bool \<times> 'w"
  use_certificate_file :: "'w \<Rightarrow> string \<Rightarrow> int \<times> 'w"
  use_PrivateKey_file :: "'w \<Rightarrow> string \<Rightarrow> int \<times> 'w"
  check_private_key :: "'w \<Rightarrow> bool \<times> 'w"
  sys_mkdir :: "'w \<Rightarrow> string \<Rightarrow> int \<times> int \<times> 'w"
  srv_socket :: "'w \<Rightarrow> int list \<Rightarrow> int \<times> 'w"
  sys_bind :: "'w \<Rightarrow> int \<Rightarrow> u16 \<Rightarrow> int \<times> 'w"
  sys_listen :: "'w \<Rightarrow> int \<Rightarrow> int \<times> 'w"
  sys_select :: "'w \<Rightarrow> int \<Rightarrow> int \<times> int \<times> 'w"
  sys_accept :: "'w \<Rightarrow> int list \<Rightarrow> int \<times> int \<times> 'w"
  srv_SSL_new :: "'w \<Rightarrow> bool \<times> 'w"
  SSL_accept :: "'w \<Rightarrow> int \<times> 'w"
  SSL_read :: "'w \<Rightarrow> int \<Rightarrow> byte list \<times> ssl_error \<times> 'w"
  sys_open :: "'w \<Rightarrow> int list \<Rightarrow> string \<Rightarrow> int \<times> 'w"
  sys_write :: "'w \<Rightarrow> byte list \<Rightarrow> int \<Rightarrow> int \<times> int \<times> 'w"
  g_running :: "'w \<Rightarrow> bool \<times> 'w"

section \<open>Helpers\<close>

definition fourccToString :: "u32 \<Rightarrow> string" where
  "fourccToString fourcc =
     (let buf = [ ucast (drop_bit 0 fourcc AND 0xFF), ucast (drop_bit 8 fourcc AND 0xFF),
                  ucast (drop_bit 16 fourcc AND 0xFF), ucast (drop_bit 24 fourcc AND 0xFF), 0 :: byte ]
      in map (\<lambda>b. char_of (unat b)) (takeWhile (\<lambda>b. b \<noteq> 0) buf))"

text \<open>\<open>SSL_CTX_free\<close> and \<open>close\<close> on what the process holds.\<close>

definition srv_ctx_free :: "srv_state \<Rightarrow> srv_state" where
  "srv_ctx_free st = st\<lparr>st_ctx_live := st_ctx_live st - 1\<rparr>"

definition srv_close :: "int \<Rightarrow> srv_state \<Rightarrow> srv_state" where
  "srv_close fd st = st\<lparr>st_fds := remove1 fd (st_fds st)\<rparr>"

definition srv_ssl_free :: "srv_state \<Rightarrow> srv_state" where
  "srv_ssl_free st = st\<lparr>st_ssl_live := st_ssl_live st - 1\<rparr>"

definition srv_createSslContext :: "'w srv_api \<Rightarrow> string \<Rightarrow> string \<Rightarrow> srv_state \<Rightarrow> 'w \<Rightarrow> bool \<times> srv_state \<times> 'w" where
  "srv_createSslContext api cert_file key_file st w =
     (case srv_CTX_new api w of (ok, w) \<Rightarrow>
        if \<not> ok then (False, st, w)
        else
          let st = st\<lparr>st_ctx_live := st_ctx_live st + 1\<rparr>;
              (proto_set, w) = srv_set_min_proto api w TLS1_2_VERSION;
              st = st\<lparr>st_ctx_min_proto := (if proto_set then Some TLS1_2_VERSION else None)\<rparr> in
          case use_certificate_file api w cert_file of (r, w) \<Rightarrow>
            if r \<le> 0 then (False, srv_ctx_free st, w)
            else
              case use_PrivateKey_file api w key_file of (r, w) \<Rightarrow>
                if r \<le> 0 then (False, srv_ctx_free st, w)
                else
                  case check_private_key api w of (ok, w) \<Rightarrow>
                    if \<not> ok then (False, srv_ctx_free st, w)
                    else (True, st, w))"

section \<open>Reading\<close>

text \<open>
  \<open>SSL_read\<close> gives the bytes it stored, none for a result of 0 or below. The loop state is the
  buffer and the world; \<open>ptr\<close> bytes of the buffer have been filled.
\<close>

partial_function (option) ssl_read_loop ::
  "'w srv_api \<Rightarrow> nat \<Rightarrow> nat \<Rightarrow> byte list \<times> 'w \<Rightarrow> (bool \<times> nat \<times> byte list \<times> 'w) option" where
  "ssl_read_loop api ptr remaining bw =
     (if remaining = 0 then Some (True, ptr, bw)
      else
        case SSL_read api (snd bw) (int_of_size remaining) of (bs, err, w') \<Rightarrow>
          if bs = [] then
            (if err = SSL_ERROR_WANT_READ \<or> err = SSL_ERROR_WANT_WRITE then ssl_read_loop api ptr remaining (fst bw, w')
             else if err = SSL_ERROR_ZERO_RETURN then Some (False, ptr, (fst bw, w'))
             else if err = SSL_ERROR_SYSCALL EINTR then ssl_read_loop api ptr remaining (fst bw, w')
             else Some (False, ptr, (fst bw, w')))
          else ssl_read_loop api (ptr + length bs) (size_sub remaining (length bs)) (mem_write (fst bw) ptr bs, w'))"

definition sslReadAll :: "'w srv_api \<Rightarrow> byte list \<Rightarrow> nat \<Rightarrow> 'w \<Rightarrow> (bool \<times> byte list \<times> 'w) option" where
  "sslReadAll api buf len w = do {
     (ok, n, buf, w) \<leftarrow> ssl_read_loop api 0 len (buf, w);
     Some (ok, buf, w)
   }"

section \<open>Saving\<close>

text \<open>
  \<open>write\<close> on the descriptor of the file \<open>name\<close>: of the bytes at the pointer it is given, as many as
  the call reports are added at the end of the file.
\<close>

definition file_append :: "string \<Rightarrow> byte list \<Rightarrow> srv_state \<Rightarrow> srv_state" where
  "file_append name bs st =
     st\<lparr>st_files := (st_files st)(name \<mapsto> (case st_files st name of None \<Rightarrow> [] | Some old \<Rightarrow> old) @ bs)\<rparr>"

definition file_write ::
  "'w srv_api \<Rightarrow> string \<Rightarrow> srv_state \<Rightarrow> 'w \<Rightarrow> byte list \<Rightarrow> int \<Rightarrow> int \<times> int \<times> srv_state \<times> 'w" where
  "file_write api name st w buf count =
     (case sys_write api w buf count of (n, errno, w') \<Rightarrow> (n, errno, file_append name (take (nat n) buf) st, w'))"

text \<open>
  The write loop, with the pointer as an offset into \<open>data\<close>; it passes what the pointer points to.
  \<open>remaining\<close> is a \<open>ssize_t\<close>, and the loop runs while it is positive, so the truncated subtraction of
  \<open>nat\<close> has the same effect.
\<close>

partial_function (option) file_write_loop ::
  "'w srv_api \<Rightarrow> string \<Rightarrow> byte list \<Rightarrow> nat \<Rightarrow> nat \<Rightarrow> srv_state \<Rightarrow> 'w \<Rightarrow> (bool \<times> nat \<times> srv_state \<times> 'w) option" where
  "file_write_loop api name data ptr remaining st w =
     (if remaining = 0 then Some (True, ptr, st, w)
      else
        case file_write api name st w (drop ptr data) (int remaining) of (n, errno, st', w') \<Rightarrow>
          if n < 0 then
            (if errno = EINTR then file_write_loop api name data ptr remaining st' w' else Some (False, ptr, st', w'))
          else file_write_loop api name data (ptr + nat n) (remaining - nat n) st' w')"

definition frame_ext :: "u32 \<Rightarrow> string" where
  "frame_ext pf =
     (let fourcc = fourccToString pf in
      if fourcc = ''MJPG'' then ''jpg'' else if fourcc = ''YUYV'' then ''yuyv''
      else if fourcc = ''BGR3'' then ''bgr'' else ''raw'')"

definition frame_filename :: "string \<Rightarrow> u64 \<Rightarrow> u32 \<Rightarrow> string" where
  "frame_filename dir seq pf =
     snprintf_stored 512 (dir @ ''/frame_'' @ zero_pad 8 (nat_to_dec (unat seq)) @ ''.'' @ frame_ext pf)"

definition saveFrame ::
  "'w srv_api \<Rightarrow> byte_order \<Rightarrow> srv_config \<Rightarrow> FrameHeader \<Rightarrow> byte list \<Rightarrow> u32 \<Rightarrow> srv_state \<Rightarrow> 'w
   \<Rightarrow> (bool \<times> srv_state \<times> 'w) option" where
  "saveFrame api bo cfg hdr data len st w =
     (let filename = frame_filename (sc_output_dir cfg) (srv_ntohll bo (fh_seq hdr)) (ntohl bo (fh_pixel_format hdr)) in
      case sys_open api w (st_fds st) filename of (fd, w) \<Rightarrow>
        if fd < 0 then Some (False, st, w)
        else
          let st = st\<lparr>st_fds := fd # st_fds st, st_files := (st_files st)(filename \<mapsto> [])\<rparr> in do {
            (ok, n, st, w) \<leftarrow> file_write_loop api filename data 0 (unat len) st w;
            Some (ok, srv_close fd st, w)
          })"

section \<open>One client\<close>

text \<open>The variables of \<open>handleClient\<close>: the header struct, the frame buffer, the frame count.\<close>

record client_vars =
  cv_hdr :: "byte list"
  cv_frame_buf :: "byte list"
  cv_client_frames :: u64

definition vec_resize :: "byte list \<Rightarrow> nat \<Rightarrow> byte list" where
  "vec_resize v n = take n v @ replicate (n - length v) 0"

definition received_frame :: "byte_order \<Rightarrow> FrameHeader \<Rightarrow> byte list \<Rightarrow> frame" where
  "received_frame bo hdr payload =
     \<lparr> fr_seq = srv_ntohll bo (fh_seq hdr), fr_timestamp_ns = srv_ntohll bo (fh_timestamp_ns hdr),
       fr_pixel_format = ntohl bo (fh_pixel_format hdr), fr_width = ntohs bo (fh_width hdr),
       fr_height = ntohs bo (fh_height hdr), fr_payload = payload \<rparr>"

text \<open>The part of the loop body after the header checks; the flag is \<open>False\<close> for \<open>break\<close>.\<close>

definition client_payload ::
  "'w srv_api \<Rightarrow> byte_order \<Rightarrow> srv_config \<Rightarrow> client_vars \<Rightarrow> srv_state \<Rightarrow> 'w
   \<Rightarrow> (bool \<times> client_vars \<times> srv_state \<times> 'w) option" where
  "client_payload api bo cfg v st w =
     (let hdr = srv_header bo (cv_hdr v);
          payload_len = ntohl bo (fh_payload_len hdr);
          v = (if unat payload_len > length (cv_frame_buf v)
               then v\<lparr>cv_frame_buf := vec_resize (cv_frame_buf v) (unat payload_len)\<rparr> else v) in do {
        (ok, buf, w) \<leftarrow> sslReadAll api (cv_frame_buf v) (unat payload_len) w;
        let v = v\<lparr>cv_frame_buf := buf\<rparr>;
        if \<not> ok then Some (False, v, st, w)
        else
          let st = st\<lparr>st_frames_received := st_frames_received st + 1\<rparr>;
              st = st\<lparr>st_bytes_received := st_bytes_received st + (of_nat srv_FRAME_HEADER_SIZE + ucast payload_len)\<rparr>;
              v = v\<lparr>cv_client_frames := cv_client_frames v + 1\<rparr>;
              st = st\<lparr>st_frames := st_frames st @ [received_frame bo hdr (mem_read buf 0 (unat payload_len))]\<rparr> in
          if sc_save_frames cfg then do {
            (saved, st, w) \<leftarrow> saveFrame api bo cfg hdr buf payload_len st w;
            let st = (if saved then st\<lparr>st_frames_saved := st_frames_saved st + 1\<rparr> else st);
            Some (True, v, st, w)
          }
          else Some (True, v, st, w)
      })"

definition client_turn ::
  "'w srv_api \<Rightarrow> byte_order \<Rightarrow> srv_config \<Rightarrow> client_vars \<Rightarrow> srv_state \<Rightarrow> 'w
   \<Rightarrow> (bool \<times> client_vars \<times> srv_state \<times> 'w) option" where
  "client_turn api bo cfg v st w = do {
     (ok, hdr_buf, w) \<leftarrow> sslReadAll api (cv_hdr v) srv_FRAME_HEADER_SIZE w;
     let v = v\<lparr>cv_hdr := hdr_buf\<rparr>;
     let hdr = srv_header bo hdr_buf;
     if \<not> ok then Some (False, v, st, w)
     else if fh_magic hdr \<noteq> srv_PROTO_MAGIC then Some (False, v, st, w)
     else if ntohs bo (fh_version hdr) \<noteq> srv_PROTO_VERSION then Some (False, v, st, w)
     else if ntohl bo (fh_payload_len hdr) > 16 * 1024 * 1024 then Some (False, v, st, w)
     else client_payload api bo cfg v st w
   }"

partial_function (option) client_loop ::
  "'w srv_api \<Rightarrow> byte_order \<Rightarrow> srv_config \<Rightarrow> client_vars \<Rightarrow> srv_state \<Rightarrow> 'w \<Rightarrow> (client_vars \<times> srv_state \<times> 'w) option" where
  "client_loop api bo cfg v st w =
     (case g_running api w of (go, w) \<Rightarrow>
        if go then do {
          (again, v, st, w) \<leftarrow> client_turn api bo cfg v st w;
          if again then client_loop api bo cfg v st w else Some (v, st, w)
        }
        else Some (v, st, w))"

text \<open>
  The header struct starts with whatever is on the stack, \<open>stack\<close>. The result keeps the frame
  buffer as it is when it is released.
\<close>

definition handleClient ::
  "'w srv_api \<Rightarrow> byte_order \<Rightarrow> srv_config \<Rightarrow> byte list \<Rightarrow> srv_state \<Rightarrow> 'w \<Rightarrow> (byte list \<times> srv_state \<times> 'w) option" where
  "handleClient api bo cfg stack st w = do {
     (v, st, w) \<leftarrow> client_loop api bo cfg \<lparr> cv_hdr = stack, cv_frame_buf = [], cv_client_frames = 0 \<rparr> st w;
     Some (replicate (length (cv_frame_buf v)) 0, st, w)
   }"

end
