(* ===== verification/Frame_Server_Runs.thy ===== *)
theory Frame_Server_Runs
  imports Frame_Server
begin

text \<open>
  The server on a connection: reading is independent of how TLS cuts the stream, files hold
  what was asked to be saved, and the per-client loop is the reference decoder of
  \<open>Frame_Stream\<close> applied to whatever the client sends.
\<close>

section \<open>The two programs agree on the protocol\<close>

lemma srv_constants:
  "srv_PROTO_MAGIC = PROTO_MAGIC" "srv_PROTO_MAGIC_LEN = 4" "srv_PROTO_VERSION = PROTO_VERSION" "srv_FRAME_HEADER_SIZE = 36"
  by (simp_all add: srv_PROTO_MAGIC_def PROTO_MAGIC_def srv_PROTO_MAGIC_LEN_def srv_PROTO_VERSION_def PROTO_VERSION_def
      srv_FRAME_HEADER_SIZE_def)

lemma srv_header_eq: "srv_header bo bs = header_of_bytes bo bs"
  by (simp add: srv_header_def header_of_bytes_def Let_def srv_PROTO_MAGIC_LEN_def PROTO_MAGIC_LEN_def)

lemma srv_ntohll_eq: "srv_ntohll bo x = ntohll bo x"
  by (cases bo) (simp_all add: srv_ntohll_def ntohll_def htonll_def ntohl_def)

text \<open>
  The server's private copies of the protocol definitions agree with the client's header
  file: the same magic, version and header size, the same layout, the same conversions.
\<close>

lemma server_protocol_agrees:
  "srv_PROTO_MAGIC = PROTO_MAGIC \<and> srv_PROTO_VERSION = PROTO_VERSION \<and> srv_FRAME_HEADER_SIZE = FRAME_HEADER_SIZE
   \<and> srv_header bo = header_of_bytes bo \<and> srv_ntohll bo = ntohll bo \<and> fourccToString pf
     = map (\<lambda>b. char_of (unat b)) (takeWhile (\<lambda>b. b \<noteq> 0) (pixelFormatToString pf))"
  by (simp add: srv_constants srv_header_eq srv_ntohll_eq fun_eq_iff fourccToString_def pixelFormatToString_def Let_def)

section \<open>Reading\<close>

definition ssl_read_call :: "'w srv_api \<Rightarrow> nat \<Rightarrow> nat \<Rightarrow> byte list \<times> 'w \<Rightarrow> chunk_outcome \<times> byte list \<times> 'w" where
  "ssl_read_call api ptr rem bw =
     (case SSL_read api (snd bw) (int_of_size rem) of (bs, err, w') \<Rightarrow>
        if bs = [] then (if ssl_retry err then Retry else Stop, (fst bw, w'))
        else (Advance (length bs), (mem_write (fst bw) ptr bs, w')))"

lemma ssl_read_turn:
  "(if rem = 0 then Some (True, ptr, bw)
      else
        case SSL_read api (snd bw) (int_of_size rem) of (bs, err, w') \<Rightarrow>
          if bs = [] then
            (if err = SSL_ERROR_WANT_READ \<or> err = SSL_ERROR_WANT_WRITE then f ptr rem (fst bw, w')
             else if err = SSL_ERROR_ZERO_RETURN then Some (False, ptr, (fst bw, w'))
             else if err = SSL_ERROR_SYSCALL EINTR then f ptr rem (fst bw, w')
             else Some (False, ptr, (fst bw, w')))
          else f (ptr + length bs) (size_sub rem (length bs)) (mem_write (fst bw) ptr bs, w'))
   = chunk_body size_sub (ssl_read_call api) f ptr rem bw"
  by (auto simp: chunk_body_def ssl_read_call_def split: prod.split elim: ssl_retry.elims)

interpretation ssl_read: chunk_loop size_sub "ssl_read_call api" "ssl_read_loop api"
  for api :: "'w srv_api"
proof (unfold_locales, rule size_sub_eq)
  show "ssl_read_loop api ptr rem bw = chunk_body size_sub (ssl_read_call api) (ssl_read_loop api) ptr rem bw" for ptr rem bw
    by (subst ssl_read_loop.simps) (rule ssl_read_turn)
next
  fix P ptr rem bw r
  assume step: "\<And>f ptr rem bw r. (\<And>ptr rem bw r. f ptr rem bw = Some r \<Longrightarrow> P ptr rem bw r) \<Longrightarrow>
        chunk_body size_sub (ssl_read_call api) f ptr rem bw = Some r \<Longrightarrow> P ptr rem bw r"
    and res: "ssl_read_loop api ptr rem bw = Some r"
  have "api = api \<longrightarrow> P ptr rem bw r"
  proof (rule ssl_read_loop.raw_induct [where P = "\<lambda>api' ptr rem bw r. api' = api \<longrightarrow> P ptr rem bw r", OF _ res],
        intro impI, unfold ssl_read_turn)
    fix f api' ptr rem bw r
    assume IH: "\<And>api' ptr rem bw r. f api' ptr rem bw = Some r \<Longrightarrow> api' = api \<longrightarrow> P ptr rem bw r"
      and b: "chunk_body size_sub (ssl_read_call api') (f api') ptr rem bw = Some r" and e: "api' = api"
    show "P ptr rem bw r" using step [of "f api" ptr rem bw r] IH b e by auto
  qed
  then show "P ptr rem bw r" by simp
qed

text \<open>
  Documented behaviour of \<open>SSL_read\<close>: it stores at most what was asked for, and the bytes come
  in order out of the stream \<open>inc w\<close> of bytes the peer has sent and the session has not yet
  handed over. The measure \<open>m\<close> decreases whenever it asks to be called again.
\<close>

definition ssl_read_ok :: "('w \<Rightarrow> byte list) \<Rightarrow> 'w srv_api \<Rightarrow> bool" where
  "ssl_read_ok inc api \<longleftrightarrow>
     (\<forall>w n bs e w'. SSL_read api w n = (bs, e, w') \<longrightarrow> int (length bs) \<le> max 0 n \<and> inc w = bs @ inc w')"

definition ssl_read_progress :: "('w \<Rightarrow> nat) \<Rightarrow> 'w srv_api \<Rightarrow> bool" where
  "ssl_read_progress m api \<longleftrightarrow>
     (\<forall>w n e w'. SSL_read api w n = ([], e, w') \<longrightarrow> ssl_retry e \<longrightarrow> m w' < m w)"


lemma ssl_read_call_bounds:
  assumes "ssl_read_ok inc api" and "ssl_read_call api ptr rem bw = (Advance k, bw')"
  shows "0 < k \<and> k \<le> rem"
proof -
  obtain bs e w1 where c: "SSL_read api (snd bw) (int_of_size rem) = (bs, e, w1)"
    by (cases "SSL_read api (snd bw) (int_of_size rem)") auto
  have "int (length bs) \<le> max 0 (int_of_size rem)" using assms(1) c unfolding ssl_read_ok_def by blast
  then have "length bs \<le> rem" using int_of_size_le [of rem] by linarith
  then show ?thesis using assms(2) c by (auto simp: ssl_read_call_def split: if_splits)
qed

text \<open>What the loop has done when \<open>ptr\<close> bytes have been read: they are the first of the stream.\<close>

definition read_state :: "('w \<Rightarrow> byte list) \<Rightarrow> byte list \<Rightarrow> byte list \<Rightarrow> nat \<Rightarrow> byte list \<times> 'w \<Rightarrow> bool" where
  "read_state inc buf input n bw \<longleftrightarrow>
     n \<le> length input \<and> fst bw = take n input @ drop n buf \<and> inc (snd bw) = drop n input"

lemma read_state_step:
  assumes "ssl_read_ok inc api" and "read_state inc buf input ptr bw" and "ssl_read_call api ptr rem bw = (out, bw')"
  shows "read_state inc buf input (case out of Advance k \<Rightarrow> ptr + k | _ \<Rightarrow> ptr) bw'"
proof -
  obtain bs e w1 where c: "SSL_read api (snd bw) (int_of_size rem) = (bs, e, w1)"
    by (cases "SSL_read api (snd bw) (int_of_size rem)") auto
  have i: "drop ptr input = bs @ inc w1"
    using assms(1,2) c unfolding ssl_read_ok_def read_state_def by metis
  have p: "ptr \<le> length input" "fst bw = take ptr input @ drop ptr buf" using assms(2) by (simp_all add: read_state_def)
  show ?thesis
  proof (cases "bs = []")
    case True
    then show ?thesis using assms(2,3) c i by (auto simp: ssl_read_call_def read_state_def split: if_splits)
  next
    case False
    have l: "ptr + length bs \<le> length input" using arg_cong [OF i, of length] p(1) by simp
    have "take (ptr + length bs) input = take ptr input @ bs" using i by (simp add: take_add)
    moreover have "drop (ptr + length bs) input = inc w1"
      using i by (metis add.commute append_eq_conv_conj drop_drop)
    moreover have "mem_write (fst bw) ptr bs = take ptr input @ bs @ drop (ptr + length bs) buf"
      using p by (simp add: mem_write_def min_def)
    ultimately show ?thesis
      using False assms(3) c l by (auto simp: ssl_read_call_def read_state_def)
  qed
qed

lemma sslReadAll_result:
  assumes "ssl_read_ok inc api" and "len < 2 ^ 64" and "sslReadAll api buf len w = Some (ok, buf', w')"
  obtains n where "n \<le> len" "ok \<longleftrightarrow> n = len" "n \<le> length (inc w)"
    "buf' = take n (inc w) @ drop n buf" "inc w' = drop n (inc w)"
proof -
  obtain n where r: "ssl_read_loop api 0 len (buf, w) = Some (ok, n, buf', w')"
    using assms(3) by (auto simp: sslReadAll_def bind_eq_Some_conv)
  have "read_state inc buf (inc w) n (buf', w') \<and> 0 \<le> n \<and> n \<le> 0 + len \<and> (ok \<longleftrightarrow> n = 0 + len)"
  proof (rule ssl_read.loop_partial [where R = "read_state inc buf (inc w)", OF _ _ _ _ r])
    show "read_state inc buf (inc w) 0 (buf, w)" by (simp add: read_state_def)
  qed (use ssl_read_call_bounds [OF assms(1)] read_state_step [OF assms(1)] assms(2) in fastforce)+
  then show ?thesis using that by (auto simp: read_state_def)
qed

lemma sslReadAll_returns:
  assumes "ssl_read_ok inc api" and "ssl_read_progress m api" and "len < 2 ^ 64"
  shows "\<exists>r. sslReadAll api buf len w = Some r"
proof -
  have "ssl_read_call api ptr rem bw = (Retry, bw') \<Longrightarrow> m (snd bw') < m (snd bw)" for ptr rem bw bw'
    using assms(2) by (auto simp: ssl_read_call_def ssl_read_progress_def split: prod.splits if_splits)
  then have "\<exists>r. ssl_read_loop api 0 len (buf, w) = Some r"
    by (intro ssl_read.loop_total [where m = "\<lambda>bw. m (snd bw)"])
      (use assms(3) in \<open>auto dest: ssl_read_call_bounds [OF assms(1)]\<close>)
  then show ?thesis by (auto simp: sslReadAll_def)
qed

text \<open>
  C34. \<open>sslReadAll\<close> returns and is independent of how TLS cuts the stream into records: on
  success the buffer starts with exactly the next \<open>len\<close> bytes of the stream and the rest of it
  is untouched; on failure fewer bytes than asked for had arrived, and nothing was skipped.
\<close>

theorem sslReadAll_correct:
  assumes "ssl_read_ok inc api" and "ssl_read_progress m api" and "len < 2 ^ 64"
  shows "\<exists>ok n buf' w'. sslReadAll api buf len w = Some (ok, buf', w') \<and> n \<le> len \<and> (ok \<longleftrightarrow> n = len)
    \<and> n \<le> length (inc w) \<and> buf' = take n (inc w) @ drop n buf \<and> inc w' = drop n (inc w)"
proof -
  obtain ok buf' w' where r: "sslReadAll api buf len w = Some (ok, buf', w')"
    using sslReadAll_returns [OF assms] by (metis prod_cases3)
  obtain n where "n \<le> len" "ok \<longleftrightarrow> n = len" "n \<le> length (inc w)"
    "buf' = take n (inc w) @ drop n buf" "inc w' = drop n (inc w)"
    by (rule sslReadAll_result [OF assms(1,3) r])
  with r show ?thesis by blast
qed

section \<open>Saving a frame\<close>

text \<open>The state of the loop is that of the process and the world.\<close>

definition file_write_call ::
  "'w srv_api \<Rightarrow> string \<Rightarrow> byte list \<Rightarrow> nat \<Rightarrow> nat \<Rightarrow> srv_state \<times> 'w \<Rightarrow> chunk_outcome \<times> srv_state \<times> 'w" where
  "file_write_call api name data ptr rem sw =
     (case file_write api name (fst sw) (snd sw) (drop ptr data) (int rem) of (n, errno, sw') \<Rightarrow>
        (if n < 0 then if errno = EINTR then Retry else Stop
         else if n = 0 then Retry else Advance (nat n), sw'))"

lemma file_write_turn:
  "(if rem = 0 then Some (True, ptr, st, w)
      else
        case file_write api name st w (drop ptr data) (int rem) of (n, errno, st', w') \<Rightarrow>
          if n < 0 then (if errno = EINTR then f ptr rem st' w' else Some (False, ptr, st', w'))
          else f (ptr + nat n) (rem - nat n) st' w')
   = chunk_body (-) (file_write_call api name data) (\<lambda>ptr rem (st, w). f ptr rem st w) ptr rem (st, w)"
  by (auto simp: chunk_body_def file_write_call_def split: prod.split)

interpretation file_write: chunk_loop "(-)" "file_write_call api name data"
  "\<lambda>ptr rem (st, w). file_write_loop api name data ptr rem st w"
  for api :: "'w srv_api" and name data
proof (unfold_locales, rule refl)
  show "(case sw of (st, w) \<Rightarrow> file_write_loop api name data ptr rem st w)
      = chunk_body (-) (file_write_call api name data) (\<lambda>ptr rem (st, w). file_write_loop api name data ptr rem st w) ptr rem sw"
    for ptr rem sw
    unfolding split_beta file_write_loop.simps [of api name data ptr rem "fst sw" "snd sw"] file_write_turn [unfolded split_beta]
    by simp
next
  fix P ptr rem r and sw :: "srv_state \<times> 'w"
  assume step: "\<And>f ptr rem sw r. (\<And>ptr rem sw r. f ptr rem sw = Some r \<Longrightarrow> P ptr rem sw r) \<Longrightarrow>
        chunk_body (-) (file_write_call api name data) f ptr rem sw = Some r \<Longrightarrow> P ptr rem sw r"
    and res: "(case sw of (st, w) \<Rightarrow> file_write_loop api name data ptr rem st w) = Some r"
  obtain st w where sw: "sw = (st, w)" by (cases sw)
  have res': "file_write_loop api name data ptr rem st w = Some r" using res sw by simp
  have "(api, name, data) = (api, name, data) \<longrightarrow> P ptr rem (st, w) r"
  proof (rule file_write_loop.raw_induct [where
        P = "\<lambda>api' name' data' ptr rem st w r. (api', name', data') = (api, name, data) \<longrightarrow> P ptr rem (st, w) r",
        OF _ res'], intro impI, unfold file_write_turn)
    fix f api' name' data' ptr rem st w r
    assume IH: "\<And>api' name' data' ptr rem st w r. f api' name' data' ptr rem st w = Some r \<Longrightarrow>
        (api', name', data') = (api, name, data) \<longrightarrow> P ptr rem (st, w) r"
      and b: "chunk_body (-) (file_write_call api' name' data') (\<lambda>ptr rem (st, w). f api' name' data' ptr rem st w) ptr rem (st, w) = Some r"
      and e: "(api', name', data') = (api, name, data)"
    show "P ptr rem (st, w) r"
      using step [of "\<lambda>ptr rem (st, w). f api name data ptr rem st w" ptr rem "(st, w)" r] IH b e by auto
  qed
  then show "P ptr rem sw r" using sw by simp
qed

text \<open>
  Documented behaviour of \<open>write\<close>: it never reports more than it was given; it is not
  interrupted for ever, nor does it accept nothing for ever. The calls of the server other
  than \<open>SSL_read\<close> leave the incoming stream alone.
\<close>

definition file_write_bounded :: "'w srv_api \<Rightarrow> bool" where
  "file_write_bounded api \<longleftrightarrow> (\<forall>w bs n. fst (sys_write api w bs n) \<le> n)"

definition file_write_progress :: "('w \<Rightarrow> nat) \<Rightarrow> 'w srv_api \<Rightarrow> bool" where
  "file_write_progress m api \<longleftrightarrow>
     (\<forall>w bs n k e w'. 0 < n \<longrightarrow> sys_write api w bs n = (k, e, w') \<longrightarrow> k = 0 \<or> (k < 0 \<and> e = EINTR) \<longrightarrow> m w' < m w)"

definition stream_only_read :: "('w \<Rightarrow> byte list) \<Rightarrow> 'w srv_api \<Rightarrow> bool" where
  "stream_only_read inc api \<longleftrightarrow>
     (\<forall>w bs n. inc (snd (snd (sys_write api w bs n))) = inc w)
   \<and> (\<forall>w fds f. inc (snd (sys_open api w fds f)) = inc w)
   \<and> (\<forall>w. inc (snd (g_running api w)) = inc w)"

definition srv_api_ok :: "('w \<Rightarrow> byte list) \<Rightarrow> 'w srv_api \<Rightarrow> bool" where
  "srv_api_ok inc api \<longleftrightarrow> ssl_read_ok inc api \<and> file_write_bounded api \<and> stream_only_read inc api"

lemma file_write_call_bounds:
  assumes "file_write_bounded api" and "file_write_call api name data ptr rem sw = (Advance k, sw')"
  shows "0 < k \<and> k \<le> rem"
proof -
  obtain n e w1 where c: "sys_write api (snd sw) (drop ptr data) (int rem) = (n, e, w1)"
    by (cases "sys_write api (snd sw) (drop ptr data) (int rem)") auto
  have "n \<le> int rem" using assms(1) c unfolding file_write_bounded_def by (metis fst_conv)
  then show ?thesis using assms(2) c by (auto simp: file_write_call_def file_write_def split: if_splits)
qed

lemma file_write_call_world:
  "file_write_call api name data ptr rem sw = (out, sw') \<Longrightarrow> snd sw' = snd (snd (sys_write api (snd sw) (drop ptr data) (int rem)))"
  by (auto simp: file_write_call_def file_write_def split: prod.splits)

text \<open>The file holds the first \<open>ptr\<close> bytes of the data; nothing else has changed.\<close>

definition file_holds :: "srv_state \<Rightarrow> string \<Rightarrow> byte list \<Rightarrow> nat \<Rightarrow> srv_state \<Rightarrow> bool" where
  "file_holds st name data ptr st' \<longleftrightarrow> st' = st\<lparr>st_files := (st_files st)(name \<mapsto> take ptr data)\<rparr>"

lemma file_holds_call:
  assumes "file_holds st name data ptr (fst sw)" and "file_write_call api name data ptr rem sw = (out, sw')"
  shows "file_holds st name data (case out of Advance k \<Rightarrow> ptr + k | _ \<Rightarrow> ptr) (fst sw')"
  using assms
  by (auto simp: file_write_call_def file_write_def file_holds_def file_append_def take_add split: prod.splits chunk_outcome.splits if_splits)

lemma file_write_result:
  assumes "srv_api_ok inc api" and "len < 2 ^ 64" and "st_files st name = Some []"
    and "file_write_loop api name data 0 len st w = Some (ok, n, st', w')"
  shows "n \<le> len \<and> (ok \<longleftrightarrow> n = len) \<and> inc w' = inc w \<and> st' = st\<lparr>st_files := (st_files st)(name \<mapsto> take n data)\<rparr>"
proof -
  let ?R = "\<lambda>ptr sw. file_holds st name data ptr (fst sw) \<and> inc (snd sw) = inc w"
  have b: "file_write_bounded api" "stream_only_read inc api" using assms(1) by (simp_all add: srv_api_ok_def)
  have call: "?R (case out of Advance k \<Rightarrow> ptr + k | _ \<Rightarrow> ptr) sw'"
    if "?R ptr sw" "file_write_call api name data ptr rem sw = (out, sw')" for ptr rem sw out sw'
    using file_holds_call [OF conjunct1 [OF that(1)] that(2)] file_write_call_world [OF that(2)] that(1) b(2)
    by (simp add: stream_only_read_def)
  have "?R n (st', w') \<and> 0 \<le> n \<and> n \<le> 0 + len \<and> (ok \<longleftrightarrow> n = 0 + len)"
  proof (rule file_write.loop_keeps [where R = ?R])
    show "k \<le> rem" if "file_write_call api name data ptr rem sw = (Advance k, sw')" for ptr rem sw k sw'
      using file_write_call_bounds [OF b(1) that] by simp
    show "(case (st, w) of (st, w) \<Rightarrow> file_write_loop api name data 0 len st w) = Some (ok, n, st', w')" using assms(4) by simp
    show "?R 0 (st, w)" using assms(3) by (simp add: file_holds_def fun_upd_idem)
  qed (rule call, assumption+, rule assms(2))
  then show ?thesis by (simp add: file_holds_def)
qed

lemma file_write_returns:
  assumes "file_write_bounded api" and "file_write_progress m api" and "len < 2 ^ 64"
  shows "\<exists>r. file_write_loop api name data 0 len st w = Some r"
proof -
  have "(m \<circ> snd) sw' < (m \<circ> snd) sw" if "0 < rem" "file_write_call api name data ptr rem sw = (Retry, sw')" for ptr rem sw sw'
  proof -
    obtain k e w1 where c: "sys_write api (snd sw) (drop ptr data) (int rem) = (k, e, w1)"
      by (cases "sys_write api (snd sw) (drop ptr data) (int rem)") auto
    then have "w1 = snd sw'" "k = 0 \<or> (k < 0 \<and> e = EINTR)"
      using that(2) by (auto simp: file_write_call_def file_write_def split: if_splits)
    then show ?thesis using assms(2) c that(1) unfolding file_write_progress_def by (metis comp_apply of_nat_0_less_iff)
  qed
  then have "\<exists>r. (case (st, w) of (st, w) \<Rightarrow> file_write_loop api name data 0 len st w) = Some r"
    by (intro file_write.loop_total [where m = "m \<circ> snd"])
      (use assms(3) in \<open>auto dest: file_write_call_bounds [OF assms(1)]\<close>)
  then show ?thesis by simp
qed

definition saved_name :: "srv_config \<Rightarrow> frame \<Rightarrow> string" where
  "saved_name cfg f = frame_filename (sc_output_dir cfg) (fr_seq f) (fr_pixel_format f)"

text \<open>The three outcomes of \<open>saveFrame\<close>: no file, the whole payload, a strict prefix of it.\<close>

lemma saveFrame_result:
  assumes "srv_api_ok inc api" and "saveFrame api bo cfg hdr data len st w = Some (ok, st', w')"
  defines "name \<equiv> saved_name cfg (received_frame bo hdr [])"
  obtains (not_opened) "\<not> ok" "st' = st" "inc w' = inc w"
    | (written) n where "n \<le> unat len" "ok \<longleftrightarrow> n = unat len"
        "st' = st\<lparr>st_files := (st_files st)(name \<mapsto> take n data)\<rparr>" "inc w' = inc w"
proof -
  have name: "name = frame_filename (sc_output_dir cfg) (srv_ntohll bo (fh_seq hdr)) (ntohl bo (fh_pixel_format hdr))"
    by (simp add: name_def saved_name_def received_frame_def)
  obtain fd w1 where o: "sys_open api w (st_fds st) name = (fd, w1)" by (cases "sys_open api w (st_fds st) name")
  have "inc (snd (sys_open api w (st_fds st) name)) = inc w"
    using assms(1) unfolding srv_api_ok_def stream_only_read_def by blast
  then have i: "inc w1 = inc w" using o by simp
  show thesis
  proof (cases "fd < 0")
    case True
    then show thesis using assms(2) o i name not_opened by (auto simp: saveFrame_def Let_def)
  next
    case False
    let ?st = "st\<lparr>st_fds := fd # st_fds st, st_files := (st_files st)(name \<mapsto> [])\<rparr>"
    obtain n st1 where l: "file_write_loop api name data 0 (unat len) ?st w1 = Some (ok, n, st1, w')" and st: "st' = srv_close fd st1"
      using assms(2) o name False by (auto simp: saveFrame_def Let_def bind_eq_Some_conv)
    have "unat len < 2 ^ 64" "st_files ?st name = Some []" using unsigned_less [of len, where 'a = nat] by simp_all
    from file_write_result [OF assms(1) this l] show thesis using written [of n] st i by (simp add: srv_close_def)
  qed
qed

text \<open>
  Saving a frame: the descriptor it opens is closed again on every path, no other file is
  touched, and when it reports success the file with the frame's name holds exactly the
  payload, whatever partial writes and interruptions occurred.
\<close>

lemma saveFrame_correct:
  assumes "srv_api_ok inc api" and "unat len \<le> length data" and "saveFrame api bo cfg hdr data len st w = Some (ok, st', w')"
  shows "st_fds st' = st_fds st
    \<and> (\<forall>name. name \<noteq> frame_filename (sc_output_dir cfg) (ntohll bo (fh_seq hdr)) (ntohl bo (fh_pixel_format hdr))
        \<longrightarrow> st_files st' name = st_files st name)
    \<and> (ok \<longrightarrow> st_files st' (frame_filename (sc_output_dir cfg) (ntohll bo (fh_seq hdr)) (ntohl bo (fh_pixel_format hdr)))
        = Some (take (unat len) data))"
  using assms(1,3)
proof (cases rule: saveFrame_result)
  case not_opened
  then show ?thesis by simp
next
  case (written n)
  then show ?thesis by (simp add: saved_name_def received_frame_def srv_ntohll_eq)
qed

section \<open>One frame of a client\<close>

text \<open>The fields that the server reads from a header, as the decoder of the stream sees them.\<close>

lemma srv_header_fields:
  fixes bs bo
  defines "hdr \<equiv> srv_header bo (take 36 bs)"
  assumes "36 \<le> length bs"
  shows "fh_magic hdr = take 4 bs" "ntohs bo (fh_version hdr) = be_word (mem_read bs 4 2)"
    "srv_ntohll bo (fh_seq hdr) = be_word (mem_read bs 8 8)" "srv_ntohll bo (fh_timestamp_ns hdr) = be_word (mem_read bs 16 8)"
    "ntohl bo (fh_payload_len hdr) = be_word (mem_read bs 24 4)" "ntohl bo (fh_pixel_format hdr) = be_word (mem_read bs 28 4)"
    "ntohs bo (fh_width hdr) = be_word (mem_read bs 32 2)" "ntohs bo (fh_height hdr) = be_word (mem_read bs 34 2)"
proof -
  have r: "mem_read (take 36 bs) a n = mem_read bs a n \<and> length (mem_read bs a n) = n" if "a + n \<le> 36" for a n
    using that assms(2) by (auto simp: mem_read_def drop_take min_def)
  show "fh_magic hdr = take 4 bs"
    using assms(2) by (simp add: hdr_def srv_header_eq header_of_bytes_def PROTO_MAGIC_LEN_def mem_read_def)
  show "ntohs bo (fh_version hdr) = be_word (mem_read bs 4 2)"
    "srv_ntohll bo (fh_seq hdr) = be_word (mem_read bs 8 8)" "srv_ntohll bo (fh_timestamp_ns hdr) = be_word (mem_read bs 16 8)"
    "ntohl bo (fh_payload_len hdr) = be_word (mem_read bs 24 4)" "ntohl bo (fh_pixel_format hdr) = be_word (mem_read bs 28 4)"
    "ntohs bo (fh_width hdr) = be_word (mem_read bs 32 2)" "ntohs bo (fh_height hdr) = be_word (mem_read bs 34 2)"
    by (simp_all add: hdr_def srv_header_eq srv_ntohll_eq header_of_bytes_def r ntoh_be_word)
qed

definition frame_bytes :: "frame \<Rightarrow> nat" where
  "frame_bytes f = 36 + length (fr_payload f)"

text \<open>
  What one frame does to the process: the counters, the frame itself, and, when saving, the
  file of that name with some prefix of the payload, the whole of it when it is counted.
\<close>

definition frame_taken :: "srv_config \<Rightarrow> frame \<Rightarrow> srv_state \<Rightarrow> srv_state \<Rightarrow> bool" where
  "frame_taken cfg f st st' \<longleftrightarrow>
     (\<exists>files saved. st' = st\<lparr>st_frames_received := st_frames_received st + 1,
        st_bytes_received := st_bytes_received st + of_nat (frame_bytes f), st_frames := st_frames st @ [f],
        st_files := files, st_frames_saved := st_frames_saved st + (if saved then 1 else 0)\<rparr>
      \<and> (saved \<longrightarrow> sc_save_frames cfg \<and> files = (st_files st)(saved_name cfg f \<mapsto> fr_payload f))
      \<and> (\<not> saved \<longrightarrow> files = st_files st
          \<or> (sc_save_frames cfg \<and> (\<exists>n < length (fr_payload f). files = (st_files st)(saved_name cfg f \<mapsto> take n (fr_payload f))))))"

lemma saved_name_received: "saved_name cfg (received_frame bo hdr p) = saved_name cfg (received_frame bo hdr [])"
  by (simp add: saved_name_def received_frame_def)

lemma vec_grow:
  "unat n \<le> length (cv_frame_buf (if unat n > length (cv_frame_buf v)
      then v\<lparr>cv_frame_buf := vec_resize (cv_frame_buf v) (unat n)\<rparr> else v))"
  by (simp add: vec_resize_def)

text \<open>The state after counting a frame, and what saving makes of it.\<close>

definition count_frame :: "frame \<Rightarrow> srv_state \<Rightarrow> srv_state" where
  "count_frame f st = st\<lparr>st_frames_received := st_frames_received st + 1,
     st_bytes_received := st_bytes_received st + of_nat (frame_bytes f), st_frames := st_frames st @ [f]\<rparr>"

lemma frame_taken_counted: "frame_taken cfg f st (count_frame f st)"
proof -
  have "count_frame f st = st\<lparr>st_frames_received := st_frames_received st + 1,
        st_bytes_received := st_bytes_received st + of_nat (frame_bytes f), st_frames := st_frames st @ [f],
        st_files := st_files st, st_frames_saved := st_frames_saved st + (if False then 1 else 0)\<rparr>"
    by (simp add: count_frame_def)
  then show ?thesis unfolding frame_taken_def by blast
qed

lemma frame_taken_saved:
  assumes "sc_save_frames cfg" and "n \<le> length (fr_payload f)"
    and "st1 = (count_frame f st)\<lparr>st_files := (st_files st)(saved_name cfg f \<mapsto> take n (fr_payload f))\<rparr>"
    and "st' = (if n = length (fr_payload f) then st1\<lparr>st_frames_saved := st_frames_saved st1 + 1\<rparr> else st1)"
  shows "frame_taken cfg f st st'"
proof (cases "n = length (fr_payload f)")
  case True
  then have "st' = st\<lparr>st_frames_received := st_frames_received st + 1,
        st_bytes_received := st_bytes_received st + of_nat (frame_bytes f), st_frames := st_frames st @ [f],
        st_files := (st_files st)(saved_name cfg f \<mapsto> fr_payload f), st_frames_saved := st_frames_saved st + (if True then 1 else 0)\<rparr>"
    using assms(3,4) by (simp add: count_frame_def)
  then show ?thesis using assms(1) unfolding frame_taken_def by blast
next
  case False
  then have "st' = st\<lparr>st_frames_received := st_frames_received st + 1,
        st_bytes_received := st_bytes_received st + of_nat (frame_bytes f), st_frames := st_frames st @ [f],
        st_files := (st_files st)(saved_name cfg f \<mapsto> take n (fr_payload f)), st_frames_saved := st_frames_saved st + (if False then 1 else 0)\<rparr>"
    "n < length (fr_payload f)"
    using assms(2-4) by (simp_all add: count_frame_def)
  then show ?thesis using assms(1) unfolding frame_taken_def by blast
qed

text \<open>The tail of the loop body, once the payload is in the buffer.\<close>

lemma client_save_result:
  assumes "srv_api_ok inc api" and "saveFrame api bo cfg hdr buf len (count_frame f st) w = Some (saved, st1, w')"
    and "sc_save_frames cfg" and "f = received_frame bo hdr (take (unat len) buf)" and "unat len \<le> length buf"
  shows "frame_taken cfg f st (if saved then st1\<lparr>st_frames_saved := st_frames_saved st1 + 1\<rparr> else st1) \<and> inc w' = inc w"
  using assms(1,2)
proof (cases rule: saveFrame_result)
  case not_opened
  then show ?thesis using frame_taken_counted by simp
next
  case (written n)
  have l: "length (fr_payload f) = unat len" "saved_name cfg (received_frame bo hdr []) = saved_name cfg f"
    using assms(4,5) saved_name_received [of cfg bo hdr] by (simp_all add: received_frame_def saved_name_def)
  have "take n buf = take n (fr_payload f)" using written(1) assms(4) by (simp add: received_frame_def min_def)
  then have "st1 = (count_frame f st)\<lparr>st_files := (st_files st)(saved_name cfg f \<mapsto> take n (fr_payload f))\<rparr>"
    using written(3) l by (simp add: count_frame_def)
  then show ?thesis
    using frame_taken_saved [OF assms(3), of n f st1 st] written(1,2,4) l by simp
qed

lemma client_payload_result:
  assumes "srv_api_ok inc api" and "length (cv_hdr v) = 36"
    and "client_payload api bo cfg v st w = Some (again, v', st', w')"
  defines "n \<equiv> unat (ntohl bo (fh_payload_len (srv_header bo (cv_hdr v))))"
  shows "cv_hdr v' = cv_hdr v"
    and "if again
      then n \<le> length (inc w) \<and> inc w' = drop n (inc w)
        \<and> frame_taken cfg (received_frame bo (srv_header bo (cv_hdr v)) (take n (inc w))) st st'
      else st' = st \<and> (\<exists>k < n. k \<le> length (inc w) \<and> inc w' = drop k (inc w))"
proof -
  let ?hdr = "srv_header bo (cv_hdr v)"
  let ?len = "ntohl bo (fh_payload_len ?hdr)"
  let ?v = "if unat ?len > length (cv_frame_buf v) then v\<lparr>cv_frame_buf := vec_resize (cv_frame_buf v) (unat ?len)\<rparr> else v"
  have ro: "ssl_read_ok inc api" using assms(1) by (simp add: srv_api_ok_def)
  have n64: "unat ?len < 2 ^ 64" using unsigned_less [of ?len, where 'a = nat] by simp
  obtain ok buf w1 where rd: "sslReadAll api (cv_frame_buf ?v) (unat ?len) w = Some (ok, buf, w1)"
    using assms(3) unfolding client_payload_def Let_def by (auto simp: bind_eq_Some_conv)
  obtain k where k: "k \<le> unat ?len" "ok \<longleftrightarrow> k = unat ?len" "k \<le> length (inc w)"
    "buf = take k (inc w) @ drop k (cv_frame_buf ?v)" "inc w1 = drop k (inc w)"
    by (rule sslReadAll_result [OF ro n64 rd])
  show "cv_hdr v' = cv_hdr v"
    using assms(3) rd by (auto simp: client_payload_def Let_def bind_eq_Some_conv split: if_splits)
  show "if again
      then n \<le> length (inc w) \<and> inc w' = drop n (inc w)
        \<and> frame_taken cfg (received_frame bo (srv_header bo (cv_hdr v)) (take n (inc w))) st st'
      else st' = st \<and> (\<exists>k < n. k \<le> length (inc w) \<and> inc w' = drop k (inc w))"
  proof (cases ok)
    case False
    then show ?thesis
      using assms(3) rd k by (auto simp: client_payload_def Let_def n_def intro: exI [of _ k])
  next
    case True
    let ?f = "received_frame bo ?hdr (take n (inc w))"
    have kn: "k = n" using True k(2) by (simp add: n_def)
    have buf: "take (unat ?len) buf = take n (inc w)" "unat ?len \<le> length buf"
      using k kn vec_grow [of ?len v] by (simp_all add: n_def)
    have "of_nat (frame_bytes ?f) = (of_nat srv_FRAME_HEADER_SIZE + ucast ?len :: u64)"
      using k kn by (simp add: frame_bytes_def received_frame_def srv_constants n_def min_def)
    then have count: "st\<lparr>st_frames_received := st_frames_received st + 1,
        st_bytes_received := st_bytes_received st + (of_nat srv_FRAME_HEADER_SIZE + ucast ?len),
        st_frames := st_frames st @ [received_frame bo ?hdr (mem_read buf 0 (unat ?len))]\<rparr> = count_frame ?f st"
      using buf by (simp add: count_frame_def mem_read_def)
    show ?thesis
    proof (cases "sc_save_frames cfg")
      case False
      then have "again" "st' = count_frame ?f st" "w' = w1"
        using assms(3) rd True by (auto simp: client_payload_def Let_def count)
      then show ?thesis using k kn frame_taken_counted by simp
    next
      case sv: True
      then obtain saved st1 where sf: "saveFrame api bo cfg ?hdr buf ?len (count_frame ?f st) w1 = Some (saved, st1, w')"
        and a: "again" and st': "st' = (if saved then st1\<lparr>st_frames_saved := st_frames_saved st1 + 1\<rparr> else st1)"
        using assms(3) rd True by (auto simp: client_payload_def Let_def bind_eq_Some_conv count)
      have "?f = received_frame bo ?hdr (take (unat ?len) buf)" using buf(1) by simp
      from client_save_result [OF assms(1) sf sv this buf(2)] show ?thesis
        using a st' k(3,5) kn by simp
    qed
  qed
qed

text \<open>A read that gives up finds the stream exhausted: the connection carried no more.\<close>

definition ssl_read_ends :: "('w \<Rightarrow> byte list) \<Rightarrow> 'w srv_api \<Rightarrow> bool" where
  "ssl_read_ends inc api \<longleftrightarrow>
     (\<forall>w n e w'. 0 < n \<longrightarrow> SSL_read api w n = ([], e, w') \<longrightarrow> \<not> ssl_retry e \<longrightarrow> inc w' = [])"

lemma sslReadAll_exhausted:
  assumes "ssl_read_ok inc api" and "ssl_read_ends inc api" and "len < 2 ^ 31"
    and "sslReadAll api buf len w = Some (False, buf', w')"
  shows "length (inc w) < len"
proof -
  obtain n where l: "ssl_read_loop api 0 len (buf, w) = Some (False, n, buf', w')"
    using assms(4) by (auto simp: sslReadAll_def bind_eq_Some_conv)
  have "inc (snd (buf', w')) = []"
  proof (rule ssl_read.loop_stopped [where S = "\<lambda>bw. inc (snd bw) = []", OF _ _ l])
    fix ptr r bw bw' assume r: "0 < r" "r \<le> len" and c: "ssl_read_call api ptr r bw = (Stop, bw')"
    have "0 < int_of_size r" using r assms(3) int_of_size_eq [of r] by simp
    then show "inc (snd bw') = []"
      using assms(2) c by (auto simp: ssl_read_call_def ssl_read_ends_def split: prod.splits if_splits)
  qed (use assms(3) ssl_read_call_bounds [OF assms(1)] in auto)
  moreover have "len < 2 ^ 64" using assms(3) by simp
  then obtain k where "k \<le> len" "False \<longleftrightarrow> k = len" "k \<le> length (inc w)" "inc w' = drop k (inc w)"
    by (rule sslReadAll_result [OF assms(1) _ assms(4)])
  ultimately show ?thesis by simp
qed

lemma client_payload_exhausted:
  assumes "srv_api_ok inc api" and "ssl_read_ends inc api"
    and "client_payload api bo cfg v st w = Some (False, v', st', w')"
    and "unat (ntohl bo (fh_payload_len (srv_header bo (cv_hdr v)))) \<le> payload_limit"
  shows "length (inc w) < unat (ntohl bo (fh_payload_len (srv_header bo (cv_hdr v))))"
proof -
  let ?len = "ntohl bo (fh_payload_len (srv_header bo (cv_hdr v)))"
  let ?v = "if unat ?len > length (cv_frame_buf v) then v\<lparr>cv_frame_buf := vec_resize (cv_frame_buf v) (unat ?len)\<rparr> else v"
  have n31: "unat ?len < 2 ^ 31" using assms(4) by (simp add: payload_limit_def)
  obtain ok buf w1 where rd: "sslReadAll api (cv_frame_buf ?v) (unat ?len) w = Some (ok, buf, w1)"
    using assms(3) unfolding client_payload_def Let_def by (auto simp: bind_eq_Some_conv)
  have "\<not> ok"
    using assms(3) rd by (auto simp: client_payload_def Let_def bind_eq_Some_conv split: if_splits)
  then show ?thesis using sslReadAll_exhausted [OF _ assms(2) n31] rd assms(1) by (simp add: srv_api_ok_def)
qed

lemma payload_limit_check:
  "(x :: u32) > 16 * 1024 * 1024 \<longleftrightarrow> unat x > payload_limit"
  by (simp add: word_less_nat_alt payload_limit_def)

lemma parse_frame_checked:
  assumes "36 \<le> length bs" and "fh_magic (srv_header bo (take 36 bs)) = srv_PROTO_MAGIC"
    and "ntohs bo (fh_version (srv_header bo (take 36 bs))) = srv_PROTO_VERSION"
    and "n = unat (ntohl bo (fh_payload_len (srv_header bo (take 36 bs))))" and "n \<le> payload_limit"
  shows "parse_frame bs = (if length bs - 36 < n then None
    else Some (received_frame bo (srv_header bo (take 36 bs)) (take n (drop 36 bs)), drop n (drop 36 bs)))"
  using assms by (auto simp: parse_frame_def Let_def srv_header_fields srv_constants received_frame_def mem_read_def add.commute)

text \<open>One turn of the client loop takes exactly the next frame of the stream, or stops.\<close>

lemma client_turn_result:
  assumes "srv_api_ok inc api" and "length (cv_hdr v) = 36" and "client_turn api bo cfg v st w = Some (again, v', st', w')"
  shows "length (cv_hdr v') = 36
    \<and> (if again then \<exists>f. parse_frame (inc w) = Some (f, inc w') \<and> frame_taken cfg f st st'
       else st' = st \<and> (ssl_read_ends inc api \<longrightarrow> parse_frame (inc w) = None))"
proof -
  have ro: "ssl_read_ok inc api" using assms(1) by (simp add: srv_api_ok_def)
  have h64: "srv_FRAME_HEADER_SIZE < 2 ^ 64" by (simp add: srv_constants)
  obtain ok hb w1 where rd: "sslReadAll api (cv_hdr v) srv_FRAME_HEADER_SIZE w = Some (ok, hb, w1)"
    using assms(3) by (auto simp: client_turn_def bind_eq_Some_conv)
  obtain k where k: "k \<le> 36" "ok \<longleftrightarrow> k = 36" "k \<le> length (inc w)"
    "hb = take k (inc w) @ drop k (cv_hdr v)" "inc w1 = drop k (inc w)"
    using sslReadAll_result [OF ro h64 rd] by (auto simp: srv_constants)
  have hl: "length hb = 36" using k assms(2) by simp
  show ?thesis
  proof (cases ok)
    case False
    then have "\<not> again" "v' = v\<lparr>cv_hdr := hb\<rparr>" "st' = st" using assms(3) rd by (auto simp: client_turn_def Let_def)
    moreover have "ssl_read_ends inc api \<Longrightarrow> length (inc w) < 36"
      using sslReadAll_exhausted [OF ro, of srv_FRAME_HEADER_SIZE] rd False by (simp add: srv_constants)
    ultimately show ?thesis using hl by (auto simp: parse_frame_def)
  next
    case True
    then have hb: "hb = take 36 (inc w)" and l: "36 \<le> length (inc w)" and w1: "inc w1 = drop 36 (inc w)"
      using k assms(2) by simp_all
    note fields = srv_header_fields [OF l, of bo]
    let ?h = "srv_header bo hb" and ?v = "v\<lparr>cv_hdr := hb\<rparr>"
    let ?n = "unat (ntohl bo (fh_payload_len ?h))"
    have n: "?n = unat (be_word (mem_read (inc w) 24 4) :: u32)" using fields(5) hb by simp
    show ?thesis
    proof (cases "fh_magic ?h \<noteq> srv_PROTO_MAGIC \<or> ntohs bo (fh_version ?h) \<noteq> srv_PROTO_VERSION
        \<or> ntohl bo (fh_payload_len ?h) > 16 * 1024 * 1024")
      case bad: True
      then have "\<not> again" "v' = ?v" "st' = st"
        using assms(3) rd True unfolding client_turn_def Let_def by (auto split: if_splits)
      moreover have "parse_frame (inc w) = None"
        using bad fields hb unfolding payload_limit_check by (auto simp: parse_frame_def srv_constants Let_def)
      ultimately show ?thesis using hl by simp
    next
      case False
      then have cp: "client_payload api bo cfg ?v st w1 = Some (again, v', st', w')"
        using assms(3) rd True unfolding client_turn_def Let_def by (auto split: if_splits)
      have fits: "?n \<le> payload_limit" using False unfolding payload_limit_check by simp
      have pf: "parse_frame (inc w) = (if length (inc w) - 36 < ?n then None
          else Some (received_frame bo ?h (take ?n (inc w1)), drop ?n (inc w1)))"
        using False l fits parse_frame_checked [of "inc w" bo ?n] by (simp add: hb w1)
      note r = client_payload_result [OF assms(1) _ cp, simplified, OF hl]
      show ?thesis
      proof (cases again)
        case True
        then show ?thesis using r hl pf w1 by auto
      next
        case stop: False
        have "ssl_read_ends inc api \<Longrightarrow> length (inc w1) < ?n"
          using client_payload_exhausted [OF assms(1), of bo cfg ?v st w1] cp stop fits by simp
        then show ?thesis using stop r hl pf w1 by auto
      qed
    qed
  qed
qed

section \<open>A whole client\<close>

text \<open>A list of frames, one after the other, each changing the state by the relation \<open>T\<close>.\<close>

fun frames_run :: "(frame \<Rightarrow> srv_state \<Rightarrow> srv_state \<Rightarrow> bool) \<Rightarrow> frame list \<Rightarrow> srv_state \<Rightarrow> srv_state \<Rightarrow> bool" where
  "frames_run T [] st st' \<longleftrightarrow> st' = st"
| "frames_run T (f # fs) st st' \<longleftrightarrow> (\<exists>st1. T f st st1 \<and> frames_run T fs st1 st')"

lemma frame_taken_effect:
  "frame_taken cfg f st st' \<Longrightarrow> st_frames st' = st_frames st @ [f]
     \<and> st_frames_received st' = st_frames_received st + 1
     \<and> st_bytes_received st' = st_bytes_received st + of_nat (frame_bytes f)
     \<and> st_fds st' = st_fds st \<and> st_ctx_live st' = st_ctx_live st \<and> st_ssl_live st' = st_ssl_live st"
  by (auto simp: frame_taken_def)

lemma frames_taken_effect:
  "frames_run (frame_taken cfg) fs st st' \<Longrightarrow> st_frames st' = st_frames st @ fs
     \<and> st_frames_received st' = st_frames_received st + of_nat (length fs)
     \<and> st_bytes_received st' = st_bytes_received st + of_nat (sum_list (map frame_bytes fs))
     \<and> st_fds st' = st_fds st \<and> st_ctx_live st' = st_ctx_live st \<and> st_ssl_live st' = st_ssl_live st"
proof (induction fs arbitrary: st)
  case (Cons f fs)
  then obtain st1 where "frame_taken cfg f st st1" "frames_run (frame_taken cfg) fs st1 st'" by auto
  then show ?case using frame_taken_effect [of cfg f st st1] Cons.IH [of st1] by (simp add: add.assoc)
qed simp

text \<open>The running flag is not cleared while bytes of the connection are still to be read.\<close>

definition reads_to_end :: "('w \<Rightarrow> byte list) \<Rightarrow> 'w srv_api \<Rightarrow> bool" where
  "reads_to_end inc api \<longleftrightarrow> (\<forall>w. inc w \<noteq> [] \<longrightarrow> fst (g_running api w))"

lemma client_loop_result:
  assumes "srv_api_ok inc api" and "client_loop api bo cfg v st w = Some r" and "length (cv_hdr v) = 36"
    and T: "\<And>v st w v' st' w' f. client_turn api bo cfg v st w = Some (True, v', st', w') \<Longrightarrow> frame_taken cfg f st st' \<Longrightarrow> T f st st'"
  shows "\<exists>fs. prefix fs (parse_stream (inc w)) \<and> frames_run T fs st (fst (snd r))
    \<and> (reads_to_end inc api \<and> ssl_read_ends inc api \<longrightarrow> fs = parse_stream (inc w))"
proof -
  let ?Q = "\<lambda>v st w r. length (cv_hdr v) = 36 \<longrightarrow> (\<exists>fs. prefix fs (parse_stream (inc w)) \<and> frames_run T fs st (fst (snd r))
    \<and> (reads_to_end inc api \<and> ssl_read_ends inc api \<longrightarrow> fs = parse_stream (inc w)))"
  have "api = api \<and> bo = bo \<and> cfg = cfg \<longrightarrow> ?Q v st w r"
  proof (rule client_loop.raw_induct [where P = "\<lambda>api' bo' cfg' v st w r. api' = api \<and> bo' = bo \<and> cfg' = cfg \<longrightarrow> ?Q v st w r",
        OF _ assms(2)], intro impI)
    fix f api' bo' cfg' v st w r
    assume IH: "\<And>api' bo' cfg' v st w r. f api' bo' cfg' v st w = Some r \<Longrightarrow> api' = api \<and> bo' = bo \<and> cfg' = cfg \<longrightarrow> ?Q v st w r"
      and eq: "(case g_running api' w of (go, w) \<Rightarrow>
        if go then do {
          (again, v, st, w) \<leftarrow> client_turn api' bo' cfg' v st w;
          if again then f api' bo' cfg' v st w else Some (v, st, w)
        } else Some (v, st, w)) = Some r"
      and e: "api' = api \<and> bo' = bo \<and> cfg' = cfg" and l: "length (cv_hdr v) = 36"
    obtain go w1 where g: "g_running api w = (go, w1)" by (cases "g_running api w")
    have "inc (snd (g_running api w)) = inc w"
      using assms(1) unfolding srv_api_ok_def stream_only_read_def by blast
    then have i: "inc w1 = inc w" using g by simp
    show "\<exists>fs. prefix fs (parse_stream (inc w)) \<and> frames_run T fs st (fst (snd r))
        \<and> (reads_to_end inc api \<and> ssl_read_ends inc api \<longrightarrow> fs = parse_stream (inc w))"
    proof (cases go)
      case False
      then have "reads_to_end inc api \<longrightarrow> inc w = []" using g unfolding reads_to_end_def by (metis fst_conv)
      then show ?thesis
        using False eq e g by (intro exI [of _ "[]"]) (auto simp: parse_stream.simps [of "[]"] parse_frame_Nil)
    next
      case True
      then obtain again v2 st2 w2 where t: "client_turn api bo cfg v st w1 = Some (again, v2, st2, w2)"
        and rest: "(if again then f api bo cfg v2 st2 w2 else Some (v2, st2, w2)) = Some r"
        using eq e g by (auto simp: bind_eq_Some_conv)
      note res = client_turn_result [OF assms(1) l t, unfolded i]
      show ?thesis
      proof (cases again)
        case False
        then show ?thesis
          using res rest by (intro exI [of _ "[]"]) (auto simp: parse_stream.simps [of "inc w"])
      next
        case True
        then obtain f1 where p: "parse_frame (inc w) = Some (f1, inc w2)" "T f1 st st2" "length (cv_hdr v2) = 36"
          using res T t by auto
        then obtain fs where "prefix fs (parse_stream (inc w2))" "frames_run T fs st2 (fst (snd r))"
          "reads_to_end inc api \<and> ssl_read_ends inc api \<longrightarrow> fs = parse_stream (inc w2)"
          using IH [of api bo cfg v2 st2 w2 r] rest True by auto
        then show ?thesis
          using p by (intro exI [of _ "f1 # fs"]) (auto simp: parse_stream.simps [of "inc w"])
      qed
    qed
  qed
  then show ?thesis using assms(3) by simp
qed

section \<open>The client loop ends\<close>

definition srv_progress :: "('w \<Rightarrow> nat) \<Rightarrow> 'w srv_api \<Rightarrow> bool" where
  "srv_progress m api \<longleftrightarrow> ssl_read_progress m api \<and> file_write_progress m api"

lemma saveFrame_returns:
  assumes "srv_api_ok inc api" and "srv_progress m api"
  shows "\<exists>r. saveFrame api bo cfg hdr data len st w = Some r"
proof -
  have "unat len < 2 ^ 64" using unsigned_less [of len, where 'a = nat] by simp
  then have "file_write_loop api name data 0 (unat len) st w \<noteq> None" for name st w
    using file_write_returns [of api m "unat len" name data st w] assms by (auto simp: srv_api_ok_def srv_progress_def)
  then have "saveFrame api bo cfg hdr data len st w \<noteq> None" unfolding saveFrame_def Let_def
    by (simp add: bind_eq_None_conv del: not_None_eq split: prod.split)
  then show ?thesis by simp
qed

lemma client_payload_returns:
  assumes "srv_api_ok inc api" and "srv_progress m api"
  shows "\<exists>r. client_payload api bo cfg v st w = Some r"
proof -
  let ?hdr = "srv_header bo (cv_hdr v)"
  let ?len = "ntohl bo (fh_payload_len ?hdr)"
  let ?v = "if unat ?len > length (cv_frame_buf v) then v\<lparr>cv_frame_buf := vec_resize (cv_frame_buf v) (unat ?len)\<rparr> else v"
  have "unat ?len < 2 ^ 64" using unsigned_less [of ?len, where 'a = nat] by simp
  then obtain ok buf w1 where rd: "sslReadAll api (cv_frame_buf ?v) (unat ?len) w = Some (ok, buf, w1)"
    using sslReadAll_returns [of inc api m "unat ?len"] assms by (metis prod_cases3 srv_api_ok_def srv_progress_def)
  have "saveFrame api bo cfg ?hdr buf ?len st0 w1 \<noteq> None" for st0
    using saveFrame_returns [OF assms] by auto
  then have "client_payload api bo cfg v st w \<noteq> None"
    unfolding client_payload_def Let_def rd bind.bind_lunit prod.case
    by (simp add: bind_eq_None_conv del: not_None_eq split: prod.split)
  then show ?thesis by simp
qed

lemma client_turn_returns:
  assumes "srv_api_ok inc api" and "srv_progress m api"
  shows "\<exists>r. client_turn api bo cfg v st w = Some r"
proof -
  have "srv_FRAME_HEADER_SIZE < 2 ^ 64" by (simp add: srv_constants)
  then obtain ok hb w1 where rd: "sslReadAll api (cv_hdr v) srv_FRAME_HEADER_SIZE w = Some (ok, hb, w1)"
    using sslReadAll_returns [of inc api m srv_FRAME_HEADER_SIZE] assms by (metis prod_cases3 srv_api_ok_def srv_progress_def)
  have "client_payload api bo cfg v0 st w1 \<noteq> None" for v0
    using client_payload_returns [OF assms] by auto
  then have "client_turn api bo cfg v st w \<noteq> None"
    unfolding client_turn_def Let_def rd bind.bind_lunit prod.case by (simp del: not_None_eq)
  then show ?thesis by simp
qed

lemma client_loop_returns:
  assumes "srv_api_ok inc api" and "srv_progress m api"
  shows "length (cv_hdr v) = 36 \<Longrightarrow> \<exists>r. client_loop api bo cfg v st w = Some r"
proof (induction "length (inc w)" arbitrary: v st w rule: less_induct)
  case less
  obtain go w1 where g: "g_running api w = (go, w1)" by (cases "g_running api w")
  have "inc (snd (g_running api w)) = inc w"
    using assms(1) unfolding srv_api_ok_def stream_only_read_def by blast
  then have i: "inc w1 = inc w" using g by simp
  obtain again v2 st2 w2 where t: "client_turn api bo cfg v st w1 = Some (again, v2, st2, w2)"
    using client_turn_returns [OF assms] by (metis prod_cases4)
  note res = client_turn_result [OF assms(1) less.prems t, unfolded i]
  have "again \<Longrightarrow> \<exists>r. client_loop api bo cfg v2 st2 w2 = Some r"
    using res less.hyps [of w2 v2 st2] by (auto dest: parse_frame_shorter)
  then show ?case using g t by (subst client_loop.simps) auto
qed

lemma handleClient_decodes:
  assumes "srv_api_ok inc api" and "srv_progress m api" and "reads_to_end inc api" and "ssl_read_ends inc api"
    and "length stack = FRAME_HEADER_SIZE"
  shows "\<exists>buf st' w'. handleClient api bo cfg stack st w = Some (buf, st', w')
    \<and> st_frames st' = st_frames st @ parse_stream (inc w)
    \<and> st_frames_received st' = st_frames_received st + of_nat (length (parse_stream (inc w)))
    \<and> st_bytes_received st' = st_bytes_received st + of_nat (sum_list (map frame_bytes (parse_stream (inc w))))
    \<and> st_fds st' = st_fds st \<and> set buf \<subseteq> {0}"
proof -
  let ?v = "\<lparr> cv_hdr = stack, cv_frame_buf = [], cv_client_frames = 0 \<rparr>"
  have l: "length (cv_hdr ?v) = 36" using assms(5) by simp
  obtain v' st' w' where r: "client_loop api bo cfg ?v st w = Some (v', st', w')"
    using client_loop_returns [OF assms(1,2) l] by (metis prod_cases3)
  have "frames_run (frame_taken cfg) (parse_stream (inc w)) st st'"
    using client_loop_result [OF assms(1) r l, of "frame_taken cfg"] assms(3,4) by auto
  from frames_taken_effect [OF this] show ?thesis using r by (simp add: handleClient_def) auto
qed

text \<open>
  C16. The server is the reference decoder: on whatever bytes a client sends, cut into records
  in any way, \<open>handleClient\<close> returns; as long as the running flag is not cleared while there are bytes
  to read, it has taken exactly the frames that the decoder finds in the stream, in order and with
  the right payloads, up to the first thing that is not a frame; its counters grow by their
  number and their size; nothing it opened stays open; and the frame buffer is cleared before it is
  released.
\<close>

theorem server_decodes_stream:
  assumes "srv_api_ok inc api" and "srv_progress m api" and "reads_to_end inc api" and "ssl_read_ends inc api"
    and "length stack = FRAME_HEADER_SIZE"
  shows "\<exists>buf st' w'. handleClient api bo cfg stack st w = Some (buf, st', w')
    \<and> st_frames st' = st_frames st @ parse_stream (inc w)
    \<and> st_frames_received st' = st_frames_received st + of_nat (length (parse_stream (inc w)))
    \<and> st_bytes_received st' = st_bytes_received st + of_nat (sum_list (map frame_bytes (parse_stream (inc w))))
    \<and> st_fds st' = st_fds st \<and> set buf \<subseteq> {0}"
  by (rule handleClient_decodes [OF assms])

text \<open>What the client writes for a frame: the header struct as it lies in its memory, then the payload.\<close>

definition sent_bytes :: "byte_order \<Rightarrow> frame \<Rightarrow> byte list" where
  "sent_bytes bo f = header_bytes bo (initFrameHeader bo (fr_seq f) (fr_timestamp_ns f)
     (of_nat (length (fr_payload f))) (fr_pixel_format f) (fr_width f) (fr_height f)) @ fr_payload f"

lemma sent_bytes_wire: "sent_bytes bo f = frame_wire f"
  by (simp add: sent_bytes_def frame_wire_def header_bytes_init)

text \<open>
  C17. Round trip between the two programs: frames of at most 16 MB that a client wrote with the headers
  of \<open>initFrameHeader\<close>, on a host of any byte order, one after the other and broken off anywhere inside
  the next one, are what \<open>handleClient\<close> takes over on a host of any byte order, one by one, with
  every field and every payload byte, and nothing of the one that is incomplete.
\<close>

theorem server_takes_sent_frames:
  assumes "srv_api_ok inc api" and "srv_progress m api" and "reads_to_end inc api" and "ssl_read_ends inc api"
    and "length stack = FRAME_HEADER_SIZE"
    and "list_all (\<lambda>f. length (fr_payload f) \<le> 16 * 1024 * 1024) fs"
    and "inc w = concat (map (sent_bytes bo) fs) @ rest"
    and "rest \<noteq> [] \<longrightarrow> strict_prefix rest (sent_bytes bo g) \<and> length (fr_payload g) < 2 ^ 32"
  shows "\<exists>buf st' w'. handleClient api bo' cfg stack st w = Some (buf, st', w')
    \<and> st_frames st' = st_frames st @ fs \<and> st_frames_received st' = st_frames_received st + of_nat (length fs)"
proof -
  have "sent_bytes bo = frame_wire" by (simp add: fun_eq_iff sent_bytes_wire)
  then have "cut_stream fs (inc w)" using assms(7,8) by (auto simp: cut_stream_def stream_def)
  moreover have "list_all frame_fits fs" using assms(6) by (simp add: frame_fits_def [abs_def] payload_limit_def)
  ultimately have "parse_stream (inc w) = fs" by (rule parse_cut_stream)
  then show ?thesis using handleClient_decodes [OF assms(1-5), of bo' cfg st w] by auto
qed

text \<open>
  Safety on every run, also one that is stopped or fails in the middle: whatever a client
  sends, the frames taken over are a prefix of what the decoder finds in the stream, each
  with at most 16 MB of payload, and the counters agree with them.
\<close>

lemma server_takes_only_sent_frames:
  assumes "srv_api_ok inc api" and "length stack = FRAME_HEADER_SIZE"
    and "handleClient api bo cfg stack st w = Some (buf, st', w')"
  shows "\<exists>fs. st_frames st' = st_frames st @ fs \<and> prefix fs (parse_stream (inc w))
    \<and> (\<forall>f\<in>set fs. length (fr_payload f) \<le> 16 * 1024 * 1024)
    \<and> st_frames_received st' = st_frames_received st + of_nat (length fs)
    \<and> st_fds st' = st_fds st"
proof -
  let ?v = "\<lparr> cv_hdr = stack, cv_frame_buf = [], cv_client_frames = 0 \<rparr>"
  have l: "length (cv_hdr ?v) = 36" using assms(2) by simp
  obtain v' where r: "client_loop api bo cfg ?v st w = Some (v', st', w')"
    using assms(3) by (auto simp: handleClient_def bind_eq_Some_conv)
  obtain fs where fs: "prefix fs (parse_stream (inc w))" "frames_run (frame_taken cfg) fs st st'"
    using client_loop_result [OF assms(1) r l, of "frame_taken cfg"] by auto
  have "\<forall>f\<in>set fs. length (fr_payload f) \<le> 16 * 1024 * 1024"
    using parse_stream_limit set_mono_prefix [OF fs(1)] unfolding payload_limit_def by blast
  then show ?thesis using fs frames_taken_effect [OF fs(2)] by blast
qed

section \<open>Saved files\<close>

text \<open>A disk that takes everything: files can be opened and writes fail only by interruption.\<close>

definition disk_ok :: "'w srv_api \<Rightarrow> bool" where
  "disk_ok api \<longleftrightarrow> (\<forall>w fds f. 0 \<le> fst (sys_open api w fds f))
     \<and> (\<forall>w bs n k e w'. sys_write api w bs n = (k, e, w') \<longrightarrow> k < 0 \<longrightarrow> e = EINTR)"











section \<open>A concrete server\<close>

text \<open>
  The world is the stream still to come; reads give up to five bytes, writes take up to three,
  and the connection ends where the stream does.
\<close>

definition demo_srv :: "byte list srv_api" where
  "demo_srv =
     \<lparr> srv_CTX_new = (\<lambda>w. (True, w)), srv_set_min_proto = (\<lambda>w v. (True, w)), use_certificate_file = (\<lambda>w f. (1, w)), use_PrivateKey_file = (\<lambda>w f. (1, w)),
       check_private_key = (\<lambda>w. (True, w)), sys_mkdir = (\<lambda>w d. (0, 0, w)),
       srv_socket = (\<lambda>w fds. (3, w)), sys_bind = (\<lambda>w fd p. (0, w)), sys_listen = (\<lambda>w fd. (0, w)),
       sys_select = (\<lambda>w fd. (1, 0, w)), sys_accept = (\<lambda>w fds. (if w = [] then -1 else 4, 0, w)),
       srv_SSL_new = (\<lambda>w. (True, w)), SSL_accept = (\<lambda>w. (1, w)),
       SSL_read = (\<lambda>w n. (take (nat (min n 5)) w, SSL_ERROR_ZERO_RETURN, drop (nat (min n 5)) w)),
       sys_open = (\<lambda>w fds f. (5, w)), sys_write = (\<lambda>w bs n. (min n 3, EINTR, w)), g_running = (\<lambda>w. (True, w)) \<rparr>"

definition demo_sent :: "frame list" where
  "demo_sent = [\<lparr> fr_seq = 1, fr_timestamp_ns = 2, fr_pixel_format = 0x47504A4D, fr_width = 4, fr_height = 5, fr_payload = [9, 8, 7, 6] \<rparr>]"

definition demo_srv_config :: srv_config where
  "demo_srv_config = default_srv_config\<lparr>sc_output_dir := ''out'', sc_save_frames := True\<rparr>"

lemma demo_srv_ok:
  "srv_api_ok (\<lambda>w. w) demo_srv" "srv_progress (\<lambda>_. 0) demo_srv" "reads_to_end (\<lambda>w. w) demo_srv" "ssl_read_ends (\<lambda>w. w) demo_srv"
  "disk_ok demo_srv"
proof -
  show "srv_api_ok (\<lambda>w. w) demo_srv"
    by (auto simp: srv_api_ok_def ssl_read_ok_def file_write_bounded_def stream_only_read_def demo_srv_def)
  show "srv_progress (\<lambda>_. 0) demo_srv"
    by (auto simp: srv_progress_def ssl_read_progress_def file_write_progress_def demo_srv_def)
  show "reads_to_end (\<lambda>w. w) demo_srv" by (simp add: reads_to_end_def demo_srv_def)
  show "ssl_read_ends (\<lambda>w. w) demo_srv" by (auto simp: ssl_read_ends_def demo_srv_def)
  show "disk_ok demo_srv" by (auto simp: disk_ok_def demo_srv_def)
qed

lemma demo_sent_parse: "parse_stream (stream demo_sent) = demo_sent"
  by (rule parse_cut_stream [OF cut_stream_whole]) (simp add: demo_sent_def frame_fits_def payload_limit_def)

theorem sslReadAll_correct_witness:
  "\<exists>ok n buf' w'. sslReadAll demo_srv [0, 0, 0] 3 [7, 8, 9, 10] = Some (ok, buf', w') \<and> (ok \<longleftrightarrow> n = 3)
     \<and> buf' = take n [7, 8, 9, 10] @ drop n [0, 0, 0]"
proof -
  have "(3 :: nat) < 2 ^ 64" by simp
  from sslReadAll_correct [OF demo_srv_ok(1)[unfolded srv_api_ok_def, THEN conjunct1]
      demo_srv_ok(2)[unfolded srv_progress_def, THEN conjunct1] this, of "[0, 0, 0]" "[7, 8, 9, 10]"]
  show ?thesis by blast
qed

lemma saveFrame_correct_example:
  "\<exists>ok st' w'. saveFrame demo_srv LittleEndian demo_srv_config (srv_header LittleEndian (frame_wire (hd demo_sent))) [9, 8] 2 init_srv_state []
     = Some (ok, st', w') \<and> st_fds st' = []"
proof -
  let ?h = "srv_header LittleEndian (frame_wire (hd demo_sent))"
  obtain ok st' w' where r: "saveFrame demo_srv LittleEndian demo_srv_config ?h [9, 8] 2 init_srv_state [] = Some (ok, st', w')"
    using saveFrame_returns [OF demo_srv_ok(1,2)] by (metis prod_cases3)
  have "unat (2 :: u32) \<le> length [9, 8 :: byte]" by simp
  from saveFrame_correct [OF demo_srv_ok(1) this r] show ?thesis using r by (simp add: init_srv_state_def)
qed

theorem server_decodes_stream_witness:
  "\<exists>buf st' w'. handleClient demo_srv LittleEndian demo_srv_config (replicate 36 0) init_srv_state (stream demo_sent) = Some (buf, st', w')
     \<and> st_frames st' = demo_sent \<and> st_frames_received st' = 1"
proof -
  have "length (replicate 36 (0 :: byte)) = FRAME_HEADER_SIZE" by simp
  from server_decodes_stream [OF demo_srv_ok(1-4) this, of LittleEndian demo_srv_config init_srv_state "stream demo_sent"]
  show ?thesis unfolding demo_sent_parse by (auto simp: init_srv_state_def demo_sent_def)
qed

theorem server_takes_sent_frames_witness:
  "\<exists>buf st' w'. handleClient demo_srv BigEndian demo_srv_config (replicate 36 0) init_srv_state
       (sent_bytes LittleEndian (hd demo_sent) @ take 3 (sent_bytes LittleEndian (hd demo_sent))) = Some (buf, st', w')
     \<and> st_frames st' = demo_sent"
proof -
  let ?b = "sent_bytes LittleEndian (hd demo_sent)"
  have "length (replicate 36 (0 :: byte)) = FRAME_HEADER_SIZE"
    "list_all (\<lambda>f. length (fr_payload f) \<le> 16 * 1024 * 1024) demo_sent" "length (fr_payload (hd demo_sent)) < 2 ^ 32"
    "?b @ take 3 ?b = concat (map (sent_bytes LittleEndian) demo_sent) @ take 3 ?b"
    by (simp_all add: demo_sent_def)
  moreover have "strict_prefix (take 3 ?b) ?b"
    unfolding strict_prefix_def using take_is_prefix arg_cong [of "take 3 ?b" ?b length] by (auto simp: sent_bytes_wire)
  ultimately show ?thesis
    using server_takes_sent_frames [OF demo_srv_ok(1-4), of "replicate 36 0" demo_sent "?b @ take 3 ?b" LittleEndian
        "take 3 ?b" "hd demo_sent" BigEndian demo_srv_config init_srv_state]
    by (auto simp: init_srv_state_def)
qed

lemma demo_handled:
  "\<exists>buf st' w'. handleClient demo_srv LittleEndian demo_srv_config (replicate 36 0) init_srv_state (stream demo_sent) = Some (buf, st', w')"
proof -
  have "\<exists>r. client_loop demo_srv LittleEndian demo_srv_config \<lparr> cv_hdr = replicate 36 0, cv_frame_buf = [], cv_client_frames = 0 \<rparr>
      init_srv_state (stream demo_sent) = Some r"
    by (rule client_loop_returns [OF demo_srv_ok(1,2)]) simp
  then show ?thesis by (auto simp: handleClient_def)
qed

lemma server_takes_only_sent_frames_example:
  "\<exists>buf st' w' fs. handleClient demo_srv LittleEndian demo_srv_config (replicate 36 0) init_srv_state (stream demo_sent) = Some (buf, st', w')
     \<and> st_frames st' = fs \<and> prefix fs demo_sent"
proof -
  obtain buf st' w' where r: "handleClient demo_srv LittleEndian demo_srv_config (replicate 36 0) init_srv_state (stream demo_sent) = Some (buf, st', w')"
    using demo_handled by blast
  have "length (replicate 36 (0 :: byte)) = FRAME_HEADER_SIZE" by simp
  from server_takes_only_sent_frames [OF demo_srv_ok(1) this r] show ?thesis
    using r unfolding demo_sent_parse by (auto simp: init_srv_state_def)
qed


end
