(* ===== verification/Server_Main.thy ===== *)
theory Server_Main
  imports Frame_Server_Runs Getopt
begin

text \<open>
  The server program of \<open>server/server.cpp\<close> around its client handler: the command line, the
  start-up with its clean-up paths, the accept loop and the shut-down. \<open>getopt_long\<close> is that of
  \<open>Getopt\<close>; an exception nobody catches ends the process.
\<close>

section \<open>Command line\<close>

datatype 'e arg_error = Usage | Uncaught 'e

definition srv_long_options :: "long_option list" where
  "srv_long_options =
     [(''port'', required_argument, CHR ''p''), (''cert'', required_argument, CHR ''c''),
      (''key'', required_argument, CHR ''k''), (''output'', required_argument, CHR ''o''),
      (''verbose'', no_argument, CHR ''v''), (''help'', no_argument, CHR ''h'')]"

definition srv_option :: "opt_result \<Rightarrow> srv_config \<Rightarrow> stoi_error arg_error + srv_config" where
  "srv_option r cfg =
     (case r of (opt, optarg) \<Rightarrow>
        if opt = CHR ''p'' then
          (case stoi optarg of Inl e \<Rightarrow> Inl (Uncaught e) | Inr v \<Rightarrow> Inr (cfg\<lparr>sc_port := word_of_int v\<rparr>))
        else if opt = CHR ''c'' then Inr (cfg\<lparr>sc_cert_file := optarg\<rparr>)
        else if opt = CHR ''k'' then Inr (cfg\<lparr>sc_key_file := optarg\<rparr>)
        else if opt = CHR ''o'' then Inr (cfg\<lparr>sc_output_dir := optarg, sc_save_frames := True\<rparr>)
        else if opt = CHR ''v'' then Inr (cfg\<lparr>sc_verbose := True\<rparr>)
        else Inl Usage)"

definition srv_parseArgs :: "string list \<Rightarrow> srv_config \<Rightarrow> stoi_error arg_error + srv_config" where
  "srv_parseArgs args cfg =
     (case fold_options srv_option (getopt_long ''p:c:k:o:vh'' srv_long_options args) cfg of
        Inl e \<Rightarrow> Inl e
      | Inr cfg \<Rightarrow> if sc_cert_file cfg = [] \<or> sc_key_file cfg = [] then Inl Usage else Inr cfg)"

section \<open>The program\<close>

text \<open>
  One accepted connection. The code does not check the result of \<open>SSL_new\<close>; without an object
  the calls that follow have no defined behaviour, and neither has the model.
\<close>

definition serve_connection ::
  "'w srv_api \<Rightarrow> byte_order \<Rightarrow> srv_config \<Rightarrow> byte list \<Rightarrow> int \<Rightarrow> srv_state \<Rightarrow> 'w \<Rightarrow> (srv_state \<times> 'w) option" where
  "serve_connection api bo cfg stack client_fd st w =
     (case srv_SSL_new api w of (ok, w) \<Rightarrow>
        if \<not> ok then None
        else
          let st = st\<lparr>st_ssl_live := st_ssl_live st + 1\<rparr> in
          case SSL_accept api w of (r, w) \<Rightarrow>
            if r \<le> 0 then Some (srv_close client_fd (srv_ssl_free st), w)
            else do {
              (buf, st, w) \<leftarrow> handleClient api bo cfg stack st w;
              Some (srv_close client_fd (srv_ssl_free st), w)
            })"

partial_function (option) accept_loop ::
  "'w srv_api \<Rightarrow> byte_order \<Rightarrow> srv_config \<Rightarrow> byte list \<Rightarrow> int \<Rightarrow> srv_state \<Rightarrow> 'w \<Rightarrow> (srv_state \<times> 'w) option" where
  "accept_loop api bo cfg stack server_fd st w =
     (case g_running api w of (go, w) \<Rightarrow>
        if \<not> go then Some (st, w)
        else
          case sys_select api w (server_fd + 1) of (ready, errno, w) \<Rightarrow>
            if ready < 0 then
              (if errno = EINTR then accept_loop api bo cfg stack server_fd st w else Some (st, w))
            else if ready = 0 then accept_loop api bo cfg stack server_fd st w
            else
              case sys_accept api w (st_fds st) of (client_fd, errno, w) \<Rightarrow>
                if client_fd < 0 then
                  (if errno = EINTR then accept_loop api bo cfg stack server_fd st w else Some (st, w))
                else do {
                  (st, w) \<leftarrow> serve_connection api bo cfg stack client_fd (st\<lparr>st_fds := client_fd # st_fds st\<rparr>) w;
                  accept_loop api bo cfg stack server_fd st w
                })"

text \<open>From the listening socket to the end of \<open>main\<close>.\<close>

definition run_server ::
  "'w srv_api \<Rightarrow> byte_order \<Rightarrow> srv_config \<Rightarrow> byte list \<Rightarrow> srv_state \<Rightarrow> 'w \<Rightarrow> (exit_status \<times> srv_state \<times> 'w) option" where
  "run_server api bo cfg stack st w =
     (case srv_socket api w (st_fds st) of (server_fd, w) \<Rightarrow>
        if server_fd < 0 then Some (EXIT_FAILURE, srv_ctx_free st, w)
        else
          let st = st\<lparr>st_fds := server_fd # st_fds st\<rparr> in
          case sys_bind api w server_fd (htons bo (sc_port cfg)) of (r, w) \<Rightarrow>
            if r < 0 then Some (EXIT_FAILURE, srv_ctx_free (srv_close server_fd st), w)
            else
              case sys_listen api w server_fd of (r, w) \<Rightarrow>
                if r < 0 then Some (EXIT_FAILURE, srv_ctx_free (srv_close server_fd st), w)
                else do {
                  (st, w) \<leftarrow> accept_loop api bo cfg stack server_fd st w;
                  Some (EXIT_SUCCESS, srv_ctx_free (srv_close server_fd st), w)
                })"

definition server_main ::
  "'w srv_api \<Rightarrow> byte_order \<Rightarrow> byte list \<Rightarrow> string list \<Rightarrow> srv_state \<Rightarrow> 'w \<Rightarrow> (exit_status \<times> srv_state \<times> 'w) option" where
  "server_main api bo stack args st w =
     (case srv_parseArgs args default_srv_config of
        Inl Usage \<Rightarrow> Some (EXIT_FAILURE, st, w)
      | Inl (Uncaught e) \<Rightarrow> Some (ABORTED, st, w)
      | Inr cfg \<Rightarrow>
          case (if sc_save_frames cfg then sys_mkdir api w (sc_output_dir cfg) else (0, 0, w)) of (r, errno, w) \<Rightarrow>
            if r < 0 \<and> errno \<noteq> EEXIST then Some (EXIT_FAILURE, st, w)
            else
              case srv_createSslContext api (sc_cert_file cfg) (sc_key_file cfg) st w of (ok, st, w) \<Rightarrow>
                if \<not> ok then Some (EXIT_FAILURE, st, w)
                else run_server api bo cfg stack st w)"

section \<open>Nothing stays open\<close>

definition srv_same :: "srv_state \<Rightarrow> srv_state \<Rightarrow> bool" where
  "srv_same st st' \<longleftrightarrow> st_fds st' = st_fds st \<and> st_ctx_live st' = st_ctx_live st \<and> st_ssl_live st' = st_ssl_live st"

lemma handleClient_same:
  assumes "srv_api_ok inc api" and "length stack = 36" and "handleClient api bo cfg stack st w = Some (buf, st', w')"
  shows "srv_same st st'"
proof -
  let ?v = "\<lparr> cv_hdr = stack, cv_frame_buf = [], cv_client_frames = 0 \<rparr>"
  have l: "length (cv_hdr ?v) = 36" using assms(2) by simp
  obtain v' where r: "client_loop api bo cfg ?v st w = Some (v', st', w')"
    using assms(3) by (auto simp: handleClient_def bind_eq_Some_conv)
  obtain fs where "frames_run (frame_taken cfg) fs st st'"
    using client_loop_result [OF assms(1) r l, of "frame_taken cfg"] by auto
  from frames_taken_effect [OF this] show ?thesis by (simp add: srv_same_def)
qed

lemma serve_connection_same:
  assumes "srv_api_ok inc api" and "length stack = 36"
    and "serve_connection api bo cfg stack fd (st\<lparr>st_fds := fd # st_fds st\<rparr>) w = Some (st', w')"
  shows "srv_same st st'"
  using assms(3) handleClient_same [OF assms(1,2)]
  by (fastforce simp: serve_connection_def Let_def srv_same_def srv_close_def srv_ssl_free_def bind_eq_Some_conv
      split: prod.splits if_splits)

text \<open>What every connection does to the state of the process, the accept loop does.\<close>

lemma accept_loop_keeps:
  assumes refl: "\<And>st. R st st"
    and conn: "\<And>cfd st w st1 w1 st2. serve_connection api bo cfg stack cfd (st\<lparr>st_fds := cfd # st_fds st\<rparr>) w = Some (st1, w1) \<Longrightarrow>
      R st1 st2 \<Longrightarrow> R st st2"
    and res: "accept_loop api bo cfg stack fd st w = Some r"
  shows "R st (fst r)"
proof -
  have "(api, bo, cfg, stack) = (api, bo, cfg, stack) \<longrightarrow> R st (fst r)"
  proof (rule accept_loop.raw_induct [where
        P = "\<lambda>api' bo' cfg' stack' fd' st w r. (api', bo', cfg', stack') = (api, bo, cfg, stack) \<longrightarrow> R st (fst r)", OF _ res], intro impI)
    fix f api' bo' cfg' stack' fd' st w r
    assume IH: "\<And>api' bo' cfg' stack' fd' st w r. f api' bo' cfg' stack' fd' st w = Some r \<Longrightarrow>
        (api', bo', cfg', stack') = (api, bo, cfg, stack) \<longrightarrow> R st (fst r)"
      and eq: "(case g_running api' w of (go, w) \<Rightarrow>
        if \<not> go then Some (st, w)
        else
          case sys_select api' w (fd' + 1) of (ready, errno, w) \<Rightarrow>
            if ready < 0 then (if errno = EINTR then f api' bo' cfg' stack' fd' st w else Some (st, w))
            else if ready = 0 then f api' bo' cfg' stack' fd' st w
            else
              case sys_accept api' w (st_fds st) of (client_fd, errno, w) \<Rightarrow>
                if client_fd < 0 then (if errno = EINTR then f api' bo' cfg' stack' fd' st w else Some (st, w))
                else do {
                  (st, w) \<leftarrow> serve_connection api' bo' cfg' stack' client_fd (st\<lparr>st_fds := client_fd # st_fds st\<rparr>) w;
                  f api' bo' cfg' stack' fd' st w
                }) = Some r"
      and e: "(api', bo', cfg', stack') = (api, bo, cfg, stack)"
    have "R st (fst r)" if "serve_connection api bo cfg stack cfd (st\<lparr>st_fds := cfd # st_fds st\<rparr>) v = Some (st1, w1)"
      "f api bo cfg stack fd' st1 w1 = Some r" for cfd v st1 w1
      using conn [OF that(1)] IH [OF that(2)] by simp
    then show "R st (fst r)"
      using eq e IH refl by (auto simp: bind_eq_Some_conv split: prod.splits if_splits)
  qed
  then show ?thesis by simp
qed

lemma accept_loop_same:
  assumes "srv_api_ok inc api" and "length stack = 36" and "accept_loop api bo cfg stack fd st w = Some r"
  shows "srv_same st (fst r)"
proof (rule accept_loop_keeps [OF _ _ assms(3)])
  show "srv_same st0 st0" for st0 by (simp add: srv_same_def)
next
  fix cfd st0 w0 st1 w1 st2
  assume "serve_connection api bo cfg stack cfd (st0\<lparr>st_fds := cfd # st_fds st0\<rparr>) w0 = Some (st1, w1)" "srv_same st1 st2"
  then show "srv_same st0 st2" using serve_connection_same [OF assms(1,2)] by (fastforce simp: srv_same_def)
qed

lemma run_server_closes:
  assumes "srv_api_ok inc api" and "length stack = 36" and "run_server api bo cfg stack st w = Some (code, st', w')"
  shows "st_fds st' = st_fds st \<and> st_ctx_live st' = st_ctx_live st - 1 \<and> st_ssl_live st' = st_ssl_live st"
  using assms(3) accept_loop_same [OF assms(1,2)]
  by (fastforce simp: run_server_def Let_def srv_same_def srv_close_def srv_ctx_free_def bind_eq_Some_conv
      split: prod.splits if_splits)

text \<open>
  A context is only handed out with TLS 1.2 as the least version and with a certificate and a key that
  belong together; otherwise none is left allocated.
\<close>

lemma srv_context_result:
  assumes "srv_createSslContext api cert_file key_file st w = (ok, st', w')"
  shows "if ok then st_ctx_live st' = st_ctx_live st + 1
      \<and> ((\<forall>v. fst (srv_set_min_proto api v TLS1_2_VERSION)) \<longrightarrow> st_ctx_min_proto st' = Some TLS1_2_VERSION)
      \<and> (\<exists>v. 0 < fst (use_certificate_file api v cert_file)) \<and> (\<exists>v. 0 < fst (use_PrivateKey_file api v key_file))
      \<and> (\<exists>v. fst (check_private_key api v))
    else st_ctx_live st' = st_ctx_live st"
proof -
  obtain ok1 w0 ok0 w1 where a0: "srv_CTX_new api w = (ok1, w0)" "srv_set_min_proto api w0 TLS1_2_VERSION = (ok0, w1)"
    by (metis surj_pair)
  obtain r2 w2 r3 w3 ok4 w4 where a: "use_certificate_file api w1 cert_file = (r2, w2)"
    "use_PrivateKey_file api w2 key_file = (r3, w3)" "check_private_key api w3 = (ok4, w4)" by (metis surj_pair)
  have w: "\<exists>v. fst (use_certificate_file api v cert_file) = r2" "\<exists>v. fst (use_PrivateKey_file api v key_file) = r3"
    "\<exists>v. fst (check_private_key api v) = ok4" "(\<forall>v. fst (srv_set_min_proto api v TLS1_2_VERSION)) \<longrightarrow> ok0"
    using a a0(2) by (metis fst_conv)+
  show ?thesis
  proof (cases "ok1 \<and> 0 < r2 \<and> 0 < r3 \<and> ok4")
    case True
    then have "ok" "st_ctx_live st' = st_ctx_live st + 1" "st_ctx_min_proto st' = (if ok0 then Some TLS1_2_VERSION else None)"
      using assms a0 a by (auto simp: srv_createSslContext_def Let_def)
    then show ?thesis using w True by auto
  next
    case False
    then have "\<not> ok \<and> st_ctx_live st' = st_ctx_live st"
      using assms a0 a by (auto simp: srv_createSslContext_def srv_ctx_free_def Let_def split: if_splits)
    then show ?thesis by simp
  qed
qed

lemma server_main_closes:
  assumes "srv_api_ok inc api" and "length stack = FRAME_HEADER_SIZE"
    and "server_main api bo stack args init_srv_state w = Some (code, st', w')"
  shows "st_fds st' = [] \<and> st_ctx_live st' = 0 \<and> st_ssl_live st' = 0"
proof -
  have l: "length stack = 36" using assms(2) by simp
  show ?thesis
    using assms(3) run_server_closes [OF assms(1) l]
    by (fastforce simp: server_main_def srv_createSslContext_def srv_ctx_free_def Let_def init_srv_state_def
        split: sum.splits arg_error.splits prod.splits if_splits)
qed

text \<open>
  C19. Whatever the command line, the environment and the clients, when the server's \<open>main\<close>
  ends it has closed every descriptor and freed the TLS context and every TLS object it
  created, on the error paths of the start-up too.
\<close>

theorem server_main_releases:
  assumes "srv_api_ok inc api" and "length stack = FRAME_HEADER_SIZE"
    and "server_main api bo stack args init_srv_state w = Some (code, st', w')"
  shows "st_fds st' = [] \<and> st_ctx_live st' = 0 \<and> st_ssl_live st' = 0"
  by (rule server_main_closes [OF assms])

section \<open>Arguments\<close>

lemma srv_find_long:
  "find_long srv_long_options ''port'' = Some (required_argument, CHR ''p'')"
  "find_long srv_long_options ''cert'' = Some (required_argument, CHR ''c'')"
  "find_long srv_long_options ''key'' = Some (required_argument, CHR ''k'')"
  "find_long srv_long_options ''output'' = Some (required_argument, CHR ''o'')"
  by (simp_all add: find_long_def srv_long_options_def)

lemma srv_getopt_words:
  "getopt_long os srv_long_options (''--port'' # v # rest) = (CHR ''p'', v) # getopt_long os srv_long_options rest"
  "getopt_long os srv_long_options (''--cert'' # v # rest) = (CHR ''c'', v) # getopt_long os srv_long_options rest"
  "getopt_long os srv_long_options (''--key'' # v # rest) = (CHR ''k'', v) # getopt_long os srv_long_options rest"
  "getopt_long os srv_long_options (''--output'' # v # rest) = (CHR ''o'', v) # getopt_long os srv_long_options rest"
  by (simp_all add: getopt_long1_def srv_find_long Let_def)

lemma stoi_nat_to_dec: "int p \<le> INT_MAX \<Longrightarrow> stoi (nat_to_dec p) = Inr (int p)"
  by (simp add: stoi_def strtol_nat_to_dec LONG_MAX_def INT_MAX_def INT_MIN_def)

lemma srv_parse_words:
  assumes "int p \<le> INT_MAX" and "cert \<noteq> []" and "key \<noteq> []"
  shows "srv_parseArgs [''--port'', nat_to_dec p, ''--cert'', cert, ''--key'', key, ''--output'', dir] cfg
    = Inr (cfg\<lparr>sc_port := of_nat p, sc_cert_file := cert, sc_key_file := key, sc_output_dir := dir, sc_save_frames := True\<rparr>)"
  using assms by (simp add: srv_parseArgs_def srv_getopt_words srv_option_def stoi_nat_to_dec del: getopt_long.simps(2))

text \<open>
  The server's command line: the options reach the configuration they name, saving is
  switched on by giving a directory, and the port is the number given modulo 65536: a number
  out of range, such as 70000, is accepted and wraps, here to 4464.
\<close>

lemma server_arguments:
  assumes "int p \<le> 2 ^ 31 - 1" and "cert \<noteq> []" and "key \<noteq> []"
  shows "\<exists>cfg. srv_parseArgs [''--port'', nat_to_dec p, ''--cert'', cert, ''--key'', key, ''--output'', dir] default_srv_config = Inr cfg
    \<and> unat (sc_port cfg) = p mod 65536 \<and> sc_cert_file cfg = cert \<and> sc_key_file cfg = key
    \<and> sc_output_dir cfg = dir \<and> sc_save_frames cfg \<and> \<not> sc_verbose cfg"
  using srv_parse_words [of p cert key dir default_srv_config] assms
  by (simp add: INT_MAX_def unat_of_nat default_srv_config_def)

lemma server_arguments_example:
  "\<exists>cfg. srv_parseArgs [''--port'', nat_to_dec 70000, ''--cert'', ''a'', ''--key'', ''b'', ''--output'', ''o''] default_srv_config = Inr cfg
     \<and> unat (sc_port cfg) = 4464"
  using server_arguments [of 70000 "''a''" "''b''" "''o''"] by auto

text \<open>
  A port that does not start with a number is not reported as a usage error: the exception
  that \<open>std::stoi\<close> throws is caught nowhere, so the process aborts.
\<close>

lemma server_bad_port_aborts:
  assumes "fst (snd (strtol arg)) = 0"
  shows "server_main api bo stack (''--port'' # arg # args) st w = Some (ABORTED, st, w)"
proof -
  have "stoi arg = Inl invalid_argument" using assms by (auto simp: stoi_def split: prod.split)
  then have "srv_parseArgs (''--port'' # arg # args) default_srv_config = Inl (Uncaught invalid_argument)"
    by (simp add: srv_parseArgs_def srv_getopt_words srv_option_def del: getopt_long.simps(2))
  then show ?thesis by (simp add: server_main_def)
qed

lemma server_bad_port_aborts_example:
  "server_main demo_srv LittleEndian [] [''--port'', ''abc''] init_srv_state [] = Some (ABORTED, init_srv_state, [])"
proof -
  have "fst (snd (strtol ''abc'')) = 0" by (simp add: strtol_def is_space_def is_digit_def)
  then show ?thesis by (rule server_bad_port_aborts)
qed

lemma srv_fold_accepts:
  "fold_options srv_option rs cfg = Inr cfg' \<Longrightarrow>
   (\<forall>r\<in>set rs. fst r \<in> set ''pckov'' \<and> (fst r = CHR ''p'' \<longrightarrow> (\<exists>v. stoi (snd r) = Inr v)))
   \<and> (sc_save_frames cfg' \<longleftrightarrow> sc_save_frames cfg \<or> (\<exists>r\<in>set rs. fst r = CHR ''o''))"
proof (induction rs arbitrary: cfg)
  case (Cons r rs)
  then obtain cfg1 where c: "srv_option r cfg = Inr cfg1" "fold_options srv_option rs cfg1 = Inr cfg'"
    by (auto split: sum.splits)
  have "fst r \<in> set ''pckov'' \<and> (fst r = CHR ''p'' \<longrightarrow> (\<exists>v. stoi (snd r) = Inr v))
      \<and> (sc_save_frames cfg1 \<longleftrightarrow> sc_save_frames cfg \<or> fst r = CHR ''o'')"
    using c(1) by (auto simp: srv_option_def split: prod.splits if_splits sum.splits)
  then show ?case using Cons.IH [OF c(2)] by auto
qed simp

text \<open>
  C35. The server starts only on a command line all of whose options it knows, every port of
  which is a number in the range of an \<open>int\<close>, and which names a certificate and a key; it
  saves frames exactly when an output directory is given.
\<close>

theorem server_accepts_only_valid_arguments:
  assumes "srv_parseArgs args default_srv_config = Inr cfg"
  shows "(\<forall>r\<in>set (getopt_long ''p:c:k:o:vh'' srv_long_options args).
        fst r \<in> set ''pckov'' \<and> (fst r = CHR ''p'' \<longrightarrow> (\<exists>v. stoi (snd r) = Inr v)))
    \<and> sc_cert_file cfg \<noteq> [] \<and> sc_key_file cfg \<noteq> []
    \<and> (sc_save_frames cfg \<longleftrightarrow> (\<exists>r\<in>set (getopt_long ''p:c:k:o:vh'' srv_long_options args). fst r = CHR ''o''))"
proof -
  have f: "fold_options srv_option (getopt_long ''p:c:k:o:vh'' srv_long_options args) default_srv_config = Inr cfg"
    and "sc_cert_file cfg \<noteq> [] \<and> sc_key_file cfg \<noteq> []"
    using assms by (auto simp: srv_parseArgs_def split: sum.splits if_splits)
  then show ?thesis using srv_fold_accepts [OF f] by (simp add: default_srv_config_def)
qed

theorem server_accepts_only_valid_arguments_witness:
  "\<exists>cfg. srv_parseArgs [''--port'', nat_to_dec 4433, ''--cert'', ''a'', ''--key'', ''b'', ''--output'', ''o''] default_srv_config = Inr cfg
     \<and> sc_save_frames cfg \<and> sc_key_file cfg \<noteq> []"
proof -
  obtain cfg where c: "srv_parseArgs [''--port'', nat_to_dec 4433, ''--cert'', ''a'', ''--key'', ''b'', ''--output'', ''o''] default_srv_config = Inr cfg"
    "sc_save_frames cfg"
    using srv_parse_words [of 4433 "''a''" "''b''" "''o''" default_srv_config] by (auto simp: INT_MAX_def)
  from server_accepts_only_valid_arguments [OF c(1)] show ?thesis using c by blast
qed

lemma demo_srv_sel:
  "srv_CTX_new demo_srv w = (True, w)" "use_certificate_file demo_srv w f = (1, w)" "use_PrivateKey_file demo_srv w f = (1, w)"
  "check_private_key demo_srv w = (True, w)" "srv_set_min_proto demo_srv w v = (True, w)" "sys_mkdir demo_srv w f = (0, 0, w)" "srv_socket demo_srv w fds = (3, w)"
  "sys_bind demo_srv w fd p = (0, w)" "sys_listen demo_srv w fd = (0, w)"
  by (simp_all add: demo_srv_def)

theorem server_main_releases_witness:
  "\<exists>code st' w'. server_main demo_srv LittleEndian (replicate 36 0)
       [''--port'', nat_to_dec 4433, ''--cert'', ''a'', ''--key'', ''b'', ''--output'', ''o''] init_srv_state [] = Some (code, st', w')
     \<and> st_fds st' = [] \<and> st_ctx_live st' = 0"
proof -
  let ?args = "[''--port'', nat_to_dec 4433, ''--cert'', ''a'', ''--key'', ''b'', ''--output'', ''o'']"
  have p: "\<exists>cfg. srv_parseArgs ?args default_srv_config = Inr cfg"
    using srv_parse_words [of 4433 "''a''" "''b''" "''o''" default_srv_config] by (simp add: INT_MAX_def)
  have a: "accept_loop demo_srv LittleEndian cfg (replicate 36 0) 3 st [] = Some (st, [])" for cfg st
    by (subst accept_loop.simps) (simp add: demo_srv_def EINTR_def)
  obtain code st' w' where r: "server_main demo_srv LittleEndian (replicate 36 0) ?args init_srv_state [] = Some (code, st', w')"
  proof -
    from p obtain cfg where "srv_parseArgs ?args default_srv_config = Inr cfg" ..
    then have "server_main demo_srv LittleEndian (replicate 36 0) ?args init_srv_state [] \<noteq> None"
      using a by (simp add: server_main_def srv_createSslContext_def run_server_def Let_def demo_srv_sel)
    then show thesis using that by auto
  qed
  have "length (replicate 36 (0 :: byte)) = FRAME_HEADER_SIZE" by simp
  from server_main_releases [OF demo_srv_ok(1) this r] show ?thesis using r by blast
qed

end
