(* ===== verification/Server_Runs.thy ===== *)
theory Server_Runs
  imports Server_Main
begin

text \<open>
  The server of \<open>server/server.cpp\<close> from the command line to the end of \<open>main\<close>: what it has taken
  over from all its connections, and that it ends once the running flag is cleared, whatever the
  clients do.
\<close>

section \<open>The connections of a run\<close>

text \<open>
  The accept loop and \<open>main\<close> once more, recording the states of the environment in which a
  handshake was completed: from there on the bytes of that connection are read. A run of \<open>main\<close>
  has such a record exactly when it returns (\<open>server_main_recorded\<close>).
\<close>

definition handshake :: "'w srv_api \<Rightarrow> 'w \<Rightarrow> 'w list" where
  "handshake api w = (case srv_SSL_new api w of (ok, w) \<Rightarrow> case SSL_accept api w of (r, w) \<Rightarrow> if r \<le> 0 then [] else [w])"

partial_function (option) accept_record ::
  "'w srv_api \<Rightarrow> byte_order \<Rightarrow> srv_config \<Rightarrow> byte list \<Rightarrow> int \<Rightarrow> srv_state \<Rightarrow> 'w \<Rightarrow> 'w list option" where
  "accept_record api bo cfg stack server_fd st w =
     (case g_running api w of (go, w) \<Rightarrow>
        if \<not> go then Some []
        else
          case sys_select api w (server_fd + 1) of (ready, errno, w) \<Rightarrow>
            if ready < 0 then
              (if errno = EINTR then accept_record api bo cfg stack server_fd st w else Some [])
            else if ready = 0 then accept_record api bo cfg stack server_fd st w
            else
              case sys_accept api w (st_fds st) of (client_fd, errno, w) \<Rightarrow>
                if client_fd < 0 then
                  (if errno = EINTR then accept_record api bo cfg stack server_fd st w else Some [])
                else do {
                  (st, w') \<leftarrow> serve_connection api bo cfg stack client_fd (st\<lparr>st_fds := client_fd # st_fds st\<rparr>) w;
                  ws \<leftarrow> accept_record api bo cfg stack server_fd st w';
                  Some (handshake api w @ ws)
                })"

definition run_record ::
  "'w srv_api \<Rightarrow> byte_order \<Rightarrow> srv_config \<Rightarrow> byte list \<Rightarrow> srv_state \<Rightarrow> 'w \<Rightarrow> 'w list option" where
  "run_record api bo cfg stack st w =
     (case srv_socket api w (st_fds st) of (server_fd, w) \<Rightarrow>
        if server_fd < 0 then Some []
        else
          let st = st\<lparr>st_fds := server_fd # st_fds st\<rparr> in
          case sys_bind api w server_fd (htons bo (sc_port cfg)) of (r, w) \<Rightarrow>
            if r < 0 then Some []
            else
              case sys_listen api w server_fd of (r, w) \<Rightarrow>
                if r < 0 then Some [] else accept_record api bo cfg stack server_fd st w)"

definition server_connections ::
  "'w srv_api \<Rightarrow> byte_order \<Rightarrow> byte list \<Rightarrow> string list \<Rightarrow> srv_state \<Rightarrow> 'w \<Rightarrow> 'w list option" where
  "server_connections api bo stack args st w =
     (case srv_parseArgs args default_srv_config of
        Inl e \<Rightarrow> Some []
      | Inr cfg \<Rightarrow>
          case (if sc_save_frames cfg then sys_mkdir api w (sc_output_dir cfg) else (0, 0, w)) of (r, errno, w) \<Rightarrow>
            if r < 0 \<and> errno \<noteq> EEXIST then Some []
            else
              case srv_createSslContext api (sc_cert_file cfg) (sc_key_file cfg) st w of (ok, st, w) \<Rightarrow>
                if \<not> ok then Some [] else run_record api bo cfg stack st w)"

section \<open>What all connections brought\<close>

text \<open>
  \<open>ws\<close> are the states of the environment after each completed handshake: of the stream that the
  connection carries from there, the server takes over a first part of the frames that the
  reference decoder finds, and all of them when the connections are read to their end.
\<close>

definition served :: "('w \<Rightarrow> byte list) \<Rightarrow> 'w srv_api \<Rightarrow> 'w list \<Rightarrow> srv_state \<Rightarrow> srv_state \<Rightarrow> bool" where
  "served inc api ws st st' \<longleftrightarrow> (\<exists>fss. list_all2 prefix fss (map (parse_stream \<circ> inc) ws)
     \<and> (reads_to_end inc api \<and> ssl_read_ends inc api \<longrightarrow> fss = map (parse_stream \<circ> inc) ws)
     \<and> st_frames st' = st_frames st @ concat fss
     \<and> st_frames_received st' = st_frames_received st + of_nat (length (concat fss))
     \<and> st_bytes_received st' = st_bytes_received st + of_nat (sum_list (map frame_bytes (concat fss))))"

lemma served_refl: "served inc api [] st st"
  unfolding served_def by (intro exI [of _ "[]"]) simp

text \<open>What the account speaks of.\<close>

definition srv_account :: "srv_state \<Rightarrow> frame list \<times> u64 \<times> u64" where
  "srv_account st = (st_frames st, st_frames_received st, st_bytes_received st)"

lemma served_cong:
  "srv_account st1 = srv_account st \<Longrightarrow> srv_account st1' = srv_account st' \<Longrightarrow> served inc api ws st1 st1' = served inc api ws st st'"
  by (simp add: srv_account_def served_def)

lemma srv_account_simps [simp]:
  "srv_account (st\<lparr>st_fds := fds\<rparr>) = srv_account st" "srv_account (st\<lparr>st_ssl_live := n\<rparr>) = srv_account st"
  "srv_account (srv_close fd st) = srv_account st" "srv_account (srv_ssl_free st) = srv_account st"
  "srv_account (srv_ctx_free st) = srv_account st"
  by (simp_all add: srv_account_def srv_close_def srv_ssl_free_def srv_ctx_free_def)

lemma handleClient_served:
  assumes "srv_api_ok inc api" and "length stack = 36" and "handleClient api bo cfg stack st w = Some (buf, st', w')"
    and "served inc api ws st' st2"
  shows "served inc api (w # ws) st st2"
proof -
  let ?v = "\<lparr> cv_hdr = stack, cv_frame_buf = [], cv_client_frames = 0 \<rparr>"
  have l: "length (cv_hdr ?v) = 36" using assms(2) by simp
  obtain v' where r: "client_loop api bo cfg ?v st w = Some (v', st', w')"
    using assms(3) by (auto simp: handleClient_def bind_eq_Some_conv)
  obtain fs where fs: "prefix fs (parse_stream (inc w))" "frames_run (frame_taken cfg) fs st st'"
    "reads_to_end inc api \<and> ssl_read_ends inc api \<longrightarrow> fs = parse_stream (inc w)"
    using client_loop_result [OF assms(1) r l, of "frame_taken cfg"] by auto
  obtain fss where "list_all2 prefix fss (map (parse_stream \<circ> inc) ws)"
    "reads_to_end inc api \<and> ssl_read_ends inc api \<longrightarrow> fss = map (parse_stream \<circ> inc) ws"
    "st_frames st2 = st_frames st' @ concat fss"
    "st_frames_received st2 = st_frames_received st' + of_nat (length (concat fss))"
    "st_bytes_received st2 = st_bytes_received st' + of_nat (sum_list (map frame_bytes (concat fss)))"
    using assms(4) unfolding served_def by blast
  then show ?thesis
    unfolding served_def using fs(1,3) frames_taken_effect [OF fs(2)]
    by (intro exI [of _ "fs # fss"]) (simp add: algebra_simps)
qed

lemma serve_connection_served:
  assumes "srv_api_ok inc api" and "length stack = 36" and "served inc api ws st1 st2"
    and "serve_connection api bo cfg stack fd (st\<lparr>st_fds := fd # st_fds st\<rparr>) w = Some (st1, w1)"
  shows "served inc api (handshake api w @ ws) st st2"
proof -
  obtain ok w2 r w3 where h: "srv_SSL_new api w = (ok, w2)" "SSL_accept api w2 = (r, w3)"
    by (metis surj_pair)
  let ?st = "st\<lparr>st_fds := fd # st_fds st, st_ssl_live := st_ssl_live st + 1\<rparr>"
  have ok: "ok" using assms(4) h(1) by (auto simp: serve_connection_def split: if_splits)
  have acc: "srv_account ?st = srv_account st" by (simp add: srv_account_def)
  show ?thesis
  proof (cases "r \<le> 0")
    case True
    then have "st1 = srv_close fd (srv_ssl_free ?st)" and "handshake api w = []"
      using assms(4) h ok by (simp_all add: serve_connection_def handshake_def Let_def)
    then show ?thesis using assms(3) served_cong [of st1 st st2 st2 inc api ws] acc by simp
  next
    case False
    then obtain buf st0 where hc: "handleClient api bo cfg stack ?st w3 = Some (buf, st0, w1)"
      and st1: "st1 = srv_close fd (srv_ssl_free st0)"
      using assms(4) h ok by (auto simp: serve_connection_def Let_def bind_eq_Some_conv)
    have "served inc api ws st0 st2" using assms(3) served_cong [of st1 st0 st2 st2 inc api ws] st1 by simp
    from handleClient_served [OF assms(1,2) hc this] show ?thesis
      using False h served_cong [of ?st st st2 st2 inc api "w3 # ws"] acc by (simp add: handshake_def)
  qed
qed

lemma accept_loop_served:
  assumes "srv_api_ok inc api" and "length stack = 36" and "accept_loop api bo cfg stack fd st w = Some r"
  shows "\<exists>ws. accept_record api bo cfg stack fd st w = Some ws \<and> served inc api ws st (fst r)"
proof -
  let ?P = "\<lambda>api' bo' cfg' stack' fd' st w r. (api', bo', cfg', stack') = (api, bo, cfg, stack) \<longrightarrow>
    (\<exists>ws. accept_record api bo cfg stack fd' st w = Some ws \<and> served inc api ws st (fst r))"
  have "?P api bo cfg stack fd st w r"
  proof (rule accept_loop.raw_induct [where P = ?P, OF _ assms(3)], intro impI)
    fix f api' bo' cfg' stack' fd' st w r
    assume IH: "\<And>api' bo' cfg' stack' fd' st w r. f api' bo' cfg' stack' fd' st w = Some r \<Longrightarrow> ?P api' bo' cfg' stack' fd' st w r"
      and eq: "(case g_running api' w of (go, w) \<Rightarrow>
        if \<not> go then Some (st, w)
        else
          case sys_select api' w (fd' + 1) of (ready, errno, w) \<Rightarrow>
            if ready < 0 then (if errno = EINTR then f api' bo' cfg' stack' fd' st w else Some (st, w))
            else if ready = 0 then f api' bo' cfg' stack' fd' st w
            else
              case sys_accept api' w (st_fds st) of (client_fd, errno, w) \<Rightarrow>
                if client_fd < 0 then (if errno = EINTR then f api' bo' cfg' stack' fd' st w else Some (st, w))
                else do {
                  (st, w) \<leftarrow> serve_connection api' bo' cfg' stack' client_fd (st\<lparr>st_fds := client_fd # st_fds st\<rparr>) w;
                  f api' bo' cfg' stack' fd' st w
                }) = Some r"
      and e: "(api', bo', cfg', stack') = (api, bo, cfg, stack)"
    obtain go w1 where g: "g_running api w = (go, w1)" by (cases "g_running api w")
    obtain ready e1 w2 where sel: "sys_select api w1 (fd' + 1) = (ready, e1, w2)" by (metis prod_cases3)
    obtain cfd e2 w3 where acc: "sys_accept api w2 (st_fds st) = (cfd, e2, w3)" by (metis prod_cases3)
    have again: "\<exists>ws. accept_record api bo cfg stack fd' st v = Some ws \<and> served inc api ws st (fst r)"
      if "f api bo cfg stack fd' st v = Some r" for v using IH [OF that] by simp
    show "\<exists>ws. accept_record api bo cfg stack fd' st w = Some ws \<and> served inc api ws st (fst r)"
    proof (cases "go \<and> 0 < ready \<and> 0 \<le> cfd")
      case False
      then show ?thesis
        using eq e g sel acc again served_refl [of inc api st]
        by (subst accept_record.simps) (auto split: if_splits)
    next
      case True
      then obtain st1 w4 where c: "serve_connection api bo cfg stack cfd (st\<lparr>st_fds := cfd # st_fds st\<rparr>) w3 = Some (st1, w4)"
        and rest: "f api bo cfg stack fd' st1 w4 = Some r"
        using eq e g sel acc by (auto simp: bind_eq_Some_conv)
      obtain ws where ws: "accept_record api bo cfg stack fd' st1 w4 = Some ws" "served inc api ws st1 (fst r)"
        using IH [OF rest] by auto
      have "accept_record api bo cfg stack fd' st w = Some (handshake api w3 @ ws)"
        using True g sel acc c ws(1) by (subst accept_record.simps) simp
      then show ?thesis using serve_connection_served [OF assms(1,2) ws(2) c] by blast
    qed
  qed
  then show ?thesis by simp
qed

lemma run_server_served:
  assumes "srv_api_ok inc api" and "length stack = 36" and "run_server api bo cfg stack st w = Some (code, st', w')"
  shows "\<exists>ws. run_record api bo cfg stack st w = Some ws \<and> served inc api ws st st'"
proof -
  have none: "served inc api [] st (srv_ctx_free st)" "served inc api [] st (srv_ctx_free (srv_close fd (st\<lparr>st_fds := fds\<rparr>)))" for fd fds
    using served_refl [of inc api st] by (simp_all add: served_def srv_ctx_free_def srv_close_def)
  have loop: "\<exists>ws. accept_record api bo cfg stack fd (st\<lparr>st_fds := fds\<rparr>) v = Some ws \<and> served inc api ws st (srv_ctx_free (srv_close fd st1))"
    if "accept_loop api bo cfg stack fd (st\<lparr>st_fds := fds\<rparr>) v = Some (st1, v1)" for fd fds st1 v v1
    using accept_loop_served [OF assms(1,2) that] by (simp add: served_def srv_ctx_free_def srv_close_def)
  show ?thesis
    using assms(3) none loop
    by (fastforce simp: run_server_def run_record_def Let_def bind_eq_Some_conv split: prod.splits if_splits)
qed

lemma srv_context_account:
  assumes "srv_createSslContext api cert key st w = (ok, st', w')"
  shows "srv_account st' = srv_account st"
  using assms by (auto simp: srv_account_def srv_createSslContext_def srv_ctx_free_def Let_def split: prod.splits if_splits)

text \<open>A run of \<open>main\<close> that returns has a record of its connections, and has served them.\<close>

lemma server_main_recorded:
  assumes "srv_api_ok inc api" and "length stack = 36" and "server_main api bo stack args st w = Some (code, st', w')"
  shows "\<exists>ws. server_connections api bo stack args st w = Some ws \<and> served inc api ws st st'"
proof (cases "srv_parseArgs args default_srv_config")
  case (Inl e)
  then show ?thesis
    using assms(3) served_refl [of inc api st] by (auto simp: server_main_def server_connections_def split: arg_error.splits)
next
  case (Inr cfg)
  obtain r e w1 where d: "(if sc_save_frames cfg then sys_mkdir api w (sc_output_dir cfg) else (0, 0, w)) = (r, e, w1)"
    by (metis prod_cases3)
  obtain ok st1 w2 where c: "srv_createSslContext api (sc_cert_file cfg) (sc_key_file cfg) st w1 = (ok, st1, w2)"
    by (metis prod_cases3)
  note acc = srv_context_account [OF c]
  show ?thesis
  proof (cases "(r < 0 \<and> e \<noteq> EEXIST) \<or> \<not> ok")
    case True
    then have "server_connections api bo stack args st w = Some []" "st' = st \<or> st' = st1"
      using assms(3) Inr d c by (auto simp: server_main_def server_connections_def split: if_splits)
    then show ?thesis using served_refl [of inc api st] served_cong [of st st st1 st inc api "[]"] acc by auto
  next
    case False
    then have "run_server api bo cfg stack st1 w2 = Some (code, st', w')"
      and rec: "server_connections api bo stack args st w = run_record api bo cfg stack st1 w2"
      using assms(3) Inr d c by (auto simp: server_main_def server_connections_def)
    from run_server_served [OF assms(1,2) this(1)] obtain ws where
      "run_record api bo cfg stack st1 w2 = Some ws" "served inc api ws st1 st'" by blast
    then show ?thesis using rec served_cong [of st1 st st' st' inc api ws] acc by simp
  qed
qed

text \<open>
  C20. The whole run of the server: the frames that it has taken over when \<open>main\<close> ends are, connection
  by connection in the order of the handshakes of this run, a first part of the frames in that
  connection's stream (all of them when the flag is not cleared while bytes are to be read), none
  is above 16 MB, and the totals that it prints are their number and their size.
\<close>

theorem server_run_accounts:
  assumes "srv_api_ok inc api" and "length stack = FRAME_HEADER_SIZE"
    and "server_main api bo stack args init_srv_state w = Some (code, st', w')"
  shows "\<exists>ws fss. server_connections api bo stack args init_srv_state w = Some ws
    \<and> list_all2 prefix fss (map (parse_stream \<circ> inc) ws)
    \<and> (reads_to_end inc api \<and> ssl_read_ends inc api \<longrightarrow> fss = map (parse_stream \<circ> inc) ws)
    \<and> st_frames st' = concat fss \<and> list_all (\<lambda>f. length (fr_payload f) \<le> 16 * 1024 * 1024) (concat fss)
    \<and> st_frames_received st' = of_nat (length (concat fss))
    \<and> st_bytes_received st' = of_nat (sum_list (map frame_bytes (concat fss)))"
proof -
  have l: "length stack = 36" using assms(2) by simp
  obtain ws fss where ws: "server_connections api bo stack args init_srv_state w = Some ws"
    and s: "list_all2 prefix fss (map (parse_stream \<circ> inc) ws)"
    "reads_to_end inc api \<and> ssl_read_ends inc api \<longrightarrow> fss = map (parse_stream \<circ> inc) ws" "st_frames st' = concat fss"
    "st_frames_received st' = of_nat (length (concat fss))"
    "st_bytes_received st' = of_nat (sum_list (map frame_bytes (concat fss)))"
    using server_main_recorded [OF assms(1) l assms(3)] by (auto simp: served_def init_srv_state_def)
  have "length (fr_payload f) \<le> 16 * 1024 * 1024" if "f \<in> set (concat fss)" for f
  proof -
    obtain fs where "fs \<in> set fss" "f \<in> set fs" using \<open>f \<in> set (concat fss)\<close> by auto
    then obtain w where "prefix fs (parse_stream (inc w))"
      using s(1) by (auto simp: list_all2_conv_all_nth in_set_conv_nth)
    then have "f \<in> set (parse_stream (inc w))" using \<open>f \<in> set fs\<close> set_mono_prefix by blast
    then show ?thesis using parse_stream_limit [of f "inc w"] by (simp add: payload_limit_def)
  qed
  then show ?thesis using ws s by (intro exI [of _ ws] exI [of _ fss]) (simp add: list_all_iff)
qed

section \<open>The server ends\<close>

text \<open>
  \<open>k w\<close> bounds how often the accept loop still finds the running flag set and waits for a
  connection: each time uses one up, and no call of the server raises it. With such a bound, which
  a signal gives at once, some turn of the loop finds the flag cleared.
\<close>

definition flag_reads_left :: "('w \<Rightarrow> nat) \<Rightarrow> 'w srv_api \<Rightarrow> bool" where
  "flag_reads_left k api \<longleftrightarrow>
     (\<forall>w w' n. g_running api w = (True, w') \<longrightarrow> k (snd (snd (sys_select api w' n))) < k w)
   \<and> (\<forall>w. k (snd (g_running api w)) \<le> k w)
   \<and> (\<forall>w fds. k (snd (snd (sys_accept api w fds))) \<le> k w)
   \<and> (\<forall>w. k (snd (srv_SSL_new api w)) \<le> k w)
   \<and> (\<forall>w. k (snd (SSL_accept api w)) \<le> k w)
   \<and> (\<forall>w n. k (snd (snd (SSL_read api w n))) \<le> k w)
   \<and> (\<forall>w fds f. k (snd (sys_open api w fds f)) \<le> k w)
   \<and> (\<forall>w bs n. k (snd (snd (sys_write api w bs n))) \<le> k w)"

lemma flag_reads_calls:
  assumes "flag_reads_left k api"
  shows "g_running api w = (True, w0) \<Longrightarrow> sys_select api w0 n = (a, e, w1) \<Longrightarrow> k w1 < k w"
    and "g_running api w = (go, w1) \<Longrightarrow> k w1 \<le> k w" and "sys_accept api w fds = (a, e, w1) \<Longrightarrow> k w1 \<le> k w"
    and "srv_SSL_new api w = (ok, w1) \<Longrightarrow> k w1 \<le> k w" and "SSL_accept api w = (a, w1) \<Longrightarrow> k w1 \<le> k w"
    and "SSL_read api w n = (bs, err, w1) \<Longrightarrow> k w1 \<le> k w" and "sys_open api w fds f = (a, w1) \<Longrightarrow> k w1 \<le> k w"
    and "sys_write api w data n = (a, e, w1) \<Longrightarrow> k w1 \<le> k w"
  using assms unfolding flag_reads_left_def by (metis snd_conv)+

lemma sslReadAll_reads:
  assumes "srv_api_ok inc api" and "flag_reads_left k api" and "len < 2 ^ 64"
    and "sslReadAll api buf len w = Some (ok, buf', w')"
  shows "k w' \<le> k w"
proof -
  obtain n where l: "ssl_read_loop api 0 len (buf, w) = Some (ok, n, buf', w')"
    using assms(4) by (auto simp: sslReadAll_def bind_eq_Some_conv)
  have call: "k (snd bw') \<le> k (snd bw)" if "ssl_read_call api ptr rem bw = (out, bw')" for ptr rem bw out bw'
    using that flag_reads_calls(6) [OF assms(2)] by (auto simp: ssl_read_call_def split: prod.splits if_splits)
  have "ssl_read_ok inc api" using assms(1) by (simp add: srv_api_ok_def)
  then have "k (snd (buf', w')) \<le> k w \<and> 0 \<le> n \<and> n \<le> 0 + len \<and> (ok \<longleftrightarrow> n = 0 + len)"
    by (intro ssl_read.loop_partial [where R = "\<lambda>_ bw. k (snd bw) \<le> k w", OF _ _ _ _ l])
      (use assms(3) ssl_read_call_bounds call order_trans in fastforce)+
  then show ?thesis by simp
qed

lemma saveFrame_reads:
  assumes "srv_api_ok inc api" and "flag_reads_left k api"
    and "saveFrame api bo cfg hdr data len st w = Some (ok, st', w')"
  shows "k w' \<le> k w"
proof -
  let ?name = "frame_filename (sc_output_dir cfg) (srv_ntohll bo (fh_seq hdr)) (ntohl bo (fh_pixel_format hdr))"
  obtain fd w1 where o: "sys_open api w (st_fds st) ?name = (fd, w1)" by (cases "sys_open api w (st_fds st) ?name")
  then have w1: "k w1 \<le> k w" using flag_reads_calls(7) [OF assms(2)] by blast
  show ?thesis
  proof (cases "fd < 0")
    case True
    then show ?thesis using assms(3) o w1 by (simp add: saveFrame_def Let_def)
  next
    case False
    then obtain n st0 st1 where "file_write_loop api ?name data 0 (unat len) st0 w1 = Some (ok, n, st1, w')"
      using assms(3) o by (auto simp: saveFrame_def Let_def bind_eq_Some_conv)
    then have l: "(case (st0, w1) of (st0, w1) \<Rightarrow> file_write_loop api ?name data 0 (unat len) st0 w1) = Some (ok, n, st1, w')" by simp
    have call: "k (snd v') \<le> k (snd v)" if "file_write_call api ?name data ptr rem v = (out, v')" for ptr rem v out v'
      using file_write_call_world [OF that] flag_reads_calls(8) [OF assms(2)] by (metis prod.collapse)
    have "unat len < 2 ^ 64" using unsigned_less [of len, where 'a = nat] by simp
    moreover have "file_write_bounded api" using assms(1) by (simp add: srv_api_ok_def)
    ultimately have "k (snd (st1, w')) \<le> k w1 \<and> 0 \<le> n \<and> n \<le> 0 + unat len \<and> (ok \<longleftrightarrow> n = 0 + unat len)"
      by (intro file_write.loop_partial [where R = "\<lambda>_ v. k (snd v) \<le> k w1", OF _ _ _ _ l])
        (use file_write_call_bounds call order_trans in fastforce)+
    then show ?thesis using w1 by simp
  qed
qed

lemma client_payload_reads:
  assumes "srv_api_ok inc api" and "flag_reads_left k api"
    and "client_payload api bo cfg v st w = Some (again, v', st', w')"
  shows "k w' \<le> k w"
proof -
  let ?len = "ntohl bo (fh_payload_len (srv_header bo (cv_hdr v)))"
  have "unat ?len < 2 ^ 64" using unsigned_less [of ?len, where 'a = nat] by simp
  note rd = sslReadAll_reads [OF assms(1,2) this] and sv = saveFrame_reads [OF assms(1,2)]
  show ?thesis
    using assms(3) unfolding client_payload_def Let_def
    by (auto simp: bind_eq_Some_conv dest!: rd sv split: if_splits intro: order_trans)
qed

lemma client_turn_reads:
  assumes "srv_api_ok inc api" and "flag_reads_left k api"
    and "client_turn api bo cfg v st w = Some (again, v', st', w')"
  shows "k w' \<le> k w"
proof -
  have "srv_FRAME_HEADER_SIZE < 2 ^ 64" by (simp add: srv_constants)
  note rd = sslReadAll_reads [OF assms(1,2) this] and pl = client_payload_reads [OF assms(1,2)]
  show ?thesis
    using assms(3) unfolding client_turn_def Let_def
    by (auto simp: bind_eq_Some_conv dest!: rd pl split: if_splits intro: order_trans)
qed

lemma client_loop_reads:
  assumes "srv_api_ok inc api" and "flag_reads_left k api" and "client_loop api bo cfg v st w = Some r"
  shows "k (snd (snd r)) \<le> k w"
proof -
  have "api = api \<longrightarrow> k (snd (snd r)) \<le> k w"
  proof (rule client_loop.raw_induct [where P = "\<lambda>api' bo' cfg' v st w r. api' = api \<longrightarrow> k (snd (snd r)) \<le> k w",
        OF _ assms(3)], intro impI)
    fix f api' bo' cfg' v st w r
    assume IH: "\<And>api' bo' cfg' v st w r. f api' bo' cfg' v st w = Some r \<Longrightarrow> api' = api \<longrightarrow> k (snd (snd r)) \<le> k w"
      and eq: "(case g_running api' w of (go, w) \<Rightarrow>
        if go then do {
          (again, v, st, w) \<leftarrow> client_turn api' bo' cfg' v st w;
          if again then f api' bo' cfg' v st w else Some (v, st, w)
        } else Some (v, st, w)) = Some r"
      and e: "api' = api"
    obtain go w1 where g: "g_running api w = (go, w1)" by (cases "g_running api w")
    have w1: "k w1 \<le> k w" by (rule flag_reads_calls(2) [OF assms(2) g])
    show "k (snd (snd r)) \<le> k w"
    proof (cases go)
      case True
      then obtain again v2 st2 w2 where t: "client_turn api bo' cfg' v st w1 = Some (again, v2, st2, w2)"
        and rest: "(if again then f api bo' cfg' v2 st2 w2 else Some (v2, st2, w2)) = Some r"
        using eq e g by (auto simp: bind_eq_Some_conv)
      have "k w2 \<le> k w1" by (rule client_turn_reads [OF assms(1,2) t])
      then show ?thesis using rest IH [of api bo' cfg' v2 st2 w2 r] w1 by (auto split: if_splits)
    qed (use eq e g w1 in auto)
  qed
  then show ?thesis by simp
qed

lemma serve_connection_returns:
  assumes "srv_api_ok inc api" and "srv_progress m api" and "flag_reads_left k api" and "\<forall>w. fst (srv_SSL_new api w)"
    and "length stack = 36"
  shows "\<exists>st' w'. serve_connection api bo cfg stack fd st w = Some (st', w') \<and> k w' \<le> k w"
proof -
  obtain w1 r w2 where h: "srv_SSL_new api w = (True, w1)" "SSL_accept api w1 = (r, w2)"
    using assms(4) by (metis prod.collapse)
  have le: "k w1 \<le> k w" "k w2 \<le> k w1" using flag_reads_calls(4,5) [OF assms(3)] h by blast+
  let ?v = "\<lparr> cv_hdr = stack, cv_frame_buf = [], cv_client_frames = 0 \<rparr>"
  have "length (cv_hdr ?v) = 36" using assms(5) by simp
  then obtain v' st' w' where c: "client_loop api bo cfg ?v (st\<lparr>st_ssl_live := st_ssl_live st + 1\<rparr>) w2 = Some (v', st', w')"
    using client_loop_returns [OF assms(1,2)] by (metis prod_cases3)
  have "k w' \<le> k w2" using client_loop_reads [OF assms(1,3) c] by simp
  then show ?thesis using h c le by (simp add: serve_connection_def handleClient_def Let_def)
qed

lemma accept_loop_returns:
  assumes "srv_api_ok inc api" and "srv_progress m api" and "flag_reads_left k api" and "\<forall>w. fst (srv_SSL_new api w)"
    and "length stack = 36"
  shows "\<exists>r. accept_loop api bo cfg stack fd st w = Some r"
proof (induction "k w" arbitrary: st w rule: less_induct)
  case less
  note calls = flag_reads_calls [OF assms(3)] and conn = serve_connection_returns [OF assms]
  obtain go w1 where g: "g_running api w = (go, w1)" by (cases "g_running api w")
  obtain ready e w2 where s: "sys_select api w1 (fd + 1) = (ready, e, w2)" by (metis prod_cases3)
  obtain cfd e' w3 where a: "sys_accept api w2 (st_fds st) = (cfd, e', w3)" by (metis prod_cases3)
  obtain st4 w4 where c: "serve_connection api bo cfg stack cfd (st\<lparr>st_fds := cfd # st_fds st\<rparr>) w3 = Some (st4, w4)"
    "k w4 \<le> k w3" using conn by blast
  have le: "go \<Longrightarrow> k w2 < k w" "k w3 \<le> k w2"
    using calls(1) g s calls(3) [OF a] by auto
  have "\<exists>r. accept_loop api bo cfg stack fd st' w' = Some r" if "go" "k w' \<le> k w2" for st' w'
    using less.hyps le(1) that by simp
  from this [of w2] this [of w3] this [of w4] show ?case
    using g s a c le by (subst accept_loop.simps) auto
qed

text \<open>From any state of the process and with any command line, \<open>main\<close> returns.\<close>

lemma server_main_total:
  assumes "srv_api_ok inc api" and "srv_progress m api" and "flag_reads_left k api" and "\<forall>w. fst (srv_SSL_new api w)"
    and "length stack = FRAME_HEADER_SIZE"
  shows "\<exists>code st' w'. server_main api bo stack args st w = Some (code, st', w')"
proof -
  have "length stack = 36" using assms(5) by simp
  note loop = accept_loop_returns [OF assms(1-4) this]
  have "run_server api bo cfg stack st w \<noteq> None" for cfg st w
    using loop unfolding run_server_def Let_def by (auto simp: bind_eq_None_conv simp del: not_None_eq split: prod.split)
  then have "server_main api bo stack args st w \<noteq> None"
    unfolding server_main_def by (auto simp del: not_None_eq split: sum.split arg_error.split prod.split)
  then show ?thesis by auto
qed

text \<open>
  C21. The server ends: when the flag is cleared after the accept loop has waited finitely often,
  \<open>main\<close> returns, whatever the command line, however many clients connect, whatever they
  send and wherever they stop, and on every error path. The hypotheses are that every call
  of the environment returns, \<open>SSL_read\<close> and \<open>SSL_accept\<close> included (a client that stays silent without
  closing keeps the real \<open>main\<close> from returning, see the findings), that calls to be repeated are
  finite, and that \<open>SSL_new\<close> does not fail, for which the code does not check.
\<close>

theorem server_main_returns:
  assumes "srv_api_ok inc api" and "srv_progress m api" and "flag_reads_left k api" and "\<forall>w. fst (srv_SSL_new api w)"
    and "length stack = FRAME_HEADER_SIZE"
  shows "\<exists>code st' w'. server_main api bo stack args st w = Some (code, st', w')"
  by (rule server_main_total [OF assms])

section \<open>A concrete server that is told to stop\<close>

text \<open>
  The world holds the streams of the connections to come and what is left of the present one. The
  flag is cleared once all have been read.
\<close>

definition demo_serving :: "(byte list list \<times> byte list) srv_api" where
  "demo_serving =
     \<lparr> srv_CTX_new = (\<lambda>w. (True, w)), srv_set_min_proto = (\<lambda>w v. (True, w)), use_certificate_file = (\<lambda>w f. (1, w)), use_PrivateKey_file = (\<lambda>w f. (1, w)),
       check_private_key = (\<lambda>w. (True, w)), sys_mkdir = (\<lambda>w d. (0, 0, w)),
       srv_socket = (\<lambda>w fds. (3, w)), sys_bind = (\<lambda>w fd p. (0, w)), sys_listen = (\<lambda>w fd. (0, w)),
       sys_select = (\<lambda>w fd. (1, 0, (tl (fst w), if fst w = [] then [] else hd (fst w)))), sys_accept = (\<lambda>w fds. (4, 0, w)),
       srv_SSL_new = (\<lambda>w. (True, w)), SSL_accept = (\<lambda>w. (1, w)),
       SSL_read = (\<lambda>w n. (take (nat (min n 5)) (snd w), SSL_ERROR_ZERO_RETURN, apsnd (drop (nat (min n 5))) w)),
       sys_open = (\<lambda>w fds f. (5, w)), sys_write = (\<lambda>w bs n. (min n 3, EINTR, w)),
       g_running = (\<lambda>w. (fst w \<noteq> [] \<or> snd w \<noteq> [], w)) \<rparr>"

definition demo_left :: "byte list list \<times> byte list \<Rightarrow> nat" where
  "demo_left w = 2 * length (fst w) + (if snd w = [] then 0 else 1)"

lemma demo_serving_ok:
  "srv_api_ok snd demo_serving" "srv_progress (\<lambda>_. 0) demo_serving" "flag_reads_left demo_left demo_serving"
  "\<forall>w. fst (srv_SSL_new demo_serving w)" "length (replicate 36 (0 :: byte)) = FRAME_HEADER_SIZE"
  "reads_to_end snd demo_serving" "ssl_read_ends snd demo_serving"
proof -
  show "srv_api_ok snd demo_serving"
    by (auto simp: srv_api_ok_def ssl_read_ok_def file_write_bounded_def stream_only_read_def demo_serving_def)
  show "srv_progress (\<lambda>_. 0) demo_serving"
    by (auto simp: srv_progress_def ssl_read_progress_def file_write_progress_def demo_serving_def)
  show "flag_reads_left demo_left demo_serving"
    by (auto simp: flag_reads_left_def demo_serving_def demo_left_def neq_Nil_conv)
  show "ssl_read_ends snd demo_serving" by (auto simp: ssl_read_ends_def demo_serving_def)
qed (auto simp: demo_serving_def reads_to_end_def)

abbreviation demo_srv_args :: "string list" where
  "demo_srv_args \<equiv> [''--port'', nat_to_dec 4433, ''--cert'', ''a'', ''--key'', ''b'', ''--output'', ''o'']"

theorem server_main_returns_witness:
  "\<exists>code st' w'. server_main demo_serving LittleEndian (replicate 36 0) demo_srv_args init_srv_state ([stream demo_sent], [])
     = Some (code, st', w')"
  by (rule server_main_returns [OF demo_serving_ok(1-5)])

text \<open>A connection that carries one frame is read to its end; then nothing is left to do.\<close>

lemma demo_connection:
  assumes "frame_fits f" and "serve_connection demo_serving bo cfg (replicate 36 0) fd st ([], frame_wire f) = Some (st', w')"
  shows "w' = ([], [])"
proof -
  let ?v = "\<lparr> cv_hdr = replicate 36 0, cv_frame_buf = [], cv_client_frames = 0 \<rparr>" and ?w = "([], frame_wire f)"
  let ?st = "st\<lparr>st_ssl_live := st_ssl_live st + 1\<rparr>"
  have ne: "frame_wire f \<noteq> []" using length_frame_wire [of f] by force
  obtain v' st0 where c: "client_loop demo_serving bo cfg ?v ?st ?w = Some (v', st0, w')"
    using assms(2) by (auto simp: serve_connection_def handleClient_def Let_def demo_serving_def bind_eq_Some_conv)
  have le: "demo_left w' \<le> demo_left ?w" using client_loop_reads [OF demo_serving_ok(1,3) c] by simp
  obtain again v2 st2 w2 where t: "client_turn demo_serving bo cfg ?v ?st ?w = Some (again, v2, st2, w2)"
    using client_turn_returns [OF demo_serving_ok(1,2)] by (metis prod_cases4)
  have "parse_frame (snd ?w) = Some (f, [])" using parse_frame_wire [OF assms(1), of "[]"] by simp
  then have r: "again" "snd w2 = []"
    using client_turn_result [OF demo_serving_ok(1) _ t] demo_serving_ok(7) by (auto split: if_splits)
  have go: "g_running demo_serving w = (fst w \<noteq> [] \<or> snd w \<noteq> [], w)" for w by (simp add: demo_serving_def)
  have le2: "demo_left w2 \<le> demo_left ?w" by (rule client_turn_reads [OF demo_serving_ok(1,3) t])
  then have "2 * length (fst w2) \<le> 1" using r(2) by (simp add: demo_left_def split: if_splits)
  then have "fst w2 = []" by (cases "fst w2") simp_all
  then have w2: "w2 = ([], [])" using r(2) by (simp add: prod_eq_iff)
  have "client_loop demo_serving bo cfg ?v ?st ?w = client_loop demo_serving bo cfg v2 st2 w2"
    using t r(1) ne by (subst client_loop.simps) (simp add: go)
  also have "\<dots> = Some (v2, st2, w2)" by (subst client_loop.simps) (simp add: go w2)
  finally show ?thesis using c w2 by simp
qed

lemma demo_serving_calls:
  "srv_socket demo_serving w fds = (3, w)" "sys_bind demo_serving w fd port = (0, w)" "sys_listen demo_serving w fd = (0, w)"
  "sys_select demo_serving w fd = (1, 0, (tl (fst w), if fst w = [] then [] else hd (fst w)))"
  "sys_accept demo_serving w fds = (4, 0, w)" "sys_mkdir demo_serving w d = (0, 0, w)"
  "g_running demo_serving w = (fst w \<noteq> [] \<or> snd w \<noteq> [], w)" "handshake demo_serving w = [w]"
  by (simp_all add: demo_serving_def handshake_def)

lemma demo_context:
  "\<exists>st'. srv_createSslContext demo_serving cert key st w = (True, st', w)"
  by (simp add: srv_createSslContext_def demo_serving_def Let_def)

text \<open>So the run of \<open>main\<close> has exactly this connection.\<close>

lemma demo_connections:
  assumes "frame_fits f"
  shows "server_connections demo_serving bo (replicate 36 0) demo_srv_args init_srv_state ([frame_wire f], [])
    = Some [([], frame_wire f)]"
proof -
  note l = demo_serving_ok(5)
  have rec: "accept_record demo_serving bo cfg (replicate 36 0) fd st ([frame_wire f], []) = Some [([], frame_wire f)]" for cfg fd st
  proof -
    obtain st1 w1 where c: "serve_connection demo_serving bo cfg (replicate 36 0) 4 (st\<lparr>st_fds := 4 # st_fds st\<rparr>) ([], frame_wire f)
        = Some (st1, w1)"
      using serve_connection_returns [OF demo_serving_ok(1-4)] by (metis length_replicate)
    have w1: "w1 = ([], [])" by (rule demo_connection [OF assms c])
    have "accept_record demo_serving bo cfg (replicate 36 0) fd st1 ([], []) = Some []"
      by (subst accept_record.simps) (simp add: demo_serving_calls)
    then show ?thesis by (subst accept_record.simps) (simp add: demo_serving_calls c w1)
  qed
  obtain cfg where cfg: "srv_parseArgs demo_srv_args default_srv_config = Inr cfg"
    using srv_parse_words [of 4433 "''a''" "''b''" "''o''" default_srv_config] by (auto simp: INT_MAX_def)
  obtain st1 where ctx: "srv_createSslContext demo_serving (sc_cert_file cfg) (sc_key_file cfg) init_srv_state ([frame_wire f], [])
      = (True, st1, ([frame_wire f], []))"
    using demo_context by blast
  have "(if sc_save_frames cfg then sys_mkdir demo_serving w (sc_output_dir cfg) else (0, 0, w)) = (0, 0, w)" for w
    by (simp add: demo_serving_calls)
  then show ?thesis
    by (simp add: server_connections_def cfg ctx run_record_def demo_serving_calls rec)
qed

theorem server_run_accounts_witness:
  "\<exists>code st' w'. server_main demo_serving LittleEndian (replicate 36 0) demo_srv_args init_srv_state ([stream demo_sent], [])
       = Some (code, st', w')
     \<and> server_connections demo_serving LittleEndian (replicate 36 0) demo_srv_args init_srv_state ([stream demo_sent], [])
       = Some [([], stream demo_sent)]
     \<and> st_frames st' = demo_sent \<and> st_frames_received st' = 1 \<and> st_bytes_received st' = 40"
proof -
  obtain code st' w' where r: "server_main demo_serving LittleEndian (replicate 36 0) demo_srv_args init_srv_state
      ([stream demo_sent], []) = Some (code, st', w')"
    using server_main_total [OF demo_serving_ok(1-5)] by blast
  have f: "frame_fits (hd demo_sent)" "stream demo_sent = frame_wire (hd demo_sent)"
    by (simp_all add: demo_sent_def frame_fits_def payload_limit_def stream_def)
  note c = demo_connections [OF f(1), folded f(2)]
  have p: "parse_stream (stream demo_sent) = demo_sent" by (rule demo_sent_parse)
  from server_run_accounts [OF demo_serving_ok(1,5) r] demo_serving_ok(6,7) c r p
  show ?thesis by (auto simp: demo_sent_def frame_bytes_def)
qed

end
