(* ===== verification/Program_Output.thy ===== *)
theory Program_Output
  imports Client_Main Server_Main
begin

text \<open>
  What the programs tell their user: the usage texts of \<open>src/main.cpp\<close> and \<open>server/server.cpp\<close>, the
  statistics line of the client, and the draining of OpenSSL's error queue into the log
  (\<open>logSslErrors\<close> of both programs). The usage texts document the option tables that the command
  line parsers use.
\<close>

section \<open>Usage texts\<close>

text \<open>The lines of the option sections, and the whole texts; \<open>prog\<close> is \<open>argv[0]\<close>.\<close>

definition cl_usage_options :: "string list" where
  "cl_usage_options =
     [''Camera options:'',
      ''  --device PATH/INDEX  Camera device or index (default: '' @ DEFAULT_DEVICE @ '')'',
      ''  --width N            Frame width (default: '' @ nat_to_dec (unat DEFAULT_WIDTH) @ '')'',
      ''  --height N           Frame height (default: '' @ nat_to_dec (unat DEFAULT_HEIGHT) @ '')'',
      ''  --fps N              Frames per second (default: '' @ nat_to_dec (unat DEFAULT_FPS) @ '')'',
      ''  --no-jpeg            Send raw BGR instead of JPEG'',
      ''  --jpeg-quality N     JPEG quality 1-100 (default: '' @ int_to_dec DEFAULT_JPEG_QUALITY @ '')'',
      '''',
      ''Network options:'',
      ''  --host HOSTNAME      Remote server hostname (required)'',
      ''  --port N             Remote server port (default: '' @ nat_to_dec (unat DEFAULT_PORT) @ '')'',
      ''  --ca PATH            CA certificate bundle path (default: system)'',
      '''',
      ''Other options:'',
      ''  --queue-size N       Frame queue size (default: '' @ nat_to_dec (unat DEFAULT_QUEUE_SIZE) @ '')'',
      ''  --verbose, -v        Enable verbose logging'',
      ''  --help, -h           Show this help'',
      '''']"

definition text_lines :: "string list \<Rightarrow> string" where
  "text_lines ls = concat (map (\<lambda>l. l @ [CHR 0x0A]) ls)"

definition cl_printUsage :: "string \<Rightarrow> string" where
  "cl_printUsage prog = text_lines
     ([''Usage: '' @ prog @ '' [options]'', '''', ''Camera frame streaming over TLS (OpenCV-based)'', '''']
      @ cl_usage_options
      @ [''Example:'', ''  '' @ prog @ '' --device 0 --width 1280 --height 720 '' @ [CHR 0x5C],
         ''     --fps 30 --host stream.example.com --port 4433'', ''''])"

definition srv_usage_options :: "string list" where
  "srv_usage_options =
     [''Options:'',
      ''  --port N          Listen port (default: 4433)'',
      ''  --cert FILE       Server certificate (PEM)'',
      ''  --key FILE        Server private key (PEM)'',
      ''  --output DIR      Save frames to directory'',
      ''  --verbose, -v     Verbose output'',
      ''  --help, -h        Show this help'',
      '''']"

definition srv_printUsage :: "string \<Rightarrow> string" where
  "srv_printUsage prog = text_lines
     ([''Usage: '' @ prog @ '' [options]'', '''', ''Simple TLS server to receive camera frames'', '''']
      @ srv_usage_options
      @ [''To generate self-signed certificate:'',
         ''  openssl req -x509 -newkey rsa:4096 -keyout server.key '' @ [CHR 0x5C],
         ''    -out server.crt -days 365 -nodes -subj '' @ [CHR 0x27] @ ''/CN=localhost'' @ [CHR 0x27], ''''])"

text \<open>
  How a reader takes a line: two blanks and two dashes start the description of an option, its
  name ends with a blank or a comma, and a word after a single blank stands for its argument.
\<close>

definition usage_option :: "string \<Rightarrow> (string \<times> has_arg) option" where
  "usage_option line =
     (if take 4 line \<noteq> ''  --'' then None
      else
        let name = takeWhile (\<lambda>c. c \<noteq> CHR '' '' \<and> c \<noteq> CHR '','') (drop 4 line);
            rest = drop (4 + length name) line
        in Some (name, if take 1 rest = '' '' \<and> take 2 rest \<noteq> ''  '' then required_argument else no_argument))"

definition documented_options :: "string list \<Rightarrow> (string \<times> has_arg) list" where
  "documented_options ls = List.map_filter usage_option ls"

text \<open>
  The usage texts are complete: the options that they describe, in their order and with or
  without an argument, are those of the tables that \<open>getopt_long\<close> is given.
\<close>

lemma usage_documents_options:
  "documented_options cl_usage_options = map (\<lambda>(name, arg, opt). (name, arg)) cl_long_options
   \<and> documented_options srv_usage_options = map (\<lambda>(name, arg, opt). (name, arg)) srv_long_options"
  by (simp add: documented_options_def cl_usage_options_def srv_usage_options_def cl_long_options_def srv_long_options_def
      usage_option_def Let_def List.map_filter_def)

section \<open>The error queue of OpenSSL\<close>

text \<open>
  \<open>logSslErrors\<close>: errors are taken from the queue until it yields 0, and each is reported.
  \<open>get_error\<close> is \<open>ERR_get_error\<close> and \<open>error_text\<close> what \<open>ERR_error_string_n\<close> leaves in the buffer of 256
  bytes; \<open>report\<close> is the body of the loop.
\<close>

partial_function (option) drain_errors ::
  "('w \<Rightarrow> u64 \<times> 'w) \<Rightarrow> ('w \<Rightarrow> string \<Rightarrow> 's \<Rightarrow> 's) \<Rightarrow> (u64 \<Rightarrow> string) \<Rightarrow> 's \<Rightarrow> 'w \<Rightarrow> ('s \<times> 'w) option" where
  "drain_errors get_error report error_text s w =
     (case get_error w of (err, w) \<Rightarrow>
        if err = 0 then Some (s, w) else drain_errors get_error report error_text (report w (error_text err) s) w)"

definition cl_ssl_operands :: "string \<Rightarrow> string \<Rightarrow> log_operand list" where
  "cl_ssl_operands context buf = [LString (Some context), LString (Some '': ''), LString (Some buf)]"

text \<open>The client logs every error as a statement of its own, at the time that the clock then shows.\<close>

definition cl_logSslErrors ::
  "('w \<Rightarrow> u64 \<times> 'w) \<Rightarrow> (u64 \<Rightarrow> string) \<Rightarrow> ('w \<Rightarrow> wall_clock) \<Rightarrow> (string \<Rightarrow> int) \<Rightarrow> string \<Rightarrow> string \<Rightarrow> logger \<Rightarrow> 'w
   \<Rightarrow> (logger \<times> 'w) option" where
  "cl_logSslErrors get_error error_text clock open_file garbage context g w =
     drain_errors get_error
       (\<lambda>w buf g. log_statement open_file (clock w) garbage LogError ''src/tls_client.cpp'' 49 (cl_ssl_operands context buf) g)
       error_text g w"

text \<open>The server prints it; the state is what has gone to \<open>std::cerr\<close>.\<close>

definition srv_logSslErrors ::
  "('w \<Rightarrow> u64 \<times> 'w) \<Rightarrow> (u64 \<Rightarrow> string) \<Rightarrow> string \<Rightarrow> string \<Rightarrow> 'w \<Rightarrow> (string \<times> 'w) option" where
  "srv_logSslErrors get_error error_text ctx out w =
     drain_errors get_error (\<lambda>w buf out. out @ ''[ERROR] '' @ ctx @ '': '' @ buf @ [CHR 0x0A]) error_text out w"

text \<open>Documented behaviour of the queue: it is finite, and yields its errors in order and then 0.\<close>

definition error_queue :: "('w \<Rightarrow> u64 list) \<Rightarrow> ('w \<Rightarrow> u64 \<times> 'w) \<Rightarrow> bool" where
  "error_queue errs get_error \<longleftrightarrow> (\<forall>w. 0 \<notin> set (errs w)
     \<and> (case errs w of [] \<Rightarrow> fst (get_error w) = 0 \<and> errs (snd (get_error w)) = []
        | e # es \<Rightarrow> fst (get_error w) = e \<and> errs (snd (get_error w)) = es))"

lemma error_queue_next:
  assumes "error_queue errs get_error" and "get_error w = (e, w')"
  shows "errs w = [] \<Longrightarrow> e = 0 \<and> errs w' = []" and "errs w = x # xs \<Longrightarrow> e = x \<and> e \<noteq> 0 \<and> errs w' = xs"
  using assms(2) spec [OF assms(1) [unfolded error_queue_def], of w] by auto

text \<open>The loop ends with the queue empty, having reported each error once, in order.\<close>

lemma drain_errors_result:
  assumes "error_queue errs get_error"
  shows "\<exists>w' ws. drain_errors get_error report error_text s w
      = Some (foldl (\<lambda>s (w, e). report w (error_text e) s) s (zip ws (errs w)), w')
    \<and> length ws = length (errs w) \<and> errs w' = []"
proof (induction "errs w" arbitrary: s w)
  case Nil
  obtain e w1 where g: "get_error w = (e, w1)" by (cases "get_error w")
  then have "e = 0" "errs w1 = []" using error_queue_next(1) [OF assms] Nil by simp_all
  then show ?case using g Nil by (intro exI [of _ w1] exI [of _ "[]"]) (simp add: drain_errors.simps)
next
  case (Cons e es)
  obtain e1 w1 where g: "get_error w = (e1, w1)" by (cases "get_error w")
  then have e: "e1 = e" "errs w1 = es" "e \<noteq> 0"
    using error_queue_next(2) [OF assms, of w e1 w1 e es] Cons.hyps(2) by auto
  obtain w' ws where ih: "drain_errors get_error report error_text (report w1 (error_text e) s) w1
      = Some (foldl (\<lambda>s (w, e). report w (error_text e) s) (report w1 (error_text e) s) (zip ws (errs w1)), w')"
    "length ws = length (errs w1)" "errs w' = []"
    using Cons.hyps(1) [OF e(2) [symmetric], of "report w1 (error_text e) s"] by blast
  show ?case
    using ih g e by (intro exI [of _ w'] exI [of _ "w1 # ws"])
      (simp add: drain_errors.simps [of _ _ _ _ w] Cons.hyps(2) [symmetric])
qed

text \<open>
  The server reports every error that OpenSSL has queued, oldest first, one line each, and
  leaves the queue empty, so that a later failure is not blamed on an earlier one.
\<close>

lemma server_reports_every_error:
  assumes "error_queue errs get_error"
  shows "\<exists>w'. srv_logSslErrors get_error error_text ctx out w
      = Some (out @ concat (map (\<lambda>e. ''[ERROR] '' @ ctx @ '': '' @ error_text e @ [CHR 0x0A]) (errs w)), w')
    \<and> errs w' = []"
proof -
  let ?line = "\<lambda>e. ''[ERROR] '' @ ctx @ '': '' @ error_text e @ [CHR 0x0A]"
  have fold: "foldl (\<lambda>s (w, e). s @ ?line e) out (zip ws es) = out @ concat (map ?line es)"
    if "length ws = length es" for ws :: "'a list" and es out
    using that by (induction ws es arbitrary: out rule: list_induct2) simp_all
  from drain_errors_result [OF assms, of "\<lambda>w buf out. out @ ''[ERROR] '' @ ctx @ '': '' @ buf @ [CHR 0x0A]" error_text out w]
  show ?thesis using fold by (auto simp: srv_logSslErrors_def)
qed

lemma server_reports_every_error_example:
  "\<exists>w'. srv_logSslErrors (\<lambda>w. case w of [] \<Rightarrow> (0, []) | e # es \<Rightarrow> (if e = 0 then (0, []) else (e, es)))
      (\<lambda>e. if e = 7 then ''no shared cipher'' else ''eof'') ''SSL_accept'' [] [7, 9 :: u64]
    = Some (''[ERROR] SSL_accept: no shared cipher'' @ CHR 0x0A # ''[ERROR] SSL_accept: eof'' @ [CHR 0x0A], w')"
proof -
  let ?get = "\<lambda>w :: u64 list. case w of [] \<Rightarrow> (0 :: u64, []) | e # es \<Rightarrow> (if e = 0 then (0, []) else (e, es))"
  let ?errs = "takeWhile (\<lambda>e :: u64. e \<noteq> 0)"
  have "error_queue ?errs ?get"
    by (auto simp: error_queue_def dest: set_takeWhileD split: list.split)
  from server_reports_every_error [OF this, of "\<lambda>e. if e = 7 then ''no shared cipher'' else ''eof''" "''SSL_accept''" "[]" "[7, 9]"]
  show ?thesis by auto
qed

section \<open>The statistics line\<close>

definition stats_operands :: "rq_stats \<Rightarrow> log_operand list" where
  "stats_operands stats =
     [LString (Some ''Stats: captured=''), LULong (st_frames_pushed stats),
      LString (Some '', dropped=''), LULong (st_frames_dropped stats),
      LString (Some '', sent=''), LULong (st_frames_popped stats)]"

text \<open>
  One turn of the loop in \<open>main\<close> after its five seconds: the line is logged unless the flag was
  cleared meanwhile.
\<close>

definition main_reports ::
  "(string \<Rightarrow> int) \<Rightarrow> wall_clock \<Rightarrow> string \<Rightarrow> bool \<Rightarrow> ring_queue \<Rightarrow> logger \<Rightarrow> logger" where
  "main_reports open_file t garbage go q g =
     (if go then log_statement open_file t garbage LogInfo ''src/main.cpp'' 326 (stats_operands (getStats q)) g else g)"

lemma stats_text:
  "concat (map operand_text (stats_operands stats)) =
   ''Stats: captured='' @ nat_to_dec (unat (st_frames_pushed stats)) @ '', dropped='' @
   nat_to_dec (unat (st_frames_dropped stats)) @ '', sent='' @ nat_to_dec (unat (st_frames_popped stats))"
  by (simp add: stats_operands_def)

end
