(* ===== verification/Spec2Isabelle.thy ===== *)
theory Spec2Isabelle
  imports Streamer_Shutdown Streamer_Threads_Runs Server_Runs Program_Output
begin

text \<open>
  Verification of the camera frame streamer: a client (\<open>src/main.cpp\<close>) that captures frames and
  sends them over TLS, and a server (\<open>server/server.cpp\<close>) that receives and saves them.

  \<^bold>\<open>The program.\<close> The client's capture thread (\<open>camera_capture.cpp\<close>) reads images, numbers them
  and pushes them into a ring queue of fixed slots in one mapped region (\<open>ring_queue.cpp\<close>). Its
  network thread (\<open>tls_client.cpp\<close>) connects with exponential back-off, pops the oldest frame
  without copying it, writes the packed header of \<open>protocol.hpp\<close> and the payload through
  \<open>SSL_write\<close>, and frees the slot; a failed write ends the connection. The main thread parses the
  command line, builds the objects, starts the threads, waits for a signal, shuts the queue, joins
  the threads and deletes the objects. All parts report through \<open>log.hpp\<close>. The server accepts one
  connection after the other, reads header and payload with \<open>SSL_read\<close>, checks magic, version and
  length, counts the frame and saves it to a file of its own.

  \<^bold>\<open>Theories.\<close> In the order of their imports:
  \<^item> \<open>Streamer_Prelude\<close>: word types, byte memory, words as bytes in either byte order, ring
    indices, subsequences, and the interfaces \<open>invariant_system\<close> (a step relation with an
    invariant), \<open>forward_simulation\<close> (steps of a detailed system are runs of an abstract one) and
    \<open>lossy_fifo\<close> (a queue that may lose but never reorders).
  \<^item> \<open>Protocol\<close> (\<open>protocol.hpp\<close>): the header, its memory image on hosts of both byte orders,
    \<open>htonll\<close>, \<open>initFrameHeader\<close>, \<open>pixelFormatToString\<close>; wire format and interoperability.
  \<^item> \<open>Frame_Stream\<close>: the wire form of frames and a reference decoder, as an instance of the
    interface \<open>prefix_code\<close>; the specification that client and server are compared with.
    \<open>stream_roundtrip\<close> and \<open>parse_cut_stream\<close> say that it determines the frames, also of a stream cut short.
  \<^item> \<open>Ring_Queue\<close>, \<open>Ring_Queue_Runs\<close> (\<open>ring_queue.hpp\<close>, \<open>ring_queue.cpp\<close>): all operations over
    the bytes of the region, the invariant, refinement of a bounded list that drops its oldest
    element, the waits of \<open>pop\<close>, and every interleaving of the operations.
  \<^item> \<open>Ring_Queue_Threads\<close> (\<open>ring_queue.cpp\<close>): the threads inside the operations of the queue; a step is
    one access to the mutex, the condition variable or a flag that is tested, or one block of code
    that runs under the mutex. They implement the atomic operations, are free of data races and
    never block one another for good.
  \<^item> \<open>Ring_Queue_Counters\<close>: what the statistics of the queue count over a run.
  \<^item> \<open>Clib\<close>, \<open>Getopt\<close>: what the programs use of the C library on strings, and \<open>getopt_long\<close>.
  \<^item> \<open>Chunk_Transfer\<close>: the interface \<open>chunk_loop\<close> of the three loops that move a block in parts,
    interpreted for \<open>SSL_write\<close>, \<open>SSL_read\<close> and \<open>write\<close>.
  \<^item> \<open>Tls_Client\<close>, \<open>Tls_Client_Runs\<close> (\<open>tls_client.hpp\<close>, \<open>tls_client.cpp\<close>): context, connection,
    back-off in single precision, writing, and the network thread with the account of what every
    connection carried.
  \<^item> \<open>Log_Message\<close> (\<open>log.hpp\<close>): the message buffer, its operators and the emitted line.
  \<^item> \<open>Camera_Capture\<close> (\<open>camera_capture.hpp\<close>, \<open>camera_capture.cpp\<close>): opening, starting and the
    capture thread with the history of its pushes.
  \<^item> \<open>Client_Main\<close> (\<open>main.cpp\<close>): the client's command line and the start-up.
  \<^item> \<open>Streamer\<close>, \<open>Streamer_Runs\<close> (\<open>main.cpp\<close> and the loops of both threads): the running client as
    a step relation of three threads with its invariant, an instance of \<open>invariant_system\<close>, and
    what follows for every reachable state.
  \<^item> \<open>Streamer_Shutdown\<close>: how the running client stops, and what its statistics say at any time.
  \<^item> \<open>Streamer_Threads\<close>, \<open>Streamer_Threads_Runs\<close>: the running client once more, with the steps inside
    \<open>push\<close>, \<open>pop\<close> and \<open>shutdown\<close> of \<open>Ring_Queue_Threads\<close>; it is simulated by \<open>Streamer\<close>, has no data race
    and no deadlock in the queue, and deletes its objects when no thread is in them.
  \<^item> \<open>Frame_Server\<close>, \<open>Frame_Server_Runs\<close>, \<open>Server_Main\<close> (\<open>server.cpp\<close>): the client handler, the
    frame files, the TLS context, the command line, the accept loop and the clean-up.
  \<^item> \<open>Server_Runs\<close> (\<open>server.cpp\<close>): a whole run of the server's \<open>main\<close>: the record of its connections
    (\<open>server_connections\<close>, which follows the branches of \<open>main\<close> and notes where each completed handshake
    leaves the environment), what it has taken from them, and that it ends.
  \<^item> \<open>Program_Output\<close> (\<open>main.cpp\<close>, \<open>server.cpp\<close>, \<open>tls_client.cpp\<close>): the usage texts, the
    reports of the OpenSSL error queue and the statistics line of the client.
  \<^item> this theory: client and server together.

  \<^bold>\<open>How state and operations correspond.\<close> Every class is a record with the members of the class and
  every method a function from its state to its result and new state, with the branches of the
  code in their order. The records of the TLS client and the server also list the descriptors and
  TLS objects that are open, and the bytes each TLS object accepted and each file holds, which the code
  leaves to the libraries and the operating system: every single call of \<open>SSL_write\<close> or \<open>write\<close> adds, of
  the bytes at the pointer it was given, as many as it reports. Errors are \<open>False\<close>, \<open>None\<close> in an option
  result or \<open>Inl\<close>. A loop that may run forever is a \<open>partial_function\<close> into options, so \<open>None\<close> is a run that does not return; operations
  whose behaviour the language leaves undefined (writing without a TLS object, converting a
  floating-point value out of range) are \<open>None\<close> as well. That loops return is always proved
  separately, from a measure on the environment; no fuel is used. \<open>end_to_end\<close> needs no step of its own
  between the two programs: it relates a reachable state of the client to a run of the server's \<open>main\<close>
  whose connections carry first parts of the client's.

  \<^bold>\<open>Parameters and hypotheses.\<close> OpenSSL, OpenCV, the sockets and file calls, the clocks, the running
  flag as other threads see it and the waits on the condition variable are fields of the records
  \<open>tls_api\<close>, \<open>cam_api\<close>, \<open>srv_api\<close> and \<open>rq_env\<close>, functions of an abstract world. The hypotheses
  on them are named and state documented behaviour: a write accepts no more than it is offered
  (\<open>ssl_write_bounded\<close>, \<open>file_write_bounded\<close>), a read yields the next bytes of the connection (\<open>ssl_read_ok\<close>), a new
  descriptor is not open already (\<open>socket_fresh\<close>), an image has the bytes it announces
  (\<open>mats_ok\<close>), a mapping is smaller than half the address space (\<open>mmap_bounded\<close>), calls to retry
  and spurious wake-ups are finite (\<open>ssl_write_progress\<close>, \<open>timedwait_progress\<close>, \<open>srv_progress\<close>), the
  running flag is at some time read as cleared (\<open>flag_reads_left\<close>), but not while bytes of a connection
  are to be read (\<open>reads_to_end\<close>, where everything that arrives is to be taken), a disk takes
  everything (\<open>disk_ok\<close>), and the library can set the least protocol version (\<open>tls12_supported\<close>; the code
  ignores the result). Each is met by a concrete environment (\<open>demo_api\<close>, \<open>demo_camera\<close>, \<open>demo_srv\<close>,
  \<open>demo_serving\<close>, \<open>demo_program\<close>) on which the properties are instantiated. Calls of the environment
  are functions, so each of them is taken to return.

  \<^bold>\<open>Concurrency.\<close> The operations of the queue run under its mutex and are atomic steps in
  \<open>Ring_Queue_Runs\<close> and \<open>Streamer\<close>, except that a wait inside \<open>pop\<close> releases the mutex.
  \<open>Ring_Queue_Threads\<close> justifies this: its threads lock, test, wait, write, commit, signal and unlock in
  separate steps, and each of its runs is matched by a run of the atomic operations. A block under
  the mutex (dropping the oldest frame, writing header and payload of a slot, advancing the head,
  taking the slot at the tail) is one step: what other threads do meanwhile without the mutex clears the
  flag of a slot that is held or reads its payload, and touches neither the members nor the bytes
  of such a block. It assumes sequential consistency, which the absence of data races it proves
  entitles a C++ program to. In
  \<open>Tls_Client_Runs\<close> and \<open>Camera_Capture\<close> the other threads are a parameter of one thread's loop. In
  \<open>Streamer\<close> all threads are modelled and a step is one call of the queue or one access to the running flag;
  \<open>network_turn_is_steps\<close> and \<open>capture_turn_is_steps\<close> connect the two views. \<open>Streamer_Threads\<close> puts
  the threads of \<open>Ring_Queue_Threads\<close> into the program: each state that the client reaches when the
  steps of the three threads interleave in any way maps to a reachable state of \<open>Streamer\<close>, in which
  a call under way has either not begun or taken effect, so \<open>Streamer\<close>'s properties hold of it.

  \<^bold>\<open>Bounds.\<close> Machine integers have their width, except indices into the region and lengths, which
  are natural numbers with the truncations of the code written out where they can matter. The
  properties on sequence numbers assume that no more than 2 ^ 64 frames were captured.

  \<^bold>\<open>Not modelled.\<close> The calls of the logger inside the other components, except the reports of
  \<open>Program_Output\<close>; the messages on the console that only announce progress, the server's averages
  and the certificate details; thread names; signals other than the clearing of the flag, in
  particular \<open>SIGPIPE\<close>; the Makefile.
\<close>

section \<open>The client and the server together\<close>

lemma frame_bytes_stream: "sum_list (map frame_bytes fs) = length (stream fs)"
  by (induction fs) (simp_all add: frame_bytes_def)

text \<open>Parts of streams carry parts of their frames.\<close>

lemma subseq_concat: "subseq xss yss \<Longrightarrow> subseq (concat xss) (concat yss)"
  by (induction rule: list_emb.induct) (auto intro: list_emb_append2 list_emb_append_mono)

lemma prefixes_concat: "list_all2 prefix xss yss \<Longrightarrow> subseq (concat xss) (concat yss)"
  by (induction rule: list_all2_induct) (auto intro: list_emb_append_mono prefix_imp_subseq)

lemma parse_prefix:
  assumes "cut_stream fs bs" and "list_all frame_fits fs" and "prefix bs' bs"
  shows "prefix (parse_stream bs') (parse_stream bs)"
proof -
  obtain fs' where fs': "prefix fs' fs" "cut_stream fs' bs'" using cut_stream_prefix [OF assms] by blast
  have "list_all frame_fits fs'" using assms(2) fs'(1) by (auto simp: list_all_iff dest: set_mono_prefix)
  then show ?thesis using parse_cut_stream [OF assms(1,2)] parse_cut_stream [OF fs'(2)] fs'(1) by simp
qed

text \<open>
  Whichever of the connections arrive, and wherever each of them breaks off, a server that takes
  a first part of each takes a part of what the client wrote.
\<close>

lemma received_subseq:
  assumes "list_all2 cut_stream past streams" and "wire_frames_ok (concat past)"
    and "subseq bss streams" and "list_all2 prefix bss' bss" and "list_all2 prefix fss (map parse_stream bss')"
  shows "subseq (concat fss) (concat past)"
proof -
  have whole: "prefix (parse_stream bs') (parse_stream bs)" if "bs \<in> set bss" "prefix bs' bs" for bs bs'
  proof -
    have "bs \<in> set streams" using that(1) assms(3) subseq_elements by fast
    then obtain fs where fs: "fs \<in> set past" "cut_stream fs bs"
      using assms(1) by (metis in_set_conv_nth list_all2_conv_all_nth)
    have "list_all frame_fits fs"
      using fs(1) assms(2) by (fastforce simp: wire_frames_ok_def frame_fits_def payload_limit_def list_all_iff)
    then show ?thesis using parse_prefix fs(2) that(2) by blast
  qed
  have "list_all2 prefix fss (map parse_stream bss)"
    using assms(4,5) whole [OF nth_mem] unfolding list_all2_conv_all_nth
    by (fastforce intro: prefix_order.trans)
  then have "subseq (concat fss) (concat (map parse_stream bss))" by (rule prefixes_concat)
  also have "subseq (concat (map parse_stream bss)) (concat (map parse_stream streams))"
    by (rule subseq_concat [OF subseq_map [OF assms(3)]])
  finally show ?thesis using past_streams [OF assms(1,2)] by simp
qed

text \<open>A part of the captured frames that is as long as the camera counts them is all of them.\<close>

lemma all_received:
  assumes "subseq fs (rr_offered r)" and "length (rr_offered r) < 2 ^ 63"
    and "of_nat (length fs) = (of_nat (length (rr_offered r) + length (pending_frames pc)) :: u64)"
  shows "fs = rr_offered r"
proof -
  have "length fs \<le> length (rr_offered r)" using assms(1) by (rule list_emb_length)
  moreover have "length (pending_frames pc) \<le> 1" by (simp add: pending_frames_def split: capture_pc.split)
  ultimately have "length fs = length (rr_offered r) + length (pending_frames pc)"
    using arg_cong [OF assms(3), of unat] assms(2) by (simp add: unat_of_nat take_bit_nat_eq_self del: of_nat_add)
  then show ?thesis using assms(1) list_emb_length [OF assms(1)] subseq_same_length by fastforce
qed

text \<open>
  C1. End to end: in whatever way the client's threads interleave, and the camera, the network and the
  signals behave, consider a run of the server's \<open>main\<close>. It returns (its flag is cleared after the
  accept loop has waited finitely often), with every descriptor closed. When the connections it
  served carried, in their order, a first part each of connections of the client, whichever of them
  arrived and wherever each broke off, it has taken over a subsequence of the frames that the camera
  captured, bit for bit, with increasing sequence numbers. When they are all the connections
  of a client whose network thread has ended, each whole, and the server's flag is not cleared while
  bytes are to be read, the frames and bytes it counts are those that the client counts as
  sent, and when the client has sent as many frames as the camera has numbered, the server holds
  every captured frame.
\<close>

theorem end_to_end:
  assumes "client_env_ok env" and "reach (sy_init env) (sy_step env bo) s"
    and "length (rr_offered (sy_run s)) \<le> 2 ^ 64"
    and "srv_api_ok inc api" and "srv_progress m api" and "flag_reads_left k api" and "\<forall>w. fst (srv_SSL_new api w)"
    and "length stack = FRAME_HEADER_SIZE"
  shows "\<exists>code st w' ws. server_main api bo' stack args init_srv_state w = Some (code, st, w')
    \<and> server_connections api bo' stack args init_srv_state w = Some ws
    \<and> st_fds st = [] \<and> st_frames_received st = of_nat (length (st_frames st))
    \<and> (\<forall>bss. subseq bss (os_streams (tc_os (sy_tls s))) \<and> list_all2 prefix (map inc ws) bss \<longrightarrow>
         subseq (st_frames st) (rr_offered (sy_run s)) \<and> sorted_wrt (<) (map fr_seq (st_frames st)))
    \<and> (map inc ws = os_streams (tc_os (sy_tls s)) \<and> sy_network s = NetDone \<and> reads_to_end inc api \<and> ssl_read_ends inc api \<longrightarrow>
         st_frames_received st = tc_frames_sent (sy_tls s) \<and> st_bytes_received st = tc_bytes_sent (sy_tls s)
         \<and> (tc_frames_sent (sy_tls s) = frameCount (sy_camera s) \<and> length (rr_offered (sy_run s)) < 2 ^ 63
              \<longrightarrow> st_frames st = rr_offered (sy_run s)))"
proof -
  let ?streams = "os_streams (tc_os (sy_tls s))"
  have inv: "sy_inv bo s" by (rule client_reachable [OF assms(1,2)])
  obtain past cur where a: "net_account bo s past cur" "wire_frames_ok (concat past @ cur)"
    using inv by (auto simp: sy_inv_def sy_wire_ok_def)
  then have past: "list_all2 cut_stream past ?streams" "wire_frames_ok (concat past)"
    using net_account_past by (auto simp: wire_frames_ok_def)
  have wire: "wire_frames s = concat past" using past_streams [OF past] by (simp add: wire_frames_def)
  obtain code st w' where run: "server_main api bo' stack args init_srv_state w = Some (code, st, w')"
    using server_main_total [OF assms(4-8)] by blast
  have "length stack = 36" using assms(8) by simp
  then obtain ws fss where ws: "server_connections api bo' stack args init_srv_state w = Some ws"
    and fss: "list_all2 prefix fss (map (parse_stream \<circ> inc) ws)"
    "reads_to_end inc api \<and> ssl_read_ends inc api \<longrightarrow> fss = map (parse_stream \<circ> inc) ws"
    and st: "st_frames st = concat fss" "st_frames_received st = of_nat (length (concat fss))"
    "st_bytes_received st = of_nat (length (stream (concat fss)))"
    using server_main_recorded [OF assms(4) _ run] by (auto simp: served_def init_srv_state_def frame_bytes_stream)
  have sub: "subseq (st_frames st) (rr_offered (sy_run s))"
    if "subseq bss ?streams" "list_all2 prefix (map inc ws) bss" for bss
    using received_subseq [OF past that] fss(1) reachable_wire(1) [OF inv] wire st(1)
    by (auto intro: subseq_order.trans)
  note sorted = numbered_sorted [OF reachable_wire(3) [OF inv] assms(3) sub]
  have "st_frames_received st = tc_frames_sent (sy_tls s) \<and> st_bytes_received st = tc_bytes_sent (sy_tls s)
    \<and> (tc_frames_sent (sy_tls s) = frameCount (sy_camera s) \<and> length (rr_offered (sy_run s)) < 2 ^ 63
              \<longrightarrow> st_frames st = rr_offered (sy_run s))"
    if all: "map inc ws = ?streams" "sy_network s = NetDone" "reads_to_end inc api" "ssl_read_ends inc api"
  proof -
    have "concat fss = wire_frames s"
      using fss(2) all unfolding wire_frames_def all(1) [symmetric] by simp
    then have c: "st_frames_received st = tc_frames_sent (sy_tls s)" "st_bytes_received st = tc_bytes_sent (sy_tls s)"
      using reachable_wire(4,5) [OF inv all(2)] st by simp_all
    have "subseq (st_frames st) (rr_offered (sy_run s))"
      by (rule sub [of ?streams]) (simp_all add: all(1) list_all2_same)
    from all_received [OF this] show ?thesis using c reachable_wire(6) [OF inv] st by simp
  qed
  moreover have "st_fds st = []" using server_main_closes [OF assms(4,8) run] by simp
  moreover have "st_frames_received st = of_nat (length (st_frames st))" using st by simp
  ultimately show ?thesis
    using run ws sub sorted by (intro exI [of _ code] exI [of _ st] exI [of _ w'] exI [of _ ws] conjI) auto
qed

text \<open>The frame that the concrete client captured arrives at the concrete server.\<close>

theorem end_to_end_witness:
  "\<exists>s f code st w'. reach (sy_init demo_program) (sy_step demo_program LittleEndian) s \<and> rr_offered (sy_run s) = [f]
     \<and> server_main demo_serving BigEndian (replicate 36 0) demo_srv_args init_srv_state (os_streams (tc_os (sy_tls s)), [])
         = Some (code, st, w')
     \<and> st_frames_received st = 1 \<and> st_frames st = [f]"
proof -
  obtain s f where s: "reach (sy_init demo_program) (sy_step demo_program LittleEndian) s" "sy_network s = NetDone"
    "rr_offered (sy_run s) = [f]" "length (fr_payload f) \<le> 4" "os_streams (tc_os (sy_tls s)) = [frame_wire f]"
    "tc_frames_sent (sy_tls s) = 1"
    using demo_exit by blast
  let ?w = "(os_streams (tc_os (sy_tls s)), [])"
  have "frame_fits f" using s(4) by (simp add: frame_fits_def payload_limit_def)
  then have c: "server_connections demo_serving BigEndian (replicate 36 0) demo_srv_args init_srv_state ?w = Some [([], frame_wire f)]"
    using demo_connections s(5) by simp
  have l: "length (rr_offered (sy_run s)) \<le> 2 ^ 64" "length (rr_offered (sy_run s)) < 2 ^ 63" using s(3) by simp_all
  obtain code st w' ws where r: "server_main demo_serving BigEndian (replicate 36 0) demo_srv_args init_srv_state ?w = Some (code, st, w')"
    "server_connections demo_serving BigEndian (replicate 36 0) demo_srv_args init_srv_state ?w = Some ws"
    and sub: "\<And>bss. subseq bss (os_streams (tc_os (sy_tls s))) \<Longrightarrow> list_all2 prefix (map snd ws) bss \<Longrightarrow> subseq (st_frames st) [f]"
    and n: "map snd ws = os_streams (tc_os (sy_tls s)) \<Longrightarrow> st_frames_received st = tc_frames_sent (sy_tls s)"
    and len: "st_frames_received st = of_nat (length (st_frames st))"
    using end_to_end [OF demo_program_ok s(1) l(1) demo_serving_ok(1-5), of BigEndian demo_srv_args ?w] s(2,3) demo_serving_ok(6,7)
    by metis
  have ws: "ws = [([], frame_wire f)]" using r(2) c by simp
  have one: "st_frames_received st = 1" using n s(5,6) ws by simp
  have "subseq (st_frames st) [f]" using sub [of "[frame_wire f]"] s(5) ws by simp
  moreover have "st_frames st \<noteq> []" using len one by auto
  ultimately have "st_frames st = [f]" by (cases "st_frames st") (simp_all split: if_splits)
  then show ?thesis using s(1,3) r(1) one by blast
qed

end
